(* ===== verification/Prelude.thy ===== *)
theory Prelude
  imports Main "HOL-Library.Word"
begin

text \<open>
  Shared vocabulary of the development: machine integer types, the pieces of the C++ standard
  library that several components use (decimal printing with \<^verbatim>\<open>std::to_string\<close>, the classification
  of characters, \<^verbatim>\<open>std::string\<close> searches), the collections of facts the component proofs draw on, and
  the generic transition-system contract used for the concurrent components.
\<close>

unbundle bit_operations_syntax

section \<open>Types and collections of facts\<close>

type_synonym u8 = "8 word"
type_synonym u16 = "16 word"
type_synonym u32 = "32 word"
type_synonym u64 = "64 word"

named_theorems text_simps "equations of the text layer: digits, decimal printing, trimming"
named_theorems byte_simps "equations of the byte layer: splitting and joining words, checksums"

section \<open>Decimal numbers\<close>

text \<open>The character of a decimal digit, and the value of a digit character (\<^verbatim>\<open>c - '0'\<close>).\<close>

definition digit_char :: "nat \<Rightarrow> char" where
  "digit_char d = char_of (48 + d)"

definition digit_val :: "char \<Rightarrow> nat" where
  "digit_val c = of_char c - 48"

text \<open>
  The test \<^verbatim>\<open>c >= '0' && c <= '9'\<close>. On a platform with signed \<^verbatim>\<open>char\<close> the bytes from 128 on are
  negative and fail the first comparison; here they are above \<open>57\<close> and fail the second one.
\<close>

definition is_digit :: "char \<Rightarrow> bool" where
  "is_digit c \<longleftrightarrow> 48 \<le> (of_char c :: nat) \<and> (of_char c :: nat) \<le> 57"

text \<open>\<^verbatim>\<open>std::to_string\<close> on an unsigned integer: the decimal digits without leading zeros.\<close>

fun to_string :: "nat \<Rightarrow> string" where
  "to_string n = (if n < 10 then [digit_char n] else to_string (n div 10) @ [digit_char (n mod 10)])"

declare to_string.simps [simp del]

text \<open>The number a digit string denotes.\<close>

definition digits_value :: "string \<Rightarrow> nat" where
  "digits_value = foldl (\<lambda>acc c. 10 * acc + digit_val c) 0"

lemma digit_val_digit_char [simp, text_simps]: "d < 10 \<Longrightarrow> digit_val (digit_char d) = d"
  by (simp add: digit_val_def digit_char_def)

lemma is_digit_digit_char [simp, text_simps]: "d < 10 \<Longrightarrow> is_digit (digit_char d)"
  by (simp add: is_digit_def digit_char_def)

lemma digit_val_less [simp]: "is_digit c \<Longrightarrow> digit_val c < 10"
  by (simp add: is_digit_def digit_val_def) linarith

lemma digits_value_Nil [simp, text_simps]: "digits_value [] = 0"
  by (simp add: digits_value_def)

lemma digits_value_snoc [simp, text_simps]:
  "digits_value (ds @ [d]) = 10 * digits_value ds + digit_val d"
  by (simp add: digits_value_def)

lemma to_string_not_Nil [simp, text_simps]: "to_string n \<noteq> []"
  by (subst to_string.simps) simp

lemma list_all_is_digit_to_string [simp, text_simps]: "list_all is_digit (to_string n)"
proof (induction n rule: to_string.induct)
  case (1 n)
  then show ?case by (subst to_string.simps) simp
qed

lemma digits_value_to_string [simp, text_simps]: "digits_value (to_string n) = n"
proof (induction n rule: to_string.induct)
  case (1 n)
  show ?case
  proof (cases "n < 10")
    case True
    then show ?thesis by (subst to_string.simps) (simp add: digits_value_def)
  next
    case False
    with 1 have "digits_value (to_string (n div 10)) = n div 10" by simp
    with False show ?thesis by (subst to_string.simps) simp
  qed
qed

lemma to_string_inject [simp]: "to_string m = to_string n \<longleftrightarrow> m = n"
  by (metis digits_value_to_string)

text \<open>Reading digits left to right, with the accumulator a source loop carries.\<close>

lemma digits_value_acc:
  "foldl (\<lambda>acc c. 10 * acc + digit_val c) a ds = a * 10 ^ length ds + digits_value ds"
proof (induction ds rule: rev_induct)
  case Nil
  then show ?case by simp
next
  case (snoc d ds)
  then show ?case by (simp add: algebra_simps)
qed

lemma digits_value_Cons:
  "digits_value (d # ds) = digit_val d * 10 ^ length ds + digits_value ds"
  using digits_value_acc [of "digit_val d" ds] by (simp add: digits_value_def)

section \<open>Runs of a transition system\<close>

text \<open>
  The concurrent components are step relations whose steps are the critical sections of the code.
  A predicate that the initial states satisfy and every step preserves holds in every state that a
  run reaches; the contract is stated once here and interpreted for each component.
\<close>

locale invariant_system =
  fixes init :: "'s \<Rightarrow> bool"
    and step :: "'s \<Rightarrow> 's \<Rightarrow> bool"
    and inv :: "'s \<Rightarrow> bool"
  assumes inv_init: "init s \<Longrightarrow> inv s"
    and inv_step: "step s t \<Longrightarrow> inv s \<Longrightarrow> inv t"
begin

lemma inv_run: "step\<^sup>*\<^sup>* s t \<Longrightarrow> inv s \<Longrightarrow> inv t"
  by (induction rule: rtranclp_induct) (auto intro: inv_step)

lemma inv_reachable: "init s \<Longrightarrow> step\<^sup>*\<^sup>* s t \<Longrightarrow> inv t"
  by (blast intro: inv_init inv_run)

text \<open>A relation between two states that every step from an invariant state extends.\<close>

lemma run_relation:
  assumes run: "step\<^sup>*\<^sup>* s t" and inv: "inv s"
    and refl: "\<And>s. R s s"
    and ext: "\<And>s t u. inv t \<Longrightarrow> R s t \<Longrightarrow> step t u \<Longrightarrow> R s u"
  shows "R s t"
  using run
proof (induction rule: rtranclp_induct)
  case base
  show ?case by (rule refl)
next
  case (step t u)
  from inv_run [OF step.hyps(1) inv] step.IH step.hyps(2) show ?case by (rule ext)
qed

end

text \<open>
  A system in which every step makes a natural number smaller and every state that is not final has
  a step: runs are bounded, none gets stuck, and each can be continued to a final state.
\<close>

locale terminating_system = invariant_system +
  fixes final :: "'a \<Rightarrow> bool"
    and weight :: "'a \<Rightarrow> nat"
  assumes decreases: "inv s \<Longrightarrow> step s t \<Longrightarrow> weight t < weight s"
    and progress: "inv s \<Longrightarrow> \<not> final s \<Longrightarrow> \<exists>t. step s t"
begin

lemma bounded: "(step ^^ n) s t \<Longrightarrow> inv s \<Longrightarrow> n + weight t \<le> weight s"
proof (induction n arbitrary: t)
  case (Suc n)
  then obtain u where u: "(step ^^ n) s u" "step u t" by auto
  with Suc.prems(2) have "inv u" by (blast intro: inv_run relpowp_imp_rtranclp)
  with Suc.IH [OF u(1) Suc.prems(2)] decreases [OF _ u(2)] show ?case by simp
qed simp

lemma not_stuck: "step\<^sup>*\<^sup>* s t \<Longrightarrow> inv s \<Longrightarrow> \<not> final t \<Longrightarrow> \<exists>u. step t u"
  by (blast intro: progress inv_run)

lemma completes: "inv s \<Longrightarrow> \<exists>t. step\<^sup>*\<^sup>* s t \<and> final t"
proof (induction "weight s" arbitrary: s rule: less_induct)
  case less
  show ?case
  proof (cases "final s")
    case False
    from progress [OF less.prems False] obtain t where t: "step s t" by blast
    from less.hyps [OF decreases [OF less.prems t] inv_step [OF t less.prems]] t show ?thesis
      by (blast intro: converse_rtranclp_into_rtranclp)
  qed blast
qed

end

end
