(* ===== verification/Byte_Codec.thy ===== *)
theory Byte_Codec
  imports Prelude
begin

text \<open>
  The byte layer the two binary protocols share: the split of a 16-bit sequence number into two
  bytes, the XOR checksum loop, and the contract of a fixed-size frame codec. The contract comes in
  two strengths: \<open>fixed_codec\<close> (decoding inverts encoding) and \<open>exact_codec\<close> (in addition, only
  encodings are accepted).
\<close>

section \<open>Sequence numbers on the wire\<close>

text \<open>\<^verbatim>\<open>(sequence >> 8) & 0xFF\<close> and \<^verbatim>\<open>sequence & 0xFF\<close>, each cast to a byte.\<close>

definition seq_high :: "u16 \<Rightarrow> u8" where
  "seq_high s = ucast (drop_bit 8 s AND 0xFF)"

definition seq_low :: "u16 \<Rightarrow> u8" where
  "seq_low s = ucast (s AND 0xFF)"

text \<open>\<^verbatim>\<open>(uint16_t(high) << 8) | low\<close>.\<close>

definition seq_join :: "u8 \<Rightarrow> u8 \<Rightarrow> u16" where
  "seq_join h l = push_bit 8 (ucast h) OR ucast l"

lemma byte_mask: "(0xFF :: 'a::len word) = mask 8"
  by (simp add: mask_eq_exp_minus_1)

lemma seq_join_split [simp, byte_simps]: "seq_join (seq_high s) (seq_low s) = s"
  by (rule bit_word_eqI)
    (auto simp: seq_join_def seq_high_def seq_low_def byte_mask bit_simps)

lemma seq_high_join [simp, byte_simps]: "seq_high (seq_join h l) = h"
  by (rule bit_word_eqI)
    (auto simp: seq_join_def seq_high_def byte_mask bit_simps dest: bit_imp_le_length)

lemma seq_low_join [simp, byte_simps]: "seq_low (seq_join h l) = l"
  by (rule bit_word_eqI)
    (auto simp: seq_join_def seq_low_def byte_mask bit_simps dest: bit_imp_le_length)

section \<open>The checksum loop\<close>

lemma xor_left_cancel [byte_simps]: "(a :: 'a::len word) XOR b = a XOR c \<longleftrightarrow> b = c"
  by (metis xor.assoc xor_self_eq xor.left_neutral)

lemma xor_right_cancel [byte_simps]: "(a :: 'a::len word) XOR c = b XOR c \<longleftrightarrow> a = b"
  by (metis xor_left_cancel xor.commute)

text \<open>
  \<^verbatim>\<open>for (index = begin; index < end; ++index) checksum ^= bytes[index];\<close>
  Both callers keep \<^verbatim>\<open>end\<close> within the vector, so no read is out of range.
\<close>

function xor_loop :: "u8 list \<Rightarrow> nat \<Rightarrow> nat \<Rightarrow> u8 \<Rightarrow> u8" where
  "xor_loop bytes index endExclusive checksum =
     (if index < endExclusive
      then xor_loop bytes (Suc index) endExclusive (checksum XOR bytes ! index)
      else checksum)"
  by pat_completeness auto
termination
  by (relation "measure (\<lambda>(bytes, index, endExclusive, checksum). endExclusive - index)") auto

declare xor_loop.simps [simp del]

text \<open>The loop is the XOR of the slice it walks.\<close>

lemma xor_loop_slice:
  assumes "endExclusive \<le> length bytes"
  shows "xor_loop bytes index endExclusive c =
    fold (XOR) (take (endExclusive - index) (drop index bytes)) c"
  using assms
proof (induction bytes index endExclusive c rule: xor_loop.induct)
  case (1 bytes index endExclusive c)
  show ?case
  proof (cases "index < endExclusive")
    case True
    with 1 have "xor_loop bytes (Suc index) endExclusive (c XOR bytes ! index) =
        fold (XOR) (take (endExclusive - Suc index) (drop (Suc index) bytes)) (c XOR bytes ! index)"
      by simp
    moreover from True 1(2) have
      "take (endExclusive - index) (drop index bytes) =
        bytes ! index # take (endExclusive - Suc index) (drop (Suc index) bytes)"
      by (metis Cons_nth_drop_Suc Suc_diff_Suc less_le_trans take_Suc_Cons)
    ultimately show ?thesis using True
      by (simp add: xor_loop.simps [of bytes index] xor.commute)
  next
    case False
    then show ?thesis by (simp add: xor_loop.simps [of bytes index])
  qed
qed

section \<open>Frame codecs\<close>

locale fixed_codec =
  fixes enc :: "'f \<Rightarrow> u8 list"
    and dec :: "u8 list \<Rightarrow> 'f option"
    and wf :: "'f \<Rightarrow> bool"
    and n :: nat
  assumes enc_length: "length (enc f) = n"
    and n_pos: "0 < n"
    and dec_enc: "wf f \<Longrightarrow> dec (enc f) = Some f"
    and dec_wf: "dec bs = Some f \<Longrightarrow> wf f"
    and dec_length: "dec bs = Some f \<Longrightarrow> length bs = n"
begin

lemma enc_inject: "wf f \<Longrightarrow> wf g \<Longrightarrow> enc f = enc g \<longleftrightarrow> f = g"
  by (metis dec_enc option.inject)

lemma enc_not_Nil: "enc f \<noteq> []"
  using enc_length [of f] n_pos by auto

text \<open>A concatenation of encoded frames determines the frames: the stream needs no separators.\<close>

lemma enc_stream_inject:
  "list_all wf fs \<Longrightarrow> list_all wf gs \<Longrightarrow> concat (map enc fs) = concat (map enc gs) \<Longrightarrow> fs = gs"
proof (induction fs arbitrary: gs)
  case Nil
  then show ?case by (cases gs) (auto simp: enc_not_Nil)
next
  case (Cons f fs)
  have "concat (map enc (f # fs)) \<noteq> []" by (simp add: enc_not_Nil)
  with Cons.prems(3) have "gs \<noteq> []" by force
  then obtain g gs' where gs: "gs = g # gs'" by (cases gs) simp_all
  with Cons.prems(3) have "enc f @ concat (map enc fs) = enc g @ concat (map enc gs')" by simp
  then have "enc f = enc g" and rest: "concat (map enc fs) = concat (map enc gs')"
    by (simp_all add: append_eq_append_conv enc_length)
  then have "f = g" using Cons.prems gs enc_inject by simp
  moreover have "fs = gs'" using Cons.IH [OF _ _ rest] Cons.prems gs by simp
  ultimately show ?case by (simp add: gs)
qed

end

locale exact_codec = fixed_codec +
  assumes dec_sound: "dec bs = Some f \<Longrightarrow> bs = enc f"
begin

lemma dec_iff: "dec bs = Some f \<longleftrightarrow> wf f \<and> bs = enc f"
  by (blast intro: dec_enc dec_wf dec_sound)

lemma dec_inject: "dec bs = Some f \<Longrightarrow> dec cs = Some f \<Longrightarrow> bs = cs"
  by (simp add: dec_iff)

lemma dec_None_iff: "dec bs = None \<longleftrightarrow> (\<forall>f. wf f \<longrightarrow> bs \<noteq> enc f)"
  by (metis dec_iff not_None_eq)

end

end
