(* ===== verification/Serial_Frame.thy ===== *)
theory Serial_Frame
  imports Byte_Codec
begin

text \<open>
  The binary serial protocol of \<^verbatim>\<open>cpp_modules/serial_frame_demo\<close>: \<^verbatim>\<open>FrameCodec\<close>
  (frame \<^verbatim>\<open>AA 55 LEN SEQ_H SEQ_L CMD CHECKSUM 0D 0A\<close>) and \<^verbatim>\<open>StreamParser\<close>, which finds frames
  in an arbitrary byte stream. The codec is an \<open>exact_codec\<close>; the stream parser is refined to a
  byte-by-byte scanner, from which its independence of the chunking of the input follows.
\<close>

section \<open>Constants and data\<close>

definition kHeader1 :: u8 where "kHeader1 = 0xAA"
definition kHeader2 :: u8 where "kHeader2 = 0x55"
definition kTail1 :: u8 where "kTail1 = 0x0D"
definition kTail2 :: u8 where "kTail2 = 0x0A"
definition kPayloadLength :: u8 where "kPayloadLength = 3"

lemmas serial_consts = kHeader1_def kHeader2_def kTail1_def kTail2_def kPayloadLength_def

text \<open>
  \<^verbatim>\<open>enum class WireCommand : std::uint8_t\<close>. Its underlying type is fixed, so every byte is a value
  of the enumeration; the four enumerators are constants.
\<close>

type_synonym WireCommand = u8

definition WireCommand_Open :: WireCommand where "WireCommand_Open = 0x01"
definition WireCommand_Grab :: WireCommand where "WireCommand_Grab = 0x02"
definition WireCommand_Release :: WireCommand where "WireCommand_Release = 0x03"
definition WireCommand_Stop :: WireCommand where "WireCommand_Stop = 0x04"

lemmas wire_command_defs = WireCommand_Open_def WireCommand_Grab_def WireCommand_Release_def
  WireCommand_Stop_def

record Frame =
  frame_sequence :: u16
  frame_command :: WireCommand

text \<open>The default member initialisers of \<^verbatim>\<open>struct Frame\<close>.\<close>

definition default_Frame :: Frame where
  "default_Frame = \<lparr>frame_sequence = 0, frame_command = WireCommand_Open\<rparr>"

datatype DecodeError =
  NoError | InvalidHeader | InvalidLength | InvalidTail | ChecksumMismatch | UnknownCommand

section \<open>FrameCodec\<close>

definition calculateChecksum :: "u8 list \<Rightarrow> nat \<Rightarrow> nat \<Rightarrow> u8" where
  "calculateChecksum bytes beginIndex endExclusive = xor_loop bytes beginIndex endExclusive 0"

definition isKnownCommand :: "u8 \<Rightarrow> bool" where
  "isKnownCommand command \<longleftrightarrow>
     command = WireCommand_Open \<or> command = WireCommand_Grab \<or>
     command = WireCommand_Release \<or> command = WireCommand_Stop"

definition encode :: "Frame \<Rightarrow> u8 list" where
  "encode frame =
     (let bytes = [kHeader1, kHeader2, kPayloadLength,
                   seq_high (frame_sequence frame), seq_low (frame_sequence frame),
                   frame_command frame];
          checksum = calculateChecksum bytes 2 (length bytes)
      in bytes @ [checksum] @ [kTail1] @ [kTail2])"

text \<open>
  \<^verbatim>\<open>decode\<close> writes its two output arguments: the result is the returned flag, the frame after the
  call and the error. On every failing branch the frame is the caller's, unchanged.
\<close>

definition decode :: "u8 list \<Rightarrow> Frame \<Rightarrow> bool \<times> Frame \<times> DecodeError" where
  "decode bytes outFrame =
     (if length bytes < 3 then (False, outFrame, InvalidLength)
      else if bytes ! 0 \<noteq> kHeader1 \<or> bytes ! 1 \<noteq> kHeader2 then (False, outFrame, InvalidHeader)
      else let payloadLength = bytes ! 2 in
        if payloadLength \<noteq> kPayloadLength then (False, outFrame, InvalidLength)
        else let expectedSize = unat payloadLength + 6 in
          if length bytes \<noteq> expectedSize then (False, outFrame, InvalidLength)
          else if bytes ! (expectedSize - 2) \<noteq> kTail1 \<or> bytes ! (expectedSize - 1) \<noteq> kTail2
          then (False, outFrame, InvalidTail)
          else let checksumIndex = 3 + unat payloadLength;
                   calculatedChecksum = calculateChecksum bytes 2 checksumIndex in
            if bytes ! checksumIndex \<noteq> calculatedChecksum
            then (False, outFrame, ChecksumMismatch)
            else let commandByte = bytes ! 5 in
              if \<not> isKnownCommand commandByte then (False, outFrame, UnknownCommand)
              else (True,
                    outFrame\<lparr>frame_sequence := seq_join (bytes ! 3) (bytes ! 4),
                             frame_command := commandByte\<rparr>,
                    NoError))"

definition hex_digit :: "nat \<Rightarrow> char" where
  "hex_digit d = (if d < 10 then digit_char d else char_of (55 + d))"

text \<open>\<^verbatim>\<open>setw(2) << setfill('0') << uppercase << hex\<close> of one byte.\<close>

definition hex_byte :: "u8 \<Rightarrow> string" where
  "hex_byte b = [hex_digit (unat b div 16), hex_digit (unat b mod 16)]"

fun toHex :: "u8 list \<Rightarrow> string" where
  "toHex [] = []"
| "toHex [b] = hex_byte b"
| "toHex (b # b' # bs) = hex_byte b @ '' '' @ toHex (b' # bs)"

definition commandToString :: "WireCommand \<Rightarrow> string" where
  "commandToString command =
     (if command = WireCommand_Open then ''OPEN''
      else if command = WireCommand_Grab then ''GRAB''
      else if command = WireCommand_Release then ''RELEASE''
      else if command = WireCommand_Stop then ''STOP''
      else ''UNKNOWN'')"

fun errorToString :: "DecodeError \<Rightarrow> string" where
  "errorToString NoError = ''NONE''"
| "errorToString InvalidHeader = ''INVALID_HEADER''"
| "errorToString InvalidLength = ''INVALID_LENGTH''"
| "errorToString InvalidTail = ''INVALID_TAIL''"
| "errorToString ChecksumMismatch = ''CHECKSUM_MISMATCH''"
| "errorToString UnknownCommand = ''UNKNOWN_COMMAND''"

section \<open>StreamParser\<close>

record StreamParser =
  parser_buffer :: "u8 list"

definition new_StreamParser :: StreamParser where
  "new_StreamParser = \<lparr>parser_buffer = []\<rparr>"

definition append_bytes :: "u8 list \<Rightarrow> StreamParser \<Rightarrow> StreamParser" where
  "append_bytes bytes p = p\<lparr>parser_buffer := parser_buffer p @ bytes\<rparr>"

text \<open>The search for \<^verbatim>\<open>AA 55\<close>: the first index, or the size of the buffer.\<close>

function find_header :: "u8 list \<Rightarrow> nat \<Rightarrow> nat" where
  "find_header buffer index =
     (if index + 1 < length buffer
      then if buffer ! index = kHeader1 \<and> buffer ! (index + 1) = kHeader2 then index
           else find_header buffer (Suc index)
      else length buffer)"
  by pat_completeness auto
termination
  by (relation "measure (\<lambda>(buffer, index). length buffer - index)") auto

declare find_header.simps [simp del]

text \<open>
  The \<^verbatim>\<open>while (true)\<close> of \<^verbatim>\<open>extractFrames\<close> as a function from the buffer and the frames so far to
  the frames returned and the bytes left. Every iteration that does not leave the loop removes at
  least one byte.
\<close>

lemma find_header_le: "find_header buffer index \<le> length buffer"
  by (induction buffer index rule: find_header.induct) (subst find_header.simps, simp)

function extract_loop :: "u8 list \<Rightarrow> Frame list \<Rightarrow> Frame list \<times> u8 list" where
  "extract_loop buffer frames =
     (if length buffer < 2 then (frames, buffer)
      else let headerPosition = find_header buffer 0 in
        if headerPosition = length buffer
        then (if last buffer = kHeader1 then (frames, [last buffer]) else (frames, []))
        else let buffer' = (if headerPosition > 0 then drop headerPosition buffer else buffer) in
          if length buffer' < 3 then (frames, buffer')
          else let payloadLength = buffer' ! 2 in
            if payloadLength \<noteq> kPayloadLength then extract_loop (drop 1 buffer') frames
            else let expectedSize = unat payloadLength + 6 in
              if length buffer' < expectedSize then (frames, buffer')
              else let candidate = take expectedSize buffer' in
                case decode candidate default_Frame of
                  (ok, frame, _) \<Rightarrow>
                    if ok then extract_loop (drop expectedSize buffer') (frames @ [frame])
                    else extract_loop (drop 1 buffer') frames)"
  by pat_completeness auto
termination
  by (relation "measure (\<lambda>(buffer, frames). length buffer)") (auto simp: Let_def split: if_splits)

declare extract_loop.simps [simp del]

definition extractFrames :: "StreamParser \<Rightarrow> Frame list \<times> StreamParser" where
  "extractFrames p =
     (case extract_loop (parser_buffer p) [] of (frames, rest) \<Rightarrow> (frames, p\<lparr>parser_buffer := rest\<rparr>))"

section \<open>The codec is exact\<close>

text \<open>The nine bytes of a frame, written out.\<close>

definition frame_checksum :: "Frame \<Rightarrow> u8" where
  "frame_checksum f =
     3 XOR seq_high (frame_sequence f) XOR seq_low (frame_sequence f) XOR frame_command f"

lemma encode_bytes [byte_simps]:
  "encode f = [0xAA, 0x55, 3, seq_high (frame_sequence f), seq_low (frame_sequence f),
     frame_command f, frame_checksum f, 0x0D, 0x0A]"
  by (simp add: encode_def calculateChecksum_def xor_loop_slice frame_checksum_def serial_consts
      ac_simps)

lemma length_encode [simp]: "length (encode f) = 9"
  by (simp add: encode_bytes)

lemma length_9_cases:
  assumes "length bs = 9"
  obtains b0 b1 b2 b3 b4 b5 b6 b7 b8 where "bs = [b0, b1, b2, b3, b4, b5, b6, b7, b8]"
  using assms by (auto simp: numeral_eq_Suc length_Suc_conv)

lemma unat_kPayloadLength [simp]: "unat kPayloadLength = 3"
  by (simp add: kPayloadLength_def)

lemma checksum_9:
  "calculateChecksum [b0, b1, b2, b3, b4, b5, b6, b7, b8] 2 6 = b2 XOR b3 XOR b4 XOR b5"
  by (simp add: calculateChecksum_def xor_loop_slice ac_simps)

lemma decode_9:
  "decode [b0, b1, b2, b3, b4, b5, b6, b7, b8] out =
     (if b0 \<noteq> 0xAA \<or> b1 \<noteq> 0x55 then (False, out, InvalidHeader)
      else if b2 \<noteq> 3 then (False, out, InvalidLength)
      else if b7 \<noteq> 0x0D \<or> b8 \<noteq> 0x0A then (False, out, InvalidTail)
      else if b6 \<noteq> 3 XOR b3 XOR b4 XOR b5 then (False, out, ChecksumMismatch)
      else if \<not> isKnownCommand b5 then (False, out, UnknownCommand)
      else (True, out\<lparr>frame_sequence := seq_join b3 b4, frame_command := b5\<rparr>, NoError))"
proof (cases "b2 = kPayloadLength")
  case True
  then show ?thesis
    by (simp add: decode_def Let_def checksum_9) (simp add: serial_consts)
next
  case False
  then show ?thesis by (simp add: decode_def Let_def) (simp add: serial_consts)
qed

lemma decode_length: "decode bs out = (True, f, err) \<Longrightarrow> length bs = 9"
  by (auto simp: decode_def Let_def serial_consts split: if_splits)

lemma decode_fail:
  "decode bs out = (False, f, err) \<Longrightarrow> f = out \<and> err \<noteq> NoError"
  by (auto simp: decode_def Let_def split: if_splits)

lemma decode_encode:
  "isKnownCommand (frame_command f) \<Longrightarrow> decode (encode f) out = (True, f, NoError)"
  by (simp add: encode_bytes decode_9 frame_checksum_def)

lemma decode_success:
  assumes "decode bs out = (True, f, err)"
  shows "bs = encode f" and "isKnownCommand (frame_command f)" and "err = NoError"
proof -
  from decode_length [OF assms] obtain b0 b1 b2 b3 b4 b5 b6 b7 b8 where
    bs: "bs = [b0, b1, b2, b3, b4, b5, b6, b7, b8]" by (rule length_9_cases)
  from assms show "bs = encode f" and "isKnownCommand (frame_command f)" and "err = NoError"
    unfolding bs decode_9 by (auto simp: encode_bytes frame_checksum_def split: if_splits)
qed

text \<open>\<^verbatim>\<open>decode\<close> as a function that either gives a frame or fails.\<close>

definition decode_frame :: "u8 list \<Rightarrow> Frame option" where
  "decode_frame bs = (case decode bs default_Frame of (ok, f, _) \<Rightarrow> if ok then Some f else None)"

abbreviation known_frame :: "Frame \<Rightarrow> bool" where
  "known_frame f \<equiv> isKnownCommand (frame_command f)"

lemma decode_frame_Some: "decode_frame bs = Some f \<longleftrightarrow> known_frame f \<and> bs = encode f"
proof
  assume "decode_frame bs = Some f"
  then obtain err where "decode bs default_Frame = (True, f, err)"
    by (auto simp: decode_frame_def split: prod.splits if_splits)
  then show "known_frame f \<and> bs = encode f" by (simp add: decode_success)
qed (simp add: decode_frame_def decode_encode)

interpretation serial: exact_codec encode decode_frame known_frame 9
  by unfold_locales (auto simp: decode_frame_Some)

section \<open>A byte-by-byte scanner\<close>

text \<open>
  The reference the stream parser is compared with. It looks at the front of the input only: an
  incomplete frame stops the scan, a complete valid frame is taken, and otherwise one byte is
  dropped.
\<close>

definition starts_like_frame :: "u8 list \<Rightarrow> bool" where
  "starts_like_frame bs \<longleftrightarrow>
     take 3 bs = take (length bs) [kHeader1, kHeader2, kPayloadLength]"

function scan :: "u8 list \<Rightarrow> Frame list \<times> u8 list" where
  "scan [] = ([], [])"
| "scan (b # bs) =
     (if length (b # bs) < 9 \<and> starts_like_frame (b # bs) then ([], b # bs)
      else case decode_frame (take 9 (b # bs)) of
        Some f \<Rightarrow> (case scan (drop 9 (b # bs)) of (fs, r) \<Rightarrow> (f # fs, r))
      | None \<Rightarrow> scan bs)"
  by pat_completeness auto
termination
  by (relation "measure length") auto

declare scan.simps(2) [simp del]

lemma decode_frame_take_9:
  "decode_frame (take 9 bs) = Some f \<Longrightarrow>
     9 \<le> length bs \<and> bs ! 0 = kHeader1 \<and> bs ! 1 = kHeader2 \<and> bs ! 2 = kPayloadLength"
proof -
  assume "decode_frame (take 9 bs) = Some f"
  then have tk: "take 9 bs = encode f" by (simp add: decode_frame_Some)
  then have "length (take 9 bs) = 9" by simp
  then have "9 \<le> length bs" by simp
  moreover have "bs ! i = encode f ! i" if "i < 9" for i
    using that nth_take [of i 9 bs] tk by simp
  ultimately show ?thesis by (simp add: encode_bytes serial_consts)
qed

lemma starts_like_frame_nth:
  "starts_like_frame bs \<longleftrightarrow>
     (0 < length bs \<longrightarrow> bs ! 0 = kHeader1) \<and> (1 < length bs \<longrightarrow> bs ! 1 = kHeader2) \<and>
     (2 < length bs \<longrightarrow> bs ! 2 = kPayloadLength)"
proof (cases bs)
  case (Cons b bs')
  then show ?thesis
    by (cases bs'; cases "tl bs'") (auto simp: starts_like_frame_def numeral_eq_Suc)
qed (simp add: starts_like_frame_def)

text \<open>A byte at which no frame can start is dropped.\<close>

lemma scan_drop: "\<not> starts_like_frame (b # bs) \<Longrightarrow> scan (b # bs) = scan bs"
proof -
  assume no: "\<not> starts_like_frame (b # bs)"
  then have "decode_frame (take 9 (b # bs)) = None"
    using decode_frame_take_9 [of "b # bs"]
    by (cases "decode_frame (take 9 (b # bs))") (auto simp: starts_like_frame_nth)
  with no show ?thesis by (simp add: scan.simps(2))
qed

lemma starts_like_frame_append: "starts_like_frame (a @ b) \<Longrightarrow> starts_like_frame a"
  by (auto simp: starts_like_frame_nth nth_append split: if_splits)

text \<open>The scan of a longer input resumes where the scan of a prefix stopped.\<close>

lemma scan_append:
  "scan (a @ b) =
     (case scan a of (fs, r) \<Rightarrow> (case scan (r @ b) of (gs, r') \<Rightarrow> (fs @ gs, r')))"
proof (induction a rule: scan.induct)
  case (2 x a)
  show ?case
  proof (cases "length (x # a) < 9 \<and> starts_like_frame (x # a)")
    case True
    then have "scan (x # a) = ([], x # a)" by (simp add: scan.simps(2))
    then show ?thesis by simp
  next
    case stop: False
    show ?thesis
    proof (cases "decode_frame (take 9 (x # a))")
      case None
      from stop None "2.IH"(1) have IH: "scan (a @ b) =
          (case scan a of (fs, r) \<Rightarrow> (case scan (r @ b) of (gs, r') \<Rightarrow> (fs @ gs, r')))" by blast
      have "scan (x # a) = scan a" using stop None by (auto simp: scan.simps(2))
      moreover have "scan ((x # a) @ b) = scan (a @ b)"
      proof (cases "length (x # a) < 9")
        case True
        with stop have "\<not> starts_like_frame (x # a @ b)"
          using starts_like_frame_append [of "x # a" b] by auto
        then show ?thesis by (simp add: scan_drop)
      next
        case False
        then have "take 9 (x # a @ b) = take 9 (x # a)" by (simp add: take_Cons')
        with None False show ?thesis by (simp add: scan.simps(2))
      qed
      ultimately show ?thesis using IH by simp
    next
      case (Some f)
      with decode_frame_take_9 have len: "9 \<le> length (x # a)" by blast
      then have tk: "take 9 (x # a @ b) = take 9 (x # a)"
        and dr: "drop 9 (x # a @ b) = drop 9 (x # a) @ b" by (simp_all add: take_Cons' drop_Cons')
      from "2.IH"(2) stop Some have "scan (drop 9 (x # a) @ b) =
          (case scan (drop 9 (x # a)) of (fs, r) \<Rightarrow> (case scan (r @ b) of (gs, r') \<Rightarrow> (fs @ gs, r')))"
        by blast
      then show ?thesis using len Some tk dr
        by (simp add: scan.simps(2) split: prod.splits)
    qed
  qed
qed simp

section \<open>The stream parser refines the scanner\<close>

lemma find_header_before:
  "i \<le> j \<Longrightarrow> j < find_header bs i \<Longrightarrow> j + 1 < length bs \<Longrightarrow>
     \<not> (bs ! j = kHeader1 \<and> bs ! (j + 1) = kHeader2)"
proof (induction bs i rule: find_header.induct)
  case (1 bs i)
  show ?case
  proof (cases "bs ! i = kHeader1 \<and> bs ! (i + 1) = kHeader2")
    case True
    with "1.prems" show ?thesis by (simp add: find_header.simps [of bs i])
  next
    case False
    with "1.prems" have "j < find_header bs (Suc i)"
      by (auto simp: find_header.simps [of bs i] split: if_splits)
    with 1 False show ?thesis by (cases "j = i") simp_all
  qed
qed

lemma find_header_found:
  "find_header bs i \<noteq> length bs \<Longrightarrow>
     find_header bs i + 1 < length bs \<and> bs ! find_header bs i = kHeader1 \<and>
     bs ! (find_header bs i + 1) = kHeader2"
proof (induction bs i rule: find_header.induct)
  case (1 bs i)
  then show ?case by (simp add: find_header.simps [of bs i] split: if_splits)
qed

text \<open>Everything before the first header, except a last byte, is noise to the scanner.\<close>

lemma scan_drop_noise:
  "p \<le> find_header bs 0 \<Longrightarrow> p < length bs \<Longrightarrow> scan (drop p bs) = scan bs"
proof (induction p)
  case (Suc p)
  then have "\<not> (bs ! p = kHeader1 \<and> bs ! (p + 1) = kHeader2)"
    by (intro find_header_before [of 0]) simp_all
  with Suc.prems have "\<not> starts_like_frame (drop p bs)"
    by (auto simp: starts_like_frame_nth)
  moreover from Suc.prems have "drop p bs = bs ! p # drop (Suc p) bs"
    by (simp add: Cons_nth_drop_Suc)
  ultimately have "scan (drop p bs) = scan (drop (Suc p) bs)" by (metis scan_drop)
  with Suc show ?case by simp
qed simp

text \<open>
  What the parser keeps and the scanner would not: a single byte that cannot start a frame stays in
  the buffer until more input arrives.
\<close>

definition pending :: "u8 list \<Rightarrow> u8 list" where
  "pending r = (if length r = 1 \<and> hd r \<noteq> kHeader1 then [] else r)"

lemma scan_single: "scan [b] = ([], if b = kHeader1 then [b] else [])"
proof (cases "b = kHeader1")
  case True
  then show ?thesis by (simp add: scan.simps(2) starts_like_frame_nth)
next
  case False
  then show ?thesis by (simp add: scan_drop starts_like_frame_nth)
qed

lemma scan_pending: "scan (pending r @ b) = scan (r @ b)"
proof (cases "length r = 1 \<and> hd r \<noteq> kHeader1")
  case True
  then obtain x where "r = [x]" and "x \<noteq> kHeader1" by (cases r) auto
  then show ?thesis by (simp add: pending_def scan_drop starts_like_frame_nth)
qed (auto simp: pending_def)

text \<open>One iteration at a buffer whose first header is at \<open>p\<close>, for the loop and for the scanner.\<close>

lemma extract_loop_header:
  assumes "2 \<le> length bs" and "find_header bs 0 \<noteq> length bs"
    and c: "c = drop (find_header bs 0) bs"
  shows "extract_loop bs fs =
    (if length c < 3 then (fs, c)
     else if c ! 2 \<noteq> kPayloadLength then extract_loop (drop 1 c) fs
     else if length c < 9 then (fs, c)
     else case decode_frame (take 9 c) of
       Some f \<Rightarrow> extract_loop (drop 9 c) (fs @ [f])
     | None \<Rightarrow> extract_loop (drop 1 c) fs)"
proof -
  have c': "(if 0 < find_header bs 0 then drop (find_header bs 0) bs else bs) = c"
    by (simp add: c)
  show ?thesis
    unfolding extract_loop.simps [of bs fs] Let_def c' using assms(1,2)
    by (simp add: decode_frame_def split: prod.split)
qed

lemma scan_header:
  assumes "2 \<le> length c" and "c ! 0 = kHeader1" and "c ! 1 = kHeader2"
  shows "scan c =
    (if length c < 3 then ([], c)
     else if c ! 2 \<noteq> kPayloadLength then scan (drop 1 c)
     else if length c < 9 then ([], c)
     else case decode_frame (take 9 c) of
       Some f \<Rightarrow> (case scan (drop 9 c) of (fs, r) \<Rightarrow> (f # fs, r))
     | None \<Rightarrow> scan (drop 1 c))"
proof -
  obtain x c' where x: "c = x # c'" using assms(1) by (cases c) auto
  show ?thesis
  proof (cases "3 \<le> length c \<and> c ! 2 \<noteq> kPayloadLength")
    case True
    then have "\<not> starts_like_frame c" by (simp add: starts_like_frame_nth)
    with True show ?thesis unfolding x by (simp add: scan_drop)
  next
    case False
    then have "starts_like_frame c" using assms by (auto simp: starts_like_frame_nth)
    with False show ?thesis unfolding x by (auto simp: scan.simps(2) split: option.split)
  qed
qed

lemma extract_loop_scan:
  "fst (extract_loop bs fs) = fs @ fst (scan bs) \<and> pending (snd (extract_loop bs fs)) = snd (scan bs)"
proof (induction "length bs" arbitrary: bs fs rule: less_induct)
  case less
  define p where "p = find_header bs 0"
  consider (short) "length bs < 2" | (noise) "2 \<le> length bs" "p = length bs"
    | (header) "2 \<le> length bs" "p \<noteq> length bs" by linarith
  then show ?case
  proof cases
    case short
    then have "bs = [] \<or> (\<exists>b. bs = [b])" by (cases bs) auto
    then show ?thesis by (auto simp: extract_loop.simps [of _ fs] scan_single pending_def)
  next
    case noise
    have "scan bs = scan (drop (length bs - 1) bs)"
      using noise scan_drop_noise [of "length bs - 1" bs] by (simp add: p_def)
    also have "drop (length bs - 1) bs = [last bs]"
      using noise by (cases bs rule: rev_cases) auto
    finally show ?thesis using noise
      by (auto simp: extract_loop.simps [of bs] scan_single pending_def p_def)
  next
    case header
    define c where "c = drop p bs"
    from find_header_found [of bs 0] header have
      "p + 1 < length bs" "bs ! p = kHeader1" "bs ! (p + 1) = kHeader2" by (simp_all add: p_def)
    then have c: "2 \<le> length c" "c ! 0 = kHeader1" "c ! 1 = kHeader2"
      and sc: "scan bs = scan c" and le: "length c \<le> length bs"
      using scan_drop_noise [of p bs] by (simp_all add: c_def p_def)
    have IH: "fst (extract_loop (drop k c) gs) = gs @ fst (scan (drop k c)) \<and>
        pending (snd (extract_loop (drop k c) gs)) = snd (scan (drop k c))" if "0 < k" for k gs
      using that c(1) le by (intro less) simp
    have "pending c = c" using c(1) by (auto simp: pending_def)
    with IH [of 1] IH [of 9] show ?thesis
      unfolding sc extract_loop_header [OF header(1) header(2) [unfolded p_def] c_def [unfolded p_def]]
        scan_header [OF c]
      by (auto split: option.splits prod.splits)
  qed
qed

section \<open>Streams of frames\<close>

text \<open>A client that appends each chunk as it arrives and extracts after every chunk.\<close>

fun feed_chunks :: "StreamParser \<Rightarrow> u8 list list \<Rightarrow> Frame list \<times> StreamParser" where
  "feed_chunks p [] = ([], p)"
| "feed_chunks p (c # cs) =
     (case extractFrames (append_bytes c p) of
        (fs, p') \<Rightarrow> (case feed_chunks p' cs of (gs, p'') \<Rightarrow> (fs @ gs, p'')))"

lemma extractFrames_scan:
  "extractFrames p = (fs, p') \<Longrightarrow>
     fs = fst (scan (parser_buffer p)) \<and> pending (parser_buffer p') = snd (scan (parser_buffer p))"
  using extract_loop_scan [of "parser_buffer p" "[]"]
  by (auto simp: extractFrames_def split: prod.splits)

lemma feed_chunks_scan:
  "scan (parser_buffer p @ concat cs) =
     (fst (feed_chunks p cs) @ fst (scan (parser_buffer (snd (feed_chunks p cs)))),
      snd (scan (parser_buffer (snd (feed_chunks p cs)))))"
proof (induction cs arbitrary: p)
  case (Cons c cs)
  obtain fs p' where step: "extractFrames (append_bytes c p) = (fs, p')" by fastforce
  have "scan ((parser_buffer p @ c) @ concat cs) =
      (case scan (pending (parser_buffer p') @ concat cs) of (gs, r) \<Rightarrow> (fs @ gs, r))"
    unfolding scan_append [of "parser_buffer p @ c"]
    using extractFrames_scan [OF step] by (simp add: append_bytes_def split: prod.split)
  then show ?case
    using Cons [of p'] by (simp add: scan_pending step split: prod.split)
qed (simp add: prod_eq_iff)

text \<open>What is left after an extraction holds no further frame.\<close>

lemma scan_rest: "scan (snd (scan bs)) = ([], snd (scan bs)) \<and> length (snd (scan bs)) < 9"
proof (induction bs rule: scan.induct)
  case (2 b bs)
  then show ?case
    by (cases "length (b # bs) < 9 \<and> starts_like_frame (b # bs)";
        cases "decode_frame (take 9 (b # bs))")
      (auto simp: scan.simps(2) split: prod.splits)
qed simp

lemma feed_chunks_rest:
  assumes "scan (parser_buffer p) = ([], r)"
  shows "fst (scan (parser_buffer (snd (feed_chunks p cs)))) = []"
  using assms
proof (induction cs arbitrary: p r)
  case (Cons c cs)
  obtain fs p' where step: "extractFrames (append_bytes c p) = (fs, p')" by fastforce
  have "scan (pending (parser_buffer p')) = ([], pending (parser_buffer p'))"
    using extractFrames_scan [OF step] scan_rest by simp
  then have "scan (parser_buffer p') = ([], pending (parser_buffer p'))"
    using scan_pending [of "parser_buffer p'" "[]"] by simp
  from Cons.IH [OF this] show ?case by (auto simp: step split: prod.split)
qed simp

lemma feed_chunks_new: "fst (feed_chunks new_StreamParser cs) = fst (scan (concat cs))"
  using feed_chunks_scan [of new_StreamParser cs] feed_chunks_rest [of new_StreamParser "[]" cs]
  by (simp add: new_StreamParser_def)

lemma extractFrames_new:
  "fst (extractFrames (append_bytes bs new_StreamParser)) = fst (scan bs)"
  using extractFrames_scan [of "append_bytes bs new_StreamParser"]
  by (cases "extractFrames (append_bytes bs new_StreamParser)")
    (simp add: append_bytes_def new_StreamParser_def)

text \<open>A stream as it is put on the line: each frame preceded by some noise, and trailing noise.\<close>

definition noisy_stream :: "(u8 list \<times> Frame) list \<Rightarrow> u8 list \<Rightarrow> u8 list" where
  "noisy_stream items rest = concat (map (\<lambda>(noise, f). noise @ encode f) items) @ rest"

lemma scan_noise: "kHeader1 \<notin> set noise \<Longrightarrow> scan (noise @ bs) = scan bs"
  by (induction noise) (auto simp: scan_drop starts_like_frame_nth)

lemma scan_encode:
  assumes "known_frame f"
  shows "scan (encode f @ bs) = (case scan bs of (fs, r) \<Rightarrow> (f # fs, r))"
proof -
  obtain x xs where x: "encode f = x # xs" by (simp add: encode_bytes)
  then have "length xs = 8" using length_encode [of f] by simp
  moreover have "decode_frame (x # xs) = Some f" using assms x by (simp add: decode_frame_Some)
  ultimately show ?thesis unfolding x by (simp add: scan.simps(2))
qed

lemma scan_noisy_stream:
  assumes "\<forall>(noise, f) \<in> set items. kHeader1 \<notin> set noise \<and> known_frame f"
  shows "fst (scan (noisy_stream items rest)) = map snd items @ fst (scan rest)"
  using assms
proof (induction items)
  case (Cons it items)
  obtain noise f where it: "it = (noise, f)" by fastforce
  with Cons show ?case
    by (auto simp: noisy_stream_def scan_noise scan_encode split: prod.splits)
qed (simp add: noisy_stream_def)

text \<open>Conversely, every result of a scan comes from such a decomposition of the input.\<close>

lemma noisy_stream_Cons:
  "b # noisy_stream items rest =
     (case items of [] \<Rightarrow> noisy_stream [] (b # rest)
      | (noise, f) # items' \<Rightarrow> noisy_stream ((b # noise, f) # items') rest)"
  by (auto simp: noisy_stream_def split: list.split)

lemma scan_decompose:
  "\<exists>items rest. bs = noisy_stream items rest \<and> map snd items = fst (scan bs) \<and>
     list_all known_frame (fst (scan bs))"
proof (induction bs rule: scan.induct)
  case 1
  show ?case by (rule exI [of _ "[]"]) (simp add: noisy_stream_def)
next
  case (2 b bs)
  show ?case
  proof (cases "length (b # bs) < 9 \<and> starts_like_frame (b # bs)")
    case True
    then show ?thesis
      by (intro exI [of _ "[]"] exI [of _ "b # bs"]) (simp add: scan.simps(2) noisy_stream_def)
  next
    case go: False
    show ?thesis
    proof (cases "decode_frame (take 9 (b # bs))")
      case None
      with go "2.IH"(1) obtain items rest where
        ih: "bs = noisy_stream items rest" "map snd items = fst (scan bs)"
          "list_all known_frame (fst (scan bs))" by blast
      have sc: "scan (b # bs) = scan bs" using go None by (auto simp: scan.simps(2))
      from ih(1) have "b # bs = (case items of [] \<Rightarrow> noisy_stream [] (b # rest)
          | (noise, f) # items' \<Rightarrow> noisy_stream ((b # noise, f) # items') rest)"
        by (metis noisy_stream_Cons)
      then show ?thesis unfolding sc using ih(2,3)
        by (cases items) (fastforce split: prod.splits)+
    next
      case (Some f)
      with go "2.IH"(2) obtain items rest where
        ih: "drop 9 (b # bs) = noisy_stream items rest"
          "map snd items = fst (scan (drop 9 (b # bs)))"
          "list_all known_frame (fst (scan (drop 9 (b # bs))))" by blast
      from Some have f: "known_frame f" "take 9 (b # bs) = encode f"
        by (simp_all add: decode_frame_Some)
      have "b # bs = encode f @ drop 9 (b # bs)" by (metis append_take_drop_id f(2))
      then have "b # bs = noisy_stream (([], f) # items) rest"
        using ih(1) by (simp add: noisy_stream_def)
      moreover have "fst (scan (b # bs)) = f # fst (scan (drop 9 (b # bs)))"
        using go Some by (auto simp: scan.simps(2) split: prod.splits)
      ultimately show ?thesis using ih(2,3) f(1) by (metis list.pred_inject(2) list.simps(9) snd_conv)
    qed
  qed
qed

section \<open>Properties\<close>

text \<open>
  Claim C17. The codec is exact: \<^verbatim>\<open>FrameCodec::decode\<close> succeeds with a frame if and only if its input
  is the encoding of that frame and the command is one of the four known ones. So encoding and
  decoding are inverse to each other, and nothing but an encoding is accepted.
\<close>

theorem serial_decode_exact:
  "decode bytes out = (True, f, err) \<longleftrightarrow>
     bytes = encode f \<and> isKnownCommand (frame_command f) \<and> err = NoError"
  using decode_success decode_encode by blast

text \<open>The error of a frame in which only the byte at one position differs.\<close>

definition corruption_error :: "nat \<Rightarrow> DecodeError" where
  "corruption_error i =
     (if i < 2 then InvalidHeader else if i = 2 then InvalidLength
      else if i < 7 then ChecksumMismatch else InvalidTail)"

text \<open>
  Every corruption of a single byte of a valid frame is detected, the error names the field
  that holds the byte (header, length, checksummed part or tail), and the caller's frame is left
  as it was.
\<close>

theorem serial_single_byte_corruption:
  assumes "isKnownCommand (frame_command f)" and "i < 9" and "b \<noteq> encode f ! i"
  shows "decode ((encode f)[i := b]) out = (False, out, corruption_error i)"
proof -
  have "i \<in> {0, 1, 2, 3, 4, 5, 6, 7, 8}" using assms(2) by auto
  then show ?thesis using assms(3)
    by (elim insertE; simp add: encode_bytes decode_9 frame_checksum_def corruption_error_def
        xor_left_cancel xor_right_cancel xor.assoc)
qed

text \<open>The corruption \<^verbatim>\<open>corrupted[5] ^= 0x01\<close> of the demo's first frame.\<close>

theorem serial_single_byte_corruption_witness:
  "let f = \<lparr>frame_sequence = 1, frame_command = WireCommand_Open\<rparr> in
   decode ((encode f)[5 := (encode f ! 5) XOR 0x01]) default_Frame =
     (False, default_Frame, ChecksumMismatch)"
  unfolding Let_def
  by (subst serial_single_byte_corruption)
    (simp_all add: isKnownCommand_def wire_command_defs encode_bytes corruption_error_def)

text \<open>
  Claim C18. The frames a client receives do not depend on how the byte stream is cut into chunks:
  appending and extracting chunk by chunk yields, in order, exactly the frames of one extraction
  over the whole stream.
\<close>

theorem serial_chunking_irrelevant:
  "fst (feed_chunks new_StreamParser chunks) =
     fst (extractFrames (append_bytes (concat chunks) new_StreamParser))"
  by (simp add: feed_chunks_new extractFrames_new)

text \<open>
  Claim C19. Resynchronisation: a stream of valid frames separated by noise that does not contain the
  byte \<^verbatim>\<open>AA\<close> is parsed into exactly those frames, in order, whatever the chunks.
\<close>

theorem serial_frames_recovered:
  assumes "\<forall>(noise, f) \<in> set items. kHeader1 \<notin> set noise \<and> isKnownCommand (frame_command f)"
    and "kHeader1 \<notin> set rest"
    and "concat chunks = noisy_stream items rest"
  shows "fst (feed_chunks new_StreamParser chunks) = map snd items"
  using scan_noisy_stream [OF assms(1), of rest] scan_noise [OF assms(2), of "[]"] assms(3)
  by (simp add: feed_chunks_new)

text \<open>The demo's stream: two noise bytes, two frames, cut after six bytes.\<close>

theorem serial_frames_recovered_witness:
  "let f1 = \<lparr>frame_sequence = 1, frame_command = WireCommand_Open\<rparr>;
       f2 = \<lparr>frame_sequence = 2, frame_command = WireCommand_Grab\<rparr>;
       stream = [0x00, 0x7E] @ encode f1 @ encode f2
   in fst (feed_chunks new_StreamParser [take 6 stream, drop 6 stream]) = [f1, f2]"
  unfolding Let_def
  by (subst serial_frames_recovered
      [where items = "[([0x00, 0x7E], \<lparr>frame_sequence = 1, frame_command = WireCommand_Open\<rparr>),
                       ([], \<lparr>frame_sequence = 2, frame_command = WireCommand_Grab\<rparr>)]"
         and rest = "[]"])
    (simp_all add: isKnownCommand_def wire_command_defs kHeader1_def noisy_stream_def)

text \<open>
  Claim C20. No frame is invented and the buffer stays small: for every chunking of every stream, the
  frames returned sit one after another, disjoint and in order, in the stream as encodings with a
  known command; and at most eight bytes wait in the buffer afterwards.
\<close>

theorem serial_frames_sound:
  "(\<exists>items rest. concat chunks = noisy_stream items rest \<and>
      map snd items = fst (feed_chunks new_StreamParser chunks)) \<and>
   list_all (\<lambda>f. isKnownCommand (frame_command f)) (fst (feed_chunks new_StreamParser chunks)) \<and>
   length (parser_buffer (snd (extractFrames p))) \<le> 8"
proof -
  obtain fs p' where step: "extractFrames p = (fs, p')" by fastforce
  have "length (pending (parser_buffer p')) < 9"
    using extractFrames_scan [OF step] scan_rest by simp
  then have "length (parser_buffer p') \<le> 8" by (auto simp: pending_def split: if_splits)
  then show ?thesis using scan_decompose [of "concat chunks"] step by (auto simp: feed_chunks_new)
qed

end
