(* ===== verification/Std_Map.thy ===== *)
theory Std_Map
  imports Prelude
begin

text \<open>
  \<^verbatim>\<open>std::map\<close> as the components use it: an association list in strictly ascending key order, so
  that a range-\<^verbatim>\<open>for\<close> over the map visits the entries in the order the code sees. The contract the
  clients rely on is the locale \<open>key_map\<close>; its interpretation \<open>smap\<close> discharges it for these
  definitions.
\<close>

type_synonym ('k, 'v) std_map = "('k \<times> 'v) list"

section \<open>Operations\<close>

text \<open>\<^verbatim>\<open>find\<close>: \<open>None\<close> is \<^verbatim>\<open>end()\<close>.\<close>

fun std_find :: "'k::linorder \<Rightarrow> ('k, 'v) std_map \<Rightarrow> 'v option" where
  "std_find k [] = None"
| "std_find k ((k', v) # m) = (if k = k' then Some v else std_find k m)"

text \<open>\<^verbatim>\<open>m[k] = v\<close>: assigns an existing entry or inserts a new one at its place.\<close>

fun std_put :: "'k::linorder \<Rightarrow> 'v \<Rightarrow> ('k, 'v) std_map \<Rightarrow> ('k, 'v) std_map" where
  "std_put k v [] = [(k, v)]"
| "std_put k v ((k', v') # m) =
     (if k < k' then (k, v) # (k', v') # m
      else if k = k' then (k, v) # m
      else (k', v') # std_put k v m)"

text \<open>\<^verbatim>\<open>emplace\<close>: leaves an existing entry alone and says whether it inserted.\<close>

definition std_emplace :: "'k::linorder \<Rightarrow> 'v \<Rightarrow> ('k, 'v) std_map \<Rightarrow> ('k, 'v) std_map \<times> bool" where
  "std_emplace k v m =
     (case std_find k m of Some _ \<Rightarrow> (m, False) | None \<Rightarrow> (std_put k v m, True))"

text \<open>\<^verbatim>\<open>m.erase(k)\<close>.\<close>

fun std_erase :: "'k::linorder \<Rightarrow> ('k, 'v) std_map \<Rightarrow> ('k, 'v) std_map" where
  "std_erase k [] = []"
| "std_erase k ((k', v) # m) = (if k = k' then m else (k', v) # std_erase k m)"

text \<open>A range-\<^verbatim>\<open>for\<close> by reference that overwrites each mapped value.\<close>

definition std_for_each :: "('v \<Rightarrow> 'v) \<Rightarrow> ('k, 'v) std_map \<Rightarrow> ('k, 'v) std_map" where
  "std_for_each f m = map (\<lambda>(k, v). (k, f v)) m"

text \<open>The ordering invariant of the container.\<close>

definition std_ordered :: "('k::linorder, 'v) std_map \<Rightarrow> bool" where
  "std_ordered m \<longleftrightarrow> sorted_wrt (<) (map fst m)"

section \<open>The contract of a keyed container\<close>

locale key_map =
  fixes find :: "'k \<Rightarrow> 'm \<Rightarrow> 'v option"
    and put :: "'k \<Rightarrow> 'v \<Rightarrow> 'm \<Rightarrow> 'm"
    and erase :: "'k \<Rightarrow> 'm \<Rightarrow> 'm"
    and for_each :: "('v \<Rightarrow> 'v) \<Rightarrow> 'm \<Rightarrow> 'm"
    and invar :: "'m \<Rightarrow> bool"
  assumes find_put: "invar m \<Longrightarrow> find k' (put k v m) = (if k' = k then Some v else find k' m)"
    and find_erase: "invar m \<Longrightarrow> find k' (erase k m) = (if k' = k then None else find k' m)"
    and find_for_each: "find k (for_each f m) = map_option f (find k m)"
    and invar_put: "invar m \<Longrightarrow> invar (put k v m)"
    and invar_erase: "invar m \<Longrightarrow> invar (erase k m)"
    and invar_for_each: "invar m \<Longrightarrow> invar (for_each f m)"
    and keys_finite: "finite {k. find k m \<noteq> None}"
begin

definition keys :: "'m \<Rightarrow> 'k set" where
  "keys m = {k. find k m \<noteq> None}"

lemma keys_put: "invar m \<Longrightarrow> keys (put k v m) = insert k (keys m)"
  by (auto simp: keys_def find_put)

lemma keys_for_each: "keys (for_each f m) = keys m"
  by (simp add: keys_def find_for_each)

lemma finite_keys: "finite (keys m)"
  unfolding keys_def by (rule keys_finite)

lemma keys_iff: "k \<in> keys m \<longleftrightarrow> find k m \<noteq> None"
  by (simp add: keys_def)

lemma card_keys_put:
  "invar m \<Longrightarrow> card (keys (put k v m)) = (if find k m = None then Suc (card (keys m)) else card (keys m))"
  by (simp add: keys_put finite_keys card_insert_if keys_iff)

text \<open>A predicate on the stored values survives an operation that keeps it for the value it writes.\<close>

definition all_values :: "('k \<Rightarrow> 'v \<Rightarrow> bool) \<Rightarrow> 'm \<Rightarrow> bool" where
  "all_values P m \<longleftrightarrow> (\<forall>k v. find k m = Some v \<longrightarrow> P k v)"

lemma all_valuesD: "all_values P m \<Longrightarrow> find k m = Some v \<Longrightarrow> P k v"
  by (simp add: all_values_def)

lemma all_values_put: "invar m \<Longrightarrow> all_values P m \<Longrightarrow> P k v \<Longrightarrow> all_values P (put k v m)"
  by (auto simp: all_values_def find_put)

lemma all_values_for_each:
  "all_values P m \<Longrightarrow> (\<And>k v. P k v \<Longrightarrow> P k (f v)) \<Longrightarrow> all_values P (for_each f m)"
  by (auto simp: all_values_def find_for_each)

end

section \<open>The association list meets the contract\<close>

lemma std_find_map_of: "std_find k m = map_of m k"
  by (induction m) auto

lemma std_find_not_key: "k \<notin> fst ` set m \<Longrightarrow> std_find k m = None"
  by (induction m) auto

lemma std_find_put: "std_find k' (std_put k v m) = (if k' = k then Some v else std_find k' m)"
  by (induction m) auto

lemma set_keys_std_put: "fst ` set (std_put k v m) = insert k (fst ` set m)"
  by (induction k v m rule: std_put.induct) (simp_all add: insert_commute)

lemma set_keys_std_erase: "fst ` set (std_erase k m) \<subseteq> fst ` set m"
  by (induction k m rule: std_erase.induct) (simp_all add: subset_insertI subset_insertI2)

lemma std_ordered_simps [simp]:
  "std_ordered []"
  "std_ordered (e # m) \<longleftrightarrow> (\<forall>k \<in> fst ` set m. fst e < k) \<and> std_ordered m"
  by (auto simp: std_ordered_def)

lemma std_ordered_put: "std_ordered m \<Longrightarrow> std_ordered (std_put k v m)"
  by (induction m) (fastforce simp: set_keys_std_put)+

lemma std_ordered_erase: "std_ordered m \<Longrightarrow> std_ordered (std_erase k m)"
  by (induction m) (use set_keys_std_erase in fastforce)+

lemma std_find_erase:
  "std_ordered m \<Longrightarrow> std_find k' (std_erase k m) = (if k' = k then None else std_find k' m)"
proof (induction m)
  case (Cons e m)
  then have "std_find (fst e) m = None" by (intro std_find_not_key) auto
  with Cons show ?case by (cases e) auto
qed simp

lemma std_find_for_each: "std_find k (std_for_each f m) = map_option f (std_find k m)"
  by (induction m) (auto simp: std_for_each_def)

lemma std_ordered_for_each: "std_ordered (std_for_each f m) = std_ordered m"
  by (simp add: std_ordered_def std_for_each_def comp_def split_def)

lemma finite_std_find: "finite {k. std_find k m \<noteq> None}"
proof -
  have "{k. std_find k m \<noteq> None} \<subseteq> fst ` set m"
    by (rule subsetI) (use std_find_not_key in force)
  then show ?thesis by (rule finite_subset) simp
qed

interpretation smap: key_map std_find std_put std_erase std_for_each std_ordered
  by unfold_locales
    (rule std_find_put std_find_erase std_find_for_each std_ordered_put std_ordered_erase
      std_ordered_for_each [THEN iffD2] finite_std_find | assumption)+

lemma std_emplace_simps [simp]:
  "std_find k m = Some w \<Longrightarrow> std_emplace k v m = (m, False)"
  "std_find k m = None \<Longrightarrow> std_emplace k v m = (std_put k v m, True)"
  by (simp_all add: std_emplace_def)

text \<open>An entry of the list is what a lookup of its key finds, because keys do not repeat.\<close>

lemma std_find_member: "std_ordered m \<Longrightarrow> std_find k m = Some v \<longleftrightarrow> (k, v) \<in> set m"
  by (induction m) (force split: if_splits)+

text \<open>The facts a client of the map needs, as one bundle.\<close>

lemmas smap_simps = smap.find_put smap.find_erase smap.find_for_each smap.invar_put
  smap.invar_erase smap.invar_for_each

end
