(* ===== verification/Reliable_Protocol.thy ===== *)
theory Reliable_Protocol
  imports Byte_Codec Std_Map
begin

text \<open>
  The acknowledged protocol of \<^verbatim>\<open>cpp_modules/reliable_serial_demo\<close>: \<^verbatim>\<open>ProtocolCodec\<close> (requests and
  acknowledgements of ten bytes) and \<^verbatim>\<open>SimulatedDevice\<close>, which remembers the acknowledgement of
  every sequence number so that a retransmission is answered without executing the command again.
\<close>

section \<open>Data\<close>

definition reliable_kHeader1 :: u8 where "reliable_kHeader1 = 0xAA"
definition reliable_kHeader2 :: u8 where "reliable_kHeader2 = 0x55"
definition reliable_kTail1 :: u8 where "reliable_kTail1 = 0x0D"
definition reliable_kTail2 :: u8 where "reliable_kTail2 = 0x0A"

lemmas reliable_consts = reliable_kHeader1_def reliable_kHeader2_def reliable_kTail1_def
  reliable_kTail2_def

text \<open>
  The three enumerations have the underlying type \<^verbatim>\<open>std::uint8_t\<close>, and \<^verbatim>\<open>static_cast\<close> from a byte
  is not checked: every byte is a value.
\<close>

type_synonym FrameType = u8
type_synonym CommandCode = u8
type_synonym ResultCode = u8

definition FrameType_Request :: FrameType where "FrameType_Request = 0x01"
definition FrameType_Ack :: FrameType where "FrameType_Ack = 0x02"

definition CommandCode_Open :: CommandCode where "CommandCode_Open = 0x01"
definition CommandCode_Grab :: CommandCode where "CommandCode_Grab = 0x02"
definition CommandCode_Release :: CommandCode where "CommandCode_Release = 0x03"
definition CommandCode_Stop :: CommandCode where "CommandCode_Stop = 0x04"

definition ResultCode_Ok :: ResultCode where "ResultCode_Ok = 0x00"
definition ResultCode_InvalidCommand :: ResultCode where "ResultCode_InvalidCommand = 0x01"
definition ResultCode_ExecutionFailed :: ResultCode where "ResultCode_ExecutionFailed = 0x02"

lemmas reliable_enums = FrameType_Request_def FrameType_Ack_def CommandCode_Open_def
  CommandCode_Grab_def CommandCode_Release_def CommandCode_Stop_def ResultCode_Ok_def

record RequestFrame =
  req_sequence :: u16
  req_command :: CommandCode

record AckFrame =
  ack_sequence :: u16
  ack_result :: ResultCode

section \<open>ProtocolCodec\<close>

definition protocol_checksum :: "u8 list \<Rightarrow> nat \<Rightarrow> nat \<Rightarrow> u8" where
  "protocol_checksum bytes beginIndex endIndex = xor_loop bytes beginIndex endIndex 0"

definition encodeRequest :: "RequestFrame \<Rightarrow> u8 list" where
  "encodeRequest frame =
     (let bytes = [reliable_kHeader1, reliable_kHeader2, 0x04,
                   seq_high (req_sequence frame), seq_low (req_sequence frame),
                   FrameType_Request, req_command frame];
          checksum = protocol_checksum bytes 2 (length bytes)
      in bytes @ [checksum] @ [reliable_kTail1] @ [reliable_kTail2])"

definition encodeAck :: "AckFrame \<Rightarrow> u8 list" where
  "encodeAck frame =
     (let bytes = [reliable_kHeader1, reliable_kHeader2, 0x04,
                   seq_high (ack_sequence frame), seq_low (ack_sequence frame),
                   FrameType_Ack, ack_result frame];
          checksum = protocol_checksum bytes 2 (length bytes)
      in bytes @ [checksum] @ [reliable_kTail1] @ [reliable_kTail2])"

text \<open>The decoders return their flag and the output argument after the call.\<close>

definition decodeRequest :: "u8 list \<Rightarrow> RequestFrame \<Rightarrow> bool \<times> RequestFrame" where
  "decodeRequest bytes frame =
     (if length bytes \<noteq> 10 then (False, frame)
      else if bytes ! 0 \<noteq> reliable_kHeader1 \<or> bytes ! 1 \<noteq> reliable_kHeader2 then (False, frame)
      else if bytes ! 8 \<noteq> reliable_kTail1 \<or> bytes ! 9 \<noteq> reliable_kTail2 then (False, frame)
      else if bytes ! 5 \<noteq> FrameType_Request then (False, frame)
      else let checksum = protocol_checksum bytes 2 7 in
        if checksum \<noteq> bytes ! 7 then (False, frame)
        else (True, frame\<lparr>req_sequence := seq_join (bytes ! 3) (bytes ! 4),
                          req_command := bytes ! 6\<rparr>))"

definition decodeAck :: "u8 list \<Rightarrow> AckFrame \<Rightarrow> bool \<times> AckFrame" where
  "decodeAck bytes frame =
     (if length bytes \<noteq> 10 then (False, frame)
      else if bytes ! 0 \<noteq> reliable_kHeader1 \<or> bytes ! 1 \<noteq> reliable_kHeader2 then (False, frame)
      else if bytes ! 8 \<noteq> reliable_kTail1 \<or> bytes ! 9 \<noteq> reliable_kTail2 then (False, frame)
      else if bytes ! 5 \<noteq> FrameType_Ack then (False, frame)
      else let checksum = protocol_checksum bytes 2 7 in
        if checksum \<noteq> bytes ! 7 then (False, frame)
        else (True, frame\<lparr>ack_sequence := seq_join (bytes ! 3) (bytes ! 4),
                          ack_result := bytes ! 6\<rparr>))"

definition commandCodeToString :: "CommandCode \<Rightarrow> string" where
  "commandCodeToString command =
     (if command = CommandCode_Open then ''OPEN''
      else if command = CommandCode_Grab then ''GRAB''
      else if command = CommandCode_Release then ''RELEASE''
      else if command = CommandCode_Stop then ''STOP''
      else ''UNKNOWN'')"

section \<open>SimulatedDevice\<close>

text \<open>
  The counters are C++ \<^verbatim>\<open>int\<close>; they are kept unbounded here, which is faithful for up to
  2 147 483 647 messages: that is a hypothesis of the theorem about them. \<^verbatim>\<open>std::cout\<close> is the list of lines.
\<close>

record DeviceStats =
  received :: int
  executed :: int
  duplicates :: int

record SimulatedDevice =
  ackCache :: "(u16, AckFrame) std_map"
  stats :: DeviceStats
  device_out :: "string list"

definition new_SimulatedDevice :: SimulatedDevice where
  "new_SimulatedDevice =
     \<lparr>ackCache = [], stats = \<lparr>received = 0, executed = 0, duplicates = 0\<rparr>, device_out = []\<rparr>"

text \<open>
  \<^verbatim>\<open>RequestFrame request;\<close> is uninitialised in the source; it is read only after a successful
  decode has assigned both fields, so the value chosen here is never observed.
\<close>

definition uninit_request :: RequestFrame where
  "uninit_request = \<lparr>req_sequence = 0, req_command = 0\<rparr>"

definition handleRequest :: "u8 list \<Rightarrow> SimulatedDevice \<Rightarrow> u8 list \<times> SimulatedDevice" where
  "handleRequest bytes d =
     (case decodeRequest bytes uninit_request of (ok, request) \<Rightarrow>
       if \<not> ok then ([], d)
       else
         let st = (stats d)\<lparr>received := received (stats d) + 1\<rparr> in
         case std_find (req_sequence request) (ackCache d) of
           Some cached \<Rightarrow>
             (encodeAck cached,
              d\<lparr>stats := st\<lparr>duplicates := duplicates st + 1\<rparr>,
                device_out := device_out d @
                  [''[DUPLICATE] seq='' @ to_string (unat (req_sequence request)) @
                   '' skip execution'']\<rparr>)
         | None \<Rightarrow>
             let ack = \<lparr>ack_sequence = req_sequence request, ack_result = ResultCode_Ok\<rparr> in
             (encodeAck ack,
              d\<lparr>stats := st\<lparr>executed := executed st + 1\<rparr>,
                device_out := device_out d @
                  [''[EXECUTE] seq='' @ to_string (unat (req_sequence request)) @
                   '' command='' @ commandCodeToString (req_command request)],
                ackCache := std_put (req_sequence request) ack (ackCache d)\<rparr>))"

definition getStats :: "SimulatedDevice \<Rightarrow> DeviceStats" where
  "getStats d = stats d"

text \<open>The lines \<^verbatim>\<open>main\<close> prints, those of the device included.\<close>

definition reliable_demo_main :: "string list" where
  "reliable_demo_main =
     (let request = \<lparr>req_sequence = 3, req_command = CommandCode_Grab\<rparr>;
          requestBytes = encodeRequest request;
          out0 = [''[GATEWAY] send seq=3 attempt=1''];
          (firstAck, d1) = handleRequest requestBytes (new_SimulatedDevice\<lparr>device_out := out0\<rparr>);
          out1 = device_out d1 @ [''[GATEWAY] ACK timeout seq=3'',
                                  ''[GATEWAY] retry seq=3 attempt=2''];
          (secondAck, d2) = handleRequest requestBytes (d1\<lparr>device_out := out1\<rparr>);
          (ok, decodedAck) = decodeAck secondAck \<lparr>ack_sequence = 0, ack_result = 0\<rparr>;
          out2 = device_out d2 @
            (if ok then [''[GATEWAY] ACK received seq='' @ to_string (unat (ack_sequence decodedAck))]
             else []);
          st = getStats d2
      in out2 @ [''[RESULT] received='' @ to_string (nat (received st)),
                 ''[RESULT] executed='' @ to_string (nat (executed st)),
                 ''[RESULT] duplicates='' @ to_string (nat (duplicates st))])"

section \<open>The codecs\<close>

definition rel_checksum :: "u8 \<Rightarrow> u16 \<Rightarrow> u8 \<Rightarrow> u8 \<Rightarrow> u8" where
  "rel_checksum len s t x = len XOR seq_high s XOR seq_low s XOR t XOR x"

text \<open>A ten-byte frame with all its fields, the length byte included, free.\<close>

definition rel_frame :: "u8 \<Rightarrow> u16 \<Rightarrow> u8 \<Rightarrow> u8 \<Rightarrow> u8 list" where
  "rel_frame len s t x =
     [0xAA, 0x55, len, seq_high s, seq_low s, t, x, rel_checksum len s t x, 0x0D, 0x0A]"

lemma encodeRequest_bytes: "encodeRequest r = rel_frame 4 (req_sequence r) 1 (req_command r)"
  by (simp add: encodeRequest_def protocol_checksum_def xor_loop_slice rel_frame_def rel_checksum_def
      reliable_consts reliable_enums ac_simps)

lemma encodeAck_bytes: "encodeAck a = rel_frame 4 (ack_sequence a) 2 (ack_result a)"
  by (simp add: encodeAck_def protocol_checksum_def xor_loop_slice rel_frame_def rel_checksum_def
      reliable_consts reliable_enums ac_simps)

lemma length_10_cases:
  assumes "length bs = 10"
  obtains b0 b1 b2 b3 b4 b5 b6 b7 b8 b9 where "bs = [b0, b1, b2, b3, b4, b5, b6, b7, b8, b9]"
  using assms by (auto simp: numeral_eq_Suc length_Suc_conv)

lemma checksum_10:
  "protocol_checksum [b0, b1, b2, b3, b4, b5, b6, b7, b8, b9] 2 7 = b2 XOR b3 XOR b4 XOR b5 XOR b6"
  by (simp add: protocol_checksum_def xor_loop_slice ac_simps)

lemma decodeRequest_iff:
  "decodeRequest bs out = (True, r) \<longleftrightarrow> (\<exists>len. bs = rel_frame len (req_sequence r) 1 (req_command r))"
proof
  assume dec: "decodeRequest bs out = (True, r)"
  then have "length bs = 10" by (auto simp: decodeRequest_def split: if_splits)
  then obtain b0 b1 b2 b3 b4 b5 b6 b7 b8 b9 where
    bs: "bs = [b0, b1, b2, b3, b4, b5, b6, b7, b8, b9]" by (rule length_10_cases)
  from dec show "\<exists>len. bs = rel_frame len (req_sequence r) 1 (req_command r)"
    unfolding bs decodeRequest_def checksum_10
    by (auto simp: rel_frame_def rel_checksum_def reliable_consts reliable_enums split: if_splits)
next
  assume "\<exists>len. bs = rel_frame len (req_sequence r) 1 (req_command r)"
  then show "decodeRequest bs out = (True, r)"
    by (auto simp: decodeRequest_def rel_frame_def checksum_10 rel_checksum_def reliable_consts
        reliable_enums)
qed

lemma decodeAck_iff:
  "decodeAck bs out = (True, a) \<longleftrightarrow> (\<exists>len. bs = rel_frame len (ack_sequence a) 2 (ack_result a))"
proof
  assume dec: "decodeAck bs out = (True, a)"
  then have "length bs = 10" by (auto simp: decodeAck_def split: if_splits)
  then obtain b0 b1 b2 b3 b4 b5 b6 b7 b8 b9 where
    bs: "bs = [b0, b1, b2, b3, b4, b5, b6, b7, b8, b9]" by (rule length_10_cases)
  from dec show "\<exists>len. bs = rel_frame len (ack_sequence a) 2 (ack_result a)"
    unfolding bs decodeAck_def checksum_10
    by (auto simp: rel_frame_def rel_checksum_def reliable_consts reliable_enums split: if_splits)
next
  assume "\<exists>len. bs = rel_frame len (ack_sequence a) 2 (ack_result a)"
  then show "decodeAck bs out = (True, a)"
    by (auto simp: decodeAck_def rel_frame_def checksum_10 rel_checksum_def reliable_consts
        reliable_enums)
qed

text \<open>The decoders as option-valued functions, and the contract they meet.\<close>

definition decode_request :: "u8 list \<Rightarrow> RequestFrame option" where
  "decode_request bs = (case decodeRequest bs uninit_request of (ok, r) \<Rightarrow> if ok then Some r else None)"

definition decode_ack :: "u8 list \<Rightarrow> AckFrame option" where
  "decode_ack bs =
     (case decodeAck bs \<lparr>ack_sequence = 0, ack_result = 0\<rparr> of (ok, a) \<Rightarrow> if ok then Some a else None)"

lemma decode_request_Some:
  "decode_request bs = Some r \<longleftrightarrow> (\<exists>len. bs = rel_frame len (req_sequence r) 1 (req_command r))"
  by (simp add: decode_request_def flip: decodeRequest_iff [of _ uninit_request] split: prod.split)

lemma decode_ack_Some:
  "decode_ack bs = Some a \<longleftrightarrow> (\<exists>len. bs = rel_frame len (ack_sequence a) 2 (ack_result a))"
  by (simp add: decode_ack_def
      flip: decodeAck_iff [of _ "\<lparr>ack_sequence = 0, ack_result = 0\<rparr>"] split: prod.split)

interpretation rel_request: fixed_codec encodeRequest decode_request "\<lambda>_. True" 10
  by unfold_locales (auto simp: encodeRequest_bytes decode_request_Some rel_frame_def)

interpretation rel_ack: fixed_codec encodeAck decode_ack "\<lambda>_. True" 10
  by unfold_locales (auto simp: encodeAck_bytes decode_ack_Some rel_frame_def)

section \<open>The device\<close>

fun run_device :: "u8 list list \<Rightarrow> SimulatedDevice \<Rightarrow> u8 list list \<times> SimulatedDevice" where
  "run_device [] d = ([], d)"
| "run_device (m # ms) d =
     (case handleRequest m d of (a, d') \<Rightarrow> (case run_device ms d' of (as, d'') \<Rightarrow> (a # as, d'')))"

definition ok_ack :: "u16 \<Rightarrow> AckFrame" where
  "ok_ack s = \<lparr>ack_sequence = s, ack_result = ResultCode_Ok\<rparr>"

text \<open>The cache holds the positive acknowledgement of exactly the sequence numbers executed.\<close>

definition device_inv :: "SimulatedDevice \<Rightarrow> bool" where
  "device_inv d \<longleftrightarrow> std_ordered (ackCache d) \<and> smap.all_values (\<lambda>s a. a = ok_ack s) (ackCache d) \<and>
     executed (stats d) = int (card (smap.keys (ackCache d))) \<and>
     received (stats d) = executed (stats d) + duplicates (stats d)"

lemma device_inv_new: "device_inv new_SimulatedDevice"
  by (simp add: device_inv_def new_SimulatedDevice_def smap.all_values_def smap.keys_def)

lemma handleRequest_eq:
  "handleRequest m d =
     (case decode_request m of None \<Rightarrow> ([], d)
      | Some r \<Rightarrow> handleRequest (encodeRequest r) d)"
proof (cases "decode_request m")
  case None
  then have "\<not> fst (decodeRequest m uninit_request)"
    by (auto simp: decode_request_def split: prod.splits if_splits)
  with None show ?thesis by (cases "decodeRequest m uninit_request") (simp add: handleRequest_def)
next
  case (Some r)
  then have "decodeRequest m uninit_request = (True, r)"
    by (auto simp: decode_request_def split: prod.splits if_splits)
  moreover have "decodeRequest (encodeRequest r) uninit_request = (True, r)"
    by (auto simp: decodeRequest_iff encodeRequest_bytes)
  ultimately show ?thesis using Some by (simp add: handleRequest_def)
qed

lemma handleRequest_known:
  assumes "device_inv d" and "std_find (req_sequence r) (ackCache d) = Some a"
  shows "handleRequest (encodeRequest r) d =
    (encodeAck (ok_ack (req_sequence r)),
     d\<lparr>stats := (stats d)\<lparr>received := received (stats d) + 1, duplicates := duplicates (stats d) + 1\<rparr>,
       device_out := device_out d @
         [''[DUPLICATE] seq='' @ to_string (unat (req_sequence r)) @ '' skip execution'']\<rparr>)"
proof -
  have "a = ok_ack (req_sequence r)"
    using assms by (auto simp: device_inv_def dest: smap.all_valuesD)
  moreover have "decodeRequest (encodeRequest r) uninit_request = (True, r)"
    by (auto simp: decodeRequest_iff encodeRequest_bytes)
  ultimately show ?thesis using assms(2) by (simp add: handleRequest_def Let_def)
qed

lemma handleRequest_new:
  assumes "std_find (req_sequence r) (ackCache d) = None"
  shows "handleRequest (encodeRequest r) d =
    (encodeAck (ok_ack (req_sequence r)),
     d\<lparr>stats := (stats d)\<lparr>received := received (stats d) + 1, executed := executed (stats d) + 1\<rparr>,
       device_out := device_out d @ [''[EXECUTE] seq='' @ to_string (unat (req_sequence r)) @
         '' command='' @ commandCodeToString (req_command r)],
       ackCache := std_put (req_sequence r) (ok_ack (req_sequence r)) (ackCache d)\<rparr>)"
proof -
  have "decodeRequest (encodeRequest r) uninit_request = (True, r)"
    by (auto simp: decodeRequest_iff encodeRequest_bytes)
  with assms show ?thesis by (simp add: handleRequest_def Let_def ok_ack_def)
qed

text \<open>What one message does, on every branch.\<close>

lemma handleRequest_step:
  assumes "device_inv d" and "handleRequest m d = (a, d')"
  shows "device_inv d'"
    and "a = (case decode_request m of None \<Rightarrow> [] | Some r \<Rightarrow> encodeAck (ok_ack (req_sequence r)))"
    and "smap.keys (ackCache d') =
      smap.keys (ackCache d) \<union> req_sequence ` set_option (decode_request m)"
    and "received (stats d') = received (stats d) + (if decode_request m = None then 0 else 1)"
proof -
  have "device_inv d' \<and>
    a = (case decode_request m of None \<Rightarrow> [] | Some r \<Rightarrow> encodeAck (ok_ack (req_sequence r))) \<and>
    smap.keys (ackCache d') = smap.keys (ackCache d) \<union> req_sequence ` set_option (decode_request m) \<and>
    received (stats d') = received (stats d) + (if decode_request m = None then 0 else 1)"
  proof (cases "decode_request m")
    case None
    with assms show ?thesis by (simp add: handleRequest_eq [of m])
  next
    case (Some r)
    show ?thesis
    proof (cases "std_find (req_sequence r) (ackCache d)")
      case None
      with assms Some show ?thesis
        by (auto simp: handleRequest_eq [of m] handleRequest_new device_inv_def smap.keys_put
            smap.finite_keys card_insert_if smap.keys_iff smap.invar_put smap.all_values_put ok_ack_def)
    next
      case (Some a')
      then have "req_sequence r \<in> smap.keys (ackCache d)" by (simp add: smap.keys_iff)
      with assms Some \<open>decode_request m = Some r\<close> show ?thesis
        by (auto simp: handleRequest_eq [of m] handleRequest_known device_inv_def)
    qed
  qed
  then show "device_inv d'"
    and "a = (case decode_request m of None \<Rightarrow> [] | Some r \<Rightarrow> encodeAck (ok_ack (req_sequence r)))"
    and "smap.keys (ackCache d') =
      smap.keys (ackCache d) \<union> req_sequence ` set_option (decode_request m)"
    and "received (stats d') = received (stats d) + (if decode_request m = None then 0 else 1)"
    by simp_all
qed

lemma run_device_step:
  assumes "device_inv d" and "run_device ms d = (as, d')"
  shows "device_inv d' \<and>
    as = map (\<lambda>m. case decode_request m of None \<Rightarrow> []
                  | Some r \<Rightarrow> encodeAck (ok_ack (req_sequence r))) ms \<and>
    smap.keys (ackCache d') =
      smap.keys (ackCache d) \<union> req_sequence ` set (List.map_filter decode_request ms) \<and>
    received (stats d') = received (stats d) + int (length (List.map_filter decode_request ms))"
  using assms
proof (induction ms arbitrary: d as)
  case Nil
  then show ?case by (simp add: List.map_filter_simps)
next
  case (Cons m ms)
  obtain a d1 where one: "handleRequest m d = (a, d1)" by fastforce
  obtain as' where rest: "run_device ms d1 = (as', d')" and as: "as = a # as'"
    using Cons.prems(2) one by (auto split: prod.splits)
  note step = handleRequest_step [OF Cons.prems(1) one]
  from Cons.IH [OF step(1) rest] step(2-4) as show ?case
    by (auto simp: List.map_filter_simps split: option.splits)
qed

section \<open>Properties\<close>

text \<open>
  Requests and acknowledgements survive the line: decoding an encoded frame gives the frame
  back, and neither decoder accepts a frame of the other type.
\<close>

theorem reliable_roundtrip:
  "decodeRequest (encodeRequest r) r0 = (True, r) \<and> decodeAck (encodeAck a) a0 = (True, a) \<and>
   decodeAck (encodeRequest r) a0 = (False, a0) \<and> decodeRequest (encodeAck a) r0 = (False, r0)"
  by (auto simp: decodeRequest_iff decodeAck_iff encodeRequest_bytes encodeAck_bytes)
    (auto simp: decodeAck_def decodeRequest_def rel_frame_def reliable_consts reliable_enums)

text \<open>
  Claim C21. Exactly-once execution under retransmission: whatever byte strings reach a new device, in
  whatever order and with whatever repetitions, up to the \<^verbatim>\<open>INT_MAX\<close> messages that its \<^verbatim>\<open>int\<close> counters can
  count, it executes one command per distinct sequence number among the decodable requests, counts all
  other decodable requests as duplicates, and answers every decodable request with the same positive
  acknowledgement of its sequence number and every other message with nothing; and no counter leaves
  the range of an \<^verbatim>\<open>int\<close>.
\<close>

theorem device_exactly_once:
  assumes "length msgs \<le> 2147483647"
  shows "let reqs = List.map_filter decode_request msgs;
       (acks, d) = run_device msgs new_SimulatedDevice
   in executed (getStats d) = int (card (req_sequence ` set reqs)) \<and>
      received (getStats d) = int (length reqs) \<and>
      duplicates (getStats d) = int (length reqs) - int (card (req_sequence ` set reqs)) \<and>
      {executed (getStats d), received (getStats d), duplicates (getStats d)} \<subseteq> {0..2147483647} \<and>
      acks = map (\<lambda>m. case decode_request m of None \<Rightarrow> []
                      | Some r \<Rightarrow> encodeAck \<lparr>ack_sequence = req_sequence r, ack_result = ResultCode_Ok\<rparr>) msgs"
proof -
  let ?reqs = "List.map_filter decode_request msgs"
  obtain acks d where run: "run_device msgs new_SimulatedDevice = (acks, d)" by fastforce
  have "smap.keys (ackCache new_SimulatedDevice) = {}" "received (stats new_SimulatedDevice) = 0"
    by (simp_all add: new_SimulatedDevice_def smap.keys_def)
  with run_device_step [OF device_inv_new run]
  have result: "executed (getStats d) = int (card (req_sequence ` set ?reqs))" "received (getStats d) = int (length ?reqs)"
    "duplicates (getStats d) = int (length ?reqs) - int (card (req_sequence ` set ?reqs))"
    "acks = map (\<lambda>m. case decode_request m of None \<Rightarrow> []
                      | Some r \<Rightarrow> encodeAck \<lparr>ack_sequence = req_sequence r, ack_result = ResultCode_Ok\<rparr>) msgs"
    unfolding ok_ack_def by (auto simp: getStats_def device_inv_def)
  have "card (req_sequence ` set ?reqs) \<le> length ?reqs"
    using card_image_le [of "set ?reqs" req_sequence] card_length [of ?reqs] by (simp add: le_trans)
  moreover have "length ?reqs \<le> 2147483647"
    using order_trans [OF length_filter_le assms] by (simp only: List.map_filter_def length_map)
  ultimately have "{executed (getStats d), received (getStats d), duplicates (getStats d)} \<subseteq> {0..2147483647}"
    unfolding result(1-3) by auto
  with result show ?thesis unfolding Let_def run prod.case by blast
qed

text \<open>A request that is sent twice, and a message that is none.\<close>

theorem device_exactly_once_witness:
  "let m = encodeRequest \<lparr>req_sequence = 3, req_command = CommandCode_Grab\<rparr>;
       (acks, d) = run_device [m, [], m] new_SimulatedDevice
   in executed (getStats d) = 1 \<and> received (getStats d) = 2 \<and> duplicates (getStats d) = 1"
proof -
  let ?r = "\<lparr>req_sequence = 3, req_command = CommandCode_Grab\<rparr>"
  let ?msgs = "[encodeRequest ?r, [], encodeRequest ?r]"
  have "decode_request (encodeRequest ?r) = Some ?r" by (simp add: rel_request.dec_enc)
  moreover have "decode_request [] = None" by code_simp
  ultimately have "List.map_filter decode_request ?msgs = [?r, ?r]" by (simp add: List.map_filter_simps)
  with device_exactly_once [of ?msgs] show ?thesis by (auto simp: Let_def split: prod.splits)
qed

text \<open>
  A retransmission is harmless: after a decodable request has been handled, and after any
  further messages, another request with the same sequence number gets the same reply byte for
  byte, executes nothing and leaves the cache of acknowledgements as it is.
\<close>

theorem device_retransmission_idempotent:
  assumes "device_inv d"
    and "decode_request m = Some r" and "decode_request m' = Some r'"
    and "req_sequence r' = req_sequence r"
    and "handleRequest m d = (a, d1)" and "run_device ms d1 = (as, d2)"
    and "handleRequest m' d2 = (a', d3)"
  shows "a' = a \<and> executed (stats d3) = executed (stats d2) \<and> ackCache d3 = ackCache d2 \<and>
    duplicates (stats d3) = duplicates (stats d2) + 1"
proof -
  note first = handleRequest_step [OF assms(1,5)]
  from run_device_step [OF first(1) assms(6)] have inv2: "device_inv d2"
    and keys2: "smap.keys (ackCache d1) \<subseteq> smap.keys (ackCache d2)" by auto
  from first(3) assms(2,4) keys2 have "req_sequence r' \<in> smap.keys (ackCache d2)" by auto
  then obtain c where "std_find (req_sequence r') (ackCache d2) = Some c"
    by (auto simp: smap.keys_iff)
  from handleRequest_known [OF inv2 this] first(2) assms(2-4,7) show ?thesis
    by (auto simp: handleRequest_eq [of m'])
qed

theorem device_retransmission_idempotent_witness:
  "let r = \<lparr>req_sequence = 3, req_command = CommandCode_Grab\<rparr>; m = encodeRequest r;
       (a, d1) = handleRequest m new_SimulatedDevice;
       (a', d3) = handleRequest m d1
   in a' = a \<and> executed (stats d3) = executed (stats d1)"
proof -
  let ?r = "\<lparr>req_sequence = 3, req_command = CommandCode_Grab\<rparr>"
  have dec: "decode_request (encodeRequest ?r) = Some ?r" by (simp add: rel_request.dec_enc)
  obtain a d1 where one: "handleRequest (encodeRequest ?r) new_SimulatedDevice = (a, d1)" by fastforce
  obtain a' d3 where two: "handleRequest (encodeRequest ?r) d1 = (a', d3)" by fastforce
  have "run_device [] d1 = ([], d1)" by simp
  from device_retransmission_idempotent [OF device_inv_new dec dec refl one this two]
  show ?thesis by (simp add: one two)
qed

text \<open>
  The demonstration program prints the run it announces: the command is executed once, the
  retransmission is recognised, and the gateway receives the acknowledgement of sequence number 3.
\<close>

theorem reliable_demo_output:
  "reliable_demo_main =
     [''[GATEWAY] send seq=3 attempt=1'',
      ''[EXECUTE] seq=3 command=GRAB'',
      ''[GATEWAY] ACK timeout seq=3'',
      ''[GATEWAY] retry seq=3 attempt=2'',
      ''[DUPLICATE] seq=3 skip execution'',
      ''[GATEWAY] ACK received seq=3'',
      ''[RESULT] received=2'',
      ''[RESULT] executed=1'',
      ''[RESULT] duplicates=1'']"
  by code_simp

text \<open>
  Claim C40. What the request decoder does not check. It accepts a request whose length byte is not the
  4 that the encoder writes, and it accepts any command byte: a new device executes a request with
  an undefined command code and acknowledges it as successful.
\<close>

theorem reliable_decoder_lenient:
  "decodeRequest (rel_frame len s 1 c) r0 = (True, \<lparr>req_sequence = s, req_command = c\<rparr>) \<and>
   fst (handleRequest (rel_frame len s 1 c) new_SimulatedDevice) =
     encodeAck \<lparr>ack_sequence = s, ack_result = ResultCode_Ok\<rparr> \<and>
   executed (stats (snd (handleRequest (rel_frame len s 1 c) new_SimulatedDevice))) = 1"
proof -
  let ?r = "\<lparr>req_sequence = s, req_command = c\<rparr>"
  have dec: "decode_request (rel_frame len s 1 c) = Some ?r" by (auto simp: decode_request_Some)
  have "std_find (req_sequence ?r) (ackCache new_SimulatedDevice) = None"
    by (simp add: new_SimulatedDevice_def)
  from handleRequest_new [OF this] dec show ?thesis
    by (auto simp: decodeRequest_iff handleRequest_eq [of "rel_frame len s 1 c"] ok_ack_def
        new_SimulatedDevice_def)
qed

end
