(* ===== verification/Ack_Parser.thy ===== *)
theory Ack_Parser
  imports Prelude
begin

text \<open>
  The acknowledgement lines of the hand bridge (\<^verbatim>\<open>hand_bridge/src/ack_parser.cpp\<close>):
  \<^verbatim>\<open>ACK:<SEQ> <STATUS>\<close> with an optional line end. The sequence number is read into a 32-bit
  unsigned integer with an explicit overflow test.
\<close>

section \<open>Model\<close>

datatype AckStatus = ACK_IN_PROGRESS | ACK_OK | ACK_PREEMPTED | ACK_BUSY | ACK_ERROR

abbreviation LF :: char where "LF \<equiv> CHR 0x0A"
abbreviation CR :: char where "CR \<equiv> CHR 0x0D"

text \<open>The removal of a final \<^verbatim>\<open>\n\<close>, and then of a final \<^verbatim>\<open>\r\<close>.\<close>

definition strip_line_end :: "string \<Rightarrow> string" where
  "strip_line_end text =
     (if text \<noteq> [] \<and> last text = LF
      then let text' = butlast text in
        if text' \<noteq> [] \<and> last text' = CR then butlast text' else text'
      else text)"

definition max_seq :: u32 where
  "max_seq = 0xFFFFFFFF"

text \<open>
  The digit loop. \<open>None\<close> is the \<^verbatim>\<open>return false\<close> of the overflow test; otherwise the loop yields the
  position it stopped at, the number read and whether there was a digit.
\<close>

function parse_digits :: "string \<Rightarrow> nat \<Rightarrow> u32 \<Rightarrow> bool \<Rightarrow> (nat \<times> u32 \<times> bool) option" where
  "parse_digits text pos parsed_seq has_digit =
     (if pos < length text \<and> is_digit (text ! pos)
      then let digit = (of_nat (digit_val (text ! pos)) :: u32) in
        if parsed_seq > (max_seq - digit) div 10 then None
        else parse_digits text (Suc pos) (parsed_seq * 10 + digit) True
      else Some (pos, parsed_seq, has_digit))"
  by pat_completeness auto
termination
  by (relation "measure (\<lambda>(text, pos, parsed_seq, has_digit). length text - pos)") auto

declare parse_digits.simps [simp del]

definition parse_status :: "string \<Rightarrow> AckStatus option" where
  "parse_status status_text =
     (if status_text = ''IN_PROGRESS'' then Some ACK_IN_PROGRESS
      else if status_text = ''OK'' then Some ACK_OK
      else if status_text = ''PREEMPTED'' then Some ACK_PREEMPTED
      else if status_text = ''BUSY'' then Some ACK_BUSY
      else if status_text = ''ERROR'' then Some ACK_ERROR
      else None)"

text \<open>The returned flag and the two output arguments after the call.\<close>

definition parse_ack :: "string \<Rightarrow> u32 \<Rightarrow> AckStatus \<Rightarrow> bool \<times> u32 \<times> AckStatus" where
  "parse_ack line seq status =
     (let text = strip_line_end line in
      if take 4 text \<noteq> ''ACK:'' then (False, seq, status)
      else case parse_digits text 4 0 False of
        None \<Rightarrow> (False, seq, status)
      | Some (pos, parsed_seq, has_digit) \<Rightarrow>
          if \<not> has_digit then (False, seq, status)
          else if pos \<ge> length text \<or> text ! pos \<noteq> CHR '' '' then (False, seq, status)
          else case parse_status (drop (Suc pos) text) of
            None \<Rightarrow> (False, seq, status)
          | Some parsed_status \<Rightarrow> (True, parsed_seq, parsed_status))"

fun ack_status_to_string :: "AckStatus \<Rightarrow> string" where
  "ack_status_to_string ACK_IN_PROGRESS = ''IN_PROGRESS''"
| "ack_status_to_string ACK_OK = ''OK''"
| "ack_status_to_string ACK_PREEMPTED = ''PREEMPTED''"
| "ack_status_to_string ACK_BUSY = ''BUSY''"
| "ack_status_to_string ACK_ERROR = ''ERROR''"

section \<open>The overflow test\<close>

text \<open>The test refuses exactly the digits whose number would not fit in 32 bits.\<close>

lemma unat_max_seq [simp]: "unat max_seq = 4294967295"
  by (simp add: max_seq_def)

lemma overflow_test:
  assumes "d < 10"
  shows "parsed > (max_seq - of_nat d) div 10 \<longleftrightarrow> \<not> unat parsed * 10 + d < 2 ^ 32"
proof -
  have d: "unat (of_nat d :: u32) = d" using assms by (simp add: unat_of_nat)
  have "(of_nat d :: u32) \<le> max_seq" using assms d by (simp add: word_le_nat_alt)
  then have "unat (max_seq - of_nat d) = 4294967295 - d" by (simp add: unat_sub d)
  moreover have "unat (10 :: u32) = 10" by simp
  ultimately have "unat ((max_seq - of_nat d) div 10) = (4294967295 - d) div 10"
    by (simp only: unat_div)
  then show ?thesis using assms by (auto simp: word_less_nat_alt)
qed

lemma accumulate_unat:
  assumes "unat parsed * 10 + d < 2 ^ 32" and "d < 10"
  shows "unat (parsed * 10 + of_nat d :: u32) = unat parsed * 10 + d"
proof -
  have "parsed * 10 + of_nat d = (of_nat (unat parsed * 10 + d) :: u32)" by simp
  then show ?thesis using assms(1) by (simp only: unat_of_nat) simp
qed

section \<open>The digit loop\<close>

lemma parse_digits_stop:
  "\<not> (pos < length text \<and> is_digit (text ! pos)) \<Longrightarrow> parse_digits text pos n h = Some (pos, n, h)"
  by (auto simp: parse_digits.simps [of "text" pos])

lemma parse_digits_run:
  assumes "list_all is_digit ds" and "rest = [] \<or> \<not> is_digit (hd rest)"
  shows "parse_digits (pre @ ds @ rest) (length pre) n h =
    (if unat n * 10 ^ length ds + digits_value ds < 2 ^ 32
     then Some (length pre + length ds, of_nat (unat n * 10 ^ length ds + digits_value ds), h \<or> ds \<noteq> [])
     else None)"
  using assms(1)
proof (induction ds arbitrary: pre n h)
  case Nil
  have "parse_digits (pre @ rest) (length pre) n h = Some (length pre, n, h)"
    using assms(2) by (intro parse_digits_stop) (auto simp: nth_append hd_conv_nth)
  then show ?case using unsigned_less [of n, where ?'a = nat] by simp
next
  case (Cons d ds)
  let ?v = "unat n * 10 + digit_val d"
  from Cons.prems have d: "is_digit d" "digit_val d < 10" and ds: "list_all is_digit ds" by simp_all
  have step: "parse_digits (pre @ (d # ds) @ rest) (length pre) n h =
      (if ?v < 2 ^ 32
       then parse_digits ((pre @ [d]) @ ds @ rest) (length (pre @ [d])) (n * 10 + of_nat (digit_val d)) True
       else None)"
    using d overflow_test [OF d(2), of n] by (subst parse_digits.simps) (simp add: Let_def not_less)
  have total: "unat n * 10 ^ length (d # ds) + digits_value (d # ds) =
      ?v * 10 ^ length ds + digits_value ds"
    by (simp add: digits_value_Cons algebra_simps)
  show ?case
  proof (cases "?v < 2 ^ 32")
    case True
    from Cons.IH [OF ds, of "pre @ [d]" "n * 10 + of_nat (digit_val d)" True]
    show ?thesis unfolding step total accumulate_unat [OF True d(2)] using True by simp
  next
    case False
    have "?v \<le> ?v * 10 ^ length ds + digits_value ds" by (simp add: trans_le_add1)
    with False show ?thesis unfolding step total by simp
  qed
qed

section \<open>Lines\<close>

lemma parse_status_Some: "parse_status t = Some st \<longleftrightarrow> t = ack_status_to_string st"
  by (cases st) (auto simp: parse_status_def)

text \<open>The three ways a line may end.\<close>

definition line_ends :: "string set" where
  "line_ends = {[], [LF], [CR, LF]}"

lemma strip_line_end_split: "\<exists>eol \<in> line_ends. line = strip_line_end line @ eol"
proof (cases "line \<noteq> [] \<and> last line = LF")
  case lf: True
  then have line: "line = butlast line @ [LF]" by (metis append_butlast_last_id)
  show ?thesis
  proof (cases "butlast line \<noteq> [] \<and> last (butlast line) = CR")
    case True
    then have "butlast line = butlast (butlast line) @ [CR]" by (metis append_butlast_last_id)
    with line have "line = butlast (butlast line) @ [CR, LF]"
      by (metis append_Cons append_Nil append_assoc)
    with lf True show ?thesis by (simp add: strip_line_end_def Let_def line_ends_def)
  next
    case False
    with lf line show ?thesis by (auto simp: strip_line_end_def Let_def line_ends_def)
  qed
qed (auto simp: strip_line_end_def line_ends_def)

lemma strip_line_end_append:
  "t \<noteq> [] \<Longrightarrow> last t \<noteq> LF \<Longrightarrow> last t \<noteq> CR \<Longrightarrow> eol \<in> line_ends \<Longrightarrow> strip_line_end (t @ eol) = t"
  by (auto simp: strip_line_end_def line_ends_def butlast_append)

lemma ack_status_last:
  "ack_status_to_string st \<noteq> [] \<and> last (ack_status_to_string st) \<notin> {LF, CR}"
  by (cases st) simp_all

text \<open>The parser on a text that is cut after its digits.\<close>

definition parse_text :: "string \<Rightarrow> string \<Rightarrow> (u32 \<times> AckStatus) option" where
  "parse_text ds rest =
     (if ds = [] \<or> 2 ^ 32 \<le> digits_value ds then None
      else case rest of
        [] \<Rightarrow> None
      | c # t \<Rightarrow> if c = CHR '' '' then map_option (Pair (of_nat (digits_value ds))) (parse_status t)
                 else None)"

lemma parse_ack_text:
  assumes "strip_line_end line = ''ACK:'' @ ds @ rest"
    and "list_all is_digit ds" and "rest = [] \<or> \<not> is_digit (hd rest)"
  shows "parse_ack line s0 st0 =
    (case parse_text ds rest of None \<Rightarrow> (False, s0, st0) | Some (s, st) \<Rightarrow> (True, s, st))"
proof -
  let ?t = "''ACK:'' @ ds @ rest"
  have four: "length ''ACK:'' = 4" by simp
  have run: "parse_digits ?t 4 0 False =
      (if digits_value ds < 2 ^ 32 then Some (4 + length ds, of_nat (digits_value ds), ds \<noteq> []) else None)"
    using parse_digits_run [OF assms(2,3), of "''ACK:''" 0 False, unfolded four] by simp
  have "drop (Suc (length p)) (p @ rest) = tl rest" for p :: string
    by (simp add: drop_Suc flip: tl_drop)
  note tl_rest = this [of "''ACK:'' @ ds", unfolded length_append four append_assoc]
  have tail: "?t ! (4 + length ds) = hd rest" "\<not> length ?t \<le> 4 + length ds" if "rest \<noteq> []"
    using that by (simp_all add: nth_append hd_conv_nth)
  show ?thesis
  proof (cases rest)
    case Nil
    with run show ?thesis by (simp add: parse_ack_def Let_def assms(1) parse_text_def)
  next
    case (Cons c t)
    with tail tl_rest have t: "?t ! (4 + length ds) = c" "drop (Suc (4 + length ds)) ?t = t"
      "\<not> length ?t \<le> 4 + length ds" by simp_all
    have pre: "take 4 ?t = ''ACK:''" by simp
    show ?thesis
      unfolding parse_ack_def Let_def assms(1) run pre
      by (simp only: t option.case prod.case if_True if_False simp_thms split: if_split)
        (simp add: parse_text_def Cons split: option.split)
  qed
qed

lemma digit_split:
  "\<exists>ds rest. u = ds @ rest \<and> list_all is_digit ds \<and> (rest = [] \<or> \<not> is_digit (hd rest))"
proof (intro exI conjI)
  show "u = takeWhile is_digit u @ dropWhile is_digit u" by simp
  show "list_all is_digit (takeWhile is_digit u)" by (auto simp: list_all_iff dest: set_takeWhileD)
  show "dropWhile is_digit u = [] \<or> \<not> is_digit (hd (dropWhile is_digit u))"
    by (metis hd_dropWhile)
qed

lemma parse_ack_cases:
  obtains (prefix) ds rest where "strip_line_end line = ''ACK:'' @ ds @ rest"
      "list_all is_digit ds" "rest = [] \<or> \<not> is_digit (hd rest)"
  | (bad) "parse_ack line s0 st0 = (False, s0, st0)"
proof (cases "take 4 (strip_line_end line) = ''ACK:''")
  case True
  then have "strip_line_end line = ''ACK:'' @ drop 4 (strip_line_end line)"
    by (metis append_take_drop_id)
  moreover obtain ds rest where "drop 4 (strip_line_end line) = ds @ rest" "list_all is_digit ds"
    "rest = [] \<or> \<not> is_digit (hd rest)" using digit_split by blast
  ultimately show ?thesis using prefix by metis
next
  case False
  then have "parse_ack line s0 st0 = (False, s0, st0)" by (simp add: parse_ack_def Let_def)
  then show ?thesis by (rule bad)
qed

lemma parse_text_Some:
  "parse_text ds rest = Some (s, st) \<longleftrightarrow>
     ds \<noteq> [] \<and> digits_value ds < 2 ^ 32 \<and> s = of_nat (digits_value ds) \<and>
     rest = '' '' @ ack_status_to_string st"
  by (auto simp: parse_text_def parse_status_Some split: list.splits if_splits)

section \<open>Properties\<close>

text \<open>
  Claim C22. The language of acknowledgement lines: \<^verbatim>\<open>parse_ack\<close> succeeds exactly on
  \<^verbatim>\<open>ACK:<digits> <STATUS>\<close> followed by nothing, LF or CRLF, where the digits are at least one
  and denote a number that fits in 32 bits; the sequence number it delivers is that number, never
  a wrapped one, and the status is the one written.
\<close>

theorem parse_ack_accepts:
  "parse_ack line s0 st0 = (True, s, st) \<longleftrightarrow>
     (\<exists>ds eol. line = ''ACK:'' @ ds @ '' '' @ ack_status_to_string st @ eol \<and>
        eol \<in> line_ends \<and> ds \<noteq> [] \<and> list_all is_digit ds \<and>
        digits_value ds < 2 ^ 32 \<and> s = of_nat (digits_value ds))" (is "?ok \<longleftrightarrow> ?shape")
proof
  assume ok: ?ok
  show ?shape
  proof (cases rule: parse_ack_cases [where line = line and ?s0.0 = s0 and ?st0.0 = st0])
    case (prefix ds rest)
    obtain eol where "eol \<in> line_ends" "line = strip_line_end line @ eol"
      using strip_line_end_split by blast
    with ok prefix show ?thesis
      by (auto simp: parse_ack_text parse_text_Some split: option.splits)
  next
    case bad
    with ok show ?thesis by simp
  qed
next
  assume ?shape
  then obtain ds eol where line: "line = (''ACK:'' @ ds @ '' '' @ ack_status_to_string st) @ eol"
    and "eol \<in> line_ends" and ds: "ds \<noteq> []" "list_all is_digit ds" "digits_value ds < 2 ^ 32"
      "s = of_nat (digits_value ds)" by auto
  then have "strip_line_end line = ''ACK:'' @ ds @ '' '' @ ack_status_to_string st"
    unfolding line using ack_status_last [of st] by (intro strip_line_end_append) auto
  moreover have "\<not> is_digit (CHR '' '')" by (simp add: is_digit_def)
  ultimately show ?ok using ds
    by (simp add: parse_ack_text parse_text_Some [THEN iffD2])
qed

text \<open>
  A failed parse has no side effect: whenever \<^verbatim>\<open>parse_ack\<close> returns false, the caller's
  sequence number and status are unchanged.
\<close>

theorem parse_ack_failure:
  "parse_ack line s0 st0 = (False, s, st) \<Longrightarrow> s = s0 \<and> st = st0"
  by (auto simp: parse_ack_def Let_def split: if_splits option.splits prod.splits)

text \<open>A sequence number one above the 32-bit range.\<close>

theorem parse_ack_failure_witness:
  "parse_ack ''ACK:4294967296 OK'' 7 ACK_BUSY = (False, 7, ACK_BUSY)"
proof -
  obtain ok s st where r: "parse_ack ''ACK:4294967296 OK'' 7 ACK_BUSY = (ok, s, st)"
    by (metis prod_cases3)
  have "fst (parse_ack ''ACK:4294967296 OK'' 7 ACK_BUSY) = False" by code_simp
  with r have "\<not> ok" by simp
  with r parse_ack_failure [of "''ACK:4294967296 OK''" 7 ACK_BUSY s st] show ?thesis by simp
qed

end
