(* ===== verification/Uart_Io.thy ===== *)
theory Uart_Io
  imports Ack_Parser
begin

unbundle bit_operations_syntax

text \<open>
  The parts of \<^verbatim>\<open>hand_bridge_node.cpp\<close> that talk to the serial device: \<^verbatim>\<open>open_uart\<close>, \<^verbatim>\<open>write_uart\<close>
  and the line assembly of \<^verbatim>\<open>uart_rx_worker\<close>. The system calls are the environment: what a call
  returns is an argument (a record of functions for the calls of \<^verbatim>\<open>open_uart\<close>, a list of results for
  the calls of \<^verbatim>\<open>write\<close>), and what the code asks the system to do is a result.
\<close>

section \<open>Opening the device\<close>

record Termios =
  c_cflag :: u32
  c_vmin :: u8
  c_vtime :: u8

text \<open>The control flags of Linux's \<^verbatim>\<open>termios.h\<close>.\<close>

definition CSIZE :: u32 where "CSIZE = 0x30"
definition CS8 :: u32 where "CS8 = 0x30"
definition CSTOPB :: u32 where "CSTOPB = 0x40"
definition CREAD :: u32 where "CREAD = 0x80"
definition PARENB :: u32 where "PARENB = 0x100"
definition CLOCAL :: u32 where "CLOCAL = 0x800"
definition CRTSCTS :: u32 where "CRTSCTS = 0x80000000"

lemmas termios_flags = CSIZE_def CS8_def CSTOPB_def CREAD_def PARENB_def CLOCAL_def CRTSCTS_def

text \<open>The system calls \<^verbatim>\<open>open_uart\<close> makes, and those of their effects a caller can observe.\<close>

record uart_os =
  os_open :: "string \<Rightarrow> int"
  os_tcgetattr :: "int \<Rightarrow> int \<times> Termios"
  os_cfmakeraw :: "Termios \<Rightarrow> Termios"
  os_cfsetispeed :: "Termios \<Rightarrow> int \<times> Termios"
  os_cfsetospeed :: "Termios \<Rightarrow> int \<times> Termios"
  os_tcsetattr :: "int \<Rightarrow> Termios \<Rightarrow> int"

datatype os_call =
  SysOpen string
  | SysClose int
  | SysTcsetattr int Termios
  | SysTcflush int

definition configure_tty :: "Termios \<Rightarrow> Termios" where
  "configure_tty tty =
     (let c0 = c_cflag tty AND NOT CSIZE;
          c1 = c0 OR CS8;
          c2 = c1 AND NOT PARENB;
          c3 = c2 AND NOT CSTOPB;
          c4 = c3 AND NOT CRTSCTS;
          c5 = c4 OR (CREAD OR CLOCAL)
      in tty\<lparr>c_cflag := c5, c_vmin := 0, c_vtime := 5\<rparr>)"

text \<open>The two \<^verbatim>\<open>cfset*speed\<close> calls of one condition; the second is made only if the first succeeds.\<close>

definition set_speeds :: "uart_os \<Rightarrow> Termios \<Rightarrow> bool \<times> Termios" where
  "set_speeds os tty =
     (case os_cfsetispeed os tty of (r1, tty1) \<Rightarrow>
       if r1 \<noteq> 0 then (False, tty1)
       else case os_cfsetospeed os tty1 of (r2, tty2) \<Rightarrow> (r2 = 0, tty2))"

text \<open>\<^verbatim>\<open>open_uart\<close>: the result, the value of \<^verbatim>\<open>uart_fd_\<close> afterwards, and the calls made.\<close>

definition open_uart :: "uart_os \<Rightarrow> string \<Rightarrow> int \<Rightarrow> int \<Rightarrow> bool \<times> int \<times> os_call list" where
  "open_uart os port baud fd0 =
     (if baud \<noteq> 115200 then (False, fd0, [])
      else
        let fd = os_open os port in
        if fd < 0 then (False, fd, [SysOpen port])
        else case os_tcgetattr os fd of (r, tty) \<Rightarrow>
          if r \<noteq> 0 then (False, -1, [SysOpen port, SysClose fd])
          else case set_speeds os (os_cfmakeraw os tty) of (ok, tty') \<Rightarrow>
            if \<not> ok then (False, -1, [SysOpen port, SysClose fd])
            else
              let tty'' = configure_tty tty' in
              if os_tcsetattr os fd tty'' \<noteq> 0
              then (False, -1, [SysOpen port, SysTcsetattr fd tty'', SysClose fd])
              else (True, fd, [SysOpen port, SysTcsetattr fd tty'', SysTcflush fd]))"

section \<open>Writing\<close>

datatype errno = EINTR | EAGAIN | EOTHER

text \<open>What a call of \<^verbatim>\<open>write\<close> or \<^verbatim>\<open>read\<close> returns: the value, and \<^verbatim>\<open>errno\<close> where it is negative.\<close>

type_synonym io_result = "int \<times> errno"

text \<open>
  A call of \<^verbatim>\<open>write\<close> or \<^verbatim>\<open>send\<close> on a buffer: where the pointer it is given points to in the buffer, how many
  bytes it is asked for, and what it returns. The bytes that leave are the first of those it is asked
  for, as many as it reports; the pointer and the length are what the code passes.
\<close>

record write_call =
  call_offset :: nat
  call_count :: nat
  call_result :: int

definition call_bytes :: "string \<Rightarrow> write_call \<Rightarrow> string" where
  "call_bytes buffer c = take (nat (call_result c)) (take (call_count c) (drop (call_offset c) buffer))"

definition wire_bytes :: "string \<Rightarrow> write_call list \<Rightarrow> string" where
  "wire_bytes buffer calls = concat (map (call_bytes buffer) calls)"

text \<open>
  The loop of \<^verbatim>\<open>write_uart\<close> over the results of its calls of \<^verbatim>\<open>write\<close>: the value returned and the
  calls made. \<open>None\<close> means that the loop asks for a call that has not returned.
\<close>

fun write_loop :: "string \<Rightarrow> nat \<Rightarrow> io_result list \<Rightarrow> (bool \<times> write_call list) option" where
  "write_loop data total_written results =
     (if total_written < length data
      then (case results of
              [] \<Rightarrow> None
            | (ret, err) # rest \<Rightarrow>
                let call = \<lparr>call_offset = total_written, call_count = length data - total_written, call_result = ret\<rparr> in
                if ret > 0
                then map_option (\<lambda>(ok, calls). (ok, call # calls)) (write_loop data (total_written + nat ret) rest)
                else if ret < 0 \<and> err = EINTR
                then map_option (\<lambda>(ok, calls). (ok, call # calls)) (write_loop data total_written rest)
                else Some (False, [call]))
      else Some (True, []))"

declare write_loop.simps [simp del]

definition write_uart :: "int \<Rightarrow> string \<Rightarrow> io_result list \<Rightarrow> (bool \<times> write_call list) option" where
  "write_uart fd data results = (if fd < 0 then Some (False, []) else write_loop data 0 results)"

section \<open>Receiving lines\<close>

record rx_state =
  rx_line :: string
  discard_line :: bool

definition new_rx_state :: rx_state where
  "new_rx_state = \<lparr>rx_line = [], discard_line = False\<rparr>"

text \<open>The body of the loop over the received characters; the first result is a line to parse.\<close>

definition rx_char :: "char \<Rightarrow> rx_state \<Rightarrow> string option \<times> rx_state" where
  "rx_char ch rx =
     (if ch = LF
      then (if \<not> discard_line rx \<and> rx_line rx \<noteq> [] then Some (rx_line rx) else None,
            rx\<lparr>rx_line := [], discard_line := False\<rparr>)
      else if \<not> discard_line rx
      then (if length (rx_line rx) < 95
            then (None, rx\<lparr>rx_line := rx_line rx @ [ch]\<rparr>)
            else (None, rx\<lparr>rx_line := [], discard_line := True\<rparr>))
      else (None, rx))"

text \<open>What the worker makes of a complete line: the arguments of \<^verbatim>\<open>on_ack\<close>, if it parses.\<close>

definition rx_ack :: "string \<Rightarrow> (u32 \<times> AckStatus) option" where
  "rx_ack line =
     (case parse_ack (line @ [LF]) 0 ACK_ERROR of
        (ok, seq, status) \<Rightarrow> if ok then Some (seq, status) else None)"

text \<open>The characters of a stretch of input, one after another.\<close>

fun rx_feed :: "string \<Rightarrow> rx_state \<Rightarrow> string list \<times> rx_state" where
  "rx_feed [] rx = ([], rx)"
| "rx_feed (c # cs) rx =
     (case rx_char c rx of (out, rx') \<Rightarrow>
       case rx_feed cs rx' of (outs, rx'') \<Rightarrow>
         ((case out of None \<Rightarrow> outs | Some l \<Rightarrow> l # outs), rx''))"

section \<open>Lemmas on writing\<close>

lemma wire_bytes_simps [simp]:
  "wire_bytes buffer [] = []" "wire_bytes buffer (c # calls) = call_bytes buffer c @ wire_bytes buffer calls"
  by (simp_all add: wire_bytes_def)

lemma write_loop_done: "length data \<le> t \<Longrightarrow> write_loop data t rs = Some (True, [])"
  by (simp add: write_loop.simps)

lemma write_loop_step:
  "t < length data \<Longrightarrow> write_loop data t ((ret, err) # rs) =
     (let call = \<lparr>call_offset = t, call_count = length data - t, call_result = ret\<rparr> in
      if ret > 0 then map_option (\<lambda>(ok, calls). (ok, call # calls)) (write_loop data (t + nat ret) rs)
      else if ret < 0 \<and> err = EINTR then map_option (\<lambda>(ok, calls). (ok, call # calls)) (write_loop data t rs)
      else Some (False, [call]))"
  by (simp add: write_loop.simps [of data t "(ret, err) # rs"])

lemma write_loop_nil: "t < length data \<Longrightarrow> write_loop data t [] = None"
  by (simp add: write_loop.simps)

text \<open>
  What the calls of a loop that returned have written: the data from the place where it started, to the
  end where it reports success, and not to the end where it reports failure. Every call is asked for all
  that is left.
\<close>

definition calls_to_end :: "string \<Rightarrow> write_call list \<Rightarrow> bool" where
  "calls_to_end data calls \<longleftrightarrow> list_all (\<lambda>c. call_offset c + call_count c = length data) calls"

lemma write_loop_wire:
  "write_loop data t rs = Some (ok, calls) \<Longrightarrow> t \<le> length data \<Longrightarrow>
     calls_to_end data calls \<and>
     (\<exists>n \<le> length data - t. wire_bytes data calls = take n (drop t data) \<and> (ok \<longleftrightarrow> n = length data - t))"
proof (induction rs arbitrary: t calls)
  case Nil
  then show ?case by (cases "t < length data") (auto simp: write_loop_nil write_loop_done calls_to_end_def)
next
  case (Cons r rs)
  obtain ret err where r: "r = (ret, err)" by (cases r)
  let ?call = "\<lparr>call_offset = t, call_count = length data - t, call_result = ret\<rparr>"
  consider "t = length data" | (short) "t < length data" "ret > 0" "t + nat ret \<le> length data"
    | (whole) "t < length data" "ret > 0" "length data < t + nat ret" | (none) "t < length data" "ret \<le> 0"
    using Cons.prems(2) by linarith
  then show ?case
  proof cases
    case 1
    with Cons.prems(1) show ?thesis by (simp add: write_loop_done calls_to_end_def)
  next
    case short
    with Cons.prems(1) r obtain calls' where loop: "write_loop data (t + nat ret) rs = Some (ok, calls')"
      and calls: "calls = ?call # calls'" by (auto simp: write_loop_step Let_def)
    from Cons.IH [OF loop short(3)] obtain n where n: "n \<le> length data - (t + nat ret)" "calls_to_end data calls'"
      "wire_bytes data calls' = take n (drop (t + nat ret) data)" "ok \<longleftrightarrow> n = length data - (t + nat ret)" by blast
    have "wire_bytes data calls = take (nat ret + n) (drop t data)"
      using n(3) short by (simp add: calls call_bytes_def take_add add.commute [of "nat ret" t])
    with n short show ?thesis by (intro conjI exI [of _ "nat ret + n"]) (auto simp: calls calls_to_end_def)
  next
    case whole
    with Cons.prems(1) r have "ok" "calls = [?call]" by (auto simp: write_loop_step write_loop_done Let_def)
    with whole show ?thesis by (auto simp: calls_to_end_def call_bytes_def)
  next
    case none
    show ?thesis
    proof (cases "ret < 0 \<and> err = EINTR")
      case True
      with none Cons.prems(1) r obtain calls' where loop: "write_loop data t rs = Some (ok, calls')"
        and calls: "calls = ?call # calls'" by (auto simp: write_loop_step Let_def)
      with Cons.IH [OF loop Cons.prems(2)] none show ?thesis by (auto simp: calls_to_end_def call_bytes_def)
    next
      case False
      with none Cons.prems(1) r have "\<not> ok" "calls = [?call]" by (auto simp: write_loop_step Let_def)
      with none show ?thesis by (auto simp: calls_to_end_def call_bytes_def)
    qed
  qed
qed

lemma write_uart_wire:
  assumes "write_uart fd data results = Some (ok, calls)"
  shows "\<exists>n. wire_bytes data calls = take n data" "0 \<le> fd \<Longrightarrow> ok \<longleftrightarrow> wire_bytes data calls = data"
proof -
  show "\<exists>n. wire_bytes data calls = take n data"
    using assms write_loop_wire [of data 0 results ok calls] by (cases "fd < 0") (auto simp: write_uart_def intro: exI [of _ 0])
  assume "0 \<le> fd"
  with assms write_loop_wire [of data 0 results ok calls] obtain n where "n \<le> length data"
    "wire_bytes data calls = take n data" "ok \<longleftrightarrow> n = length data" by (auto simp: write_uart_def)
  moreover from this(1) have "take n data = data \<longleftrightarrow> n = length data" by (metis length_take min.absorb2 take_all_iff order_refl)
  ultimately show "ok \<longleftrightarrow> wire_bytes data calls = data" by simp
qed

lemma write_loop_returns:
  "(\<forall>(ret, err) \<in> set rs. ret > 0 \<or> ret < 0 \<and> err = EINTR) \<Longrightarrow>
     length data - t \<le> length (filter (\<lambda>(ret, err). ret > 0) rs) \<Longrightarrow>
     \<exists>calls. write_loop data t rs = Some (True, calls)"
proof (induction rs arbitrary: t)
  case Nil
  then show ?case by (simp add: write_loop_done)
next
  case (Cons r rs)
  obtain ret err where r: "r = (ret, err)" by (cases r)
  show ?case
  proof (cases "t < length data")
    case True
    have "\<exists>calls. write_loop data (if ret > 0 then t + nat ret else t) rs = Some (True, calls)"
      using Cons.prems r by (intro Cons.IH) (auto split: if_splits)
    with Cons.prems r True show ?thesis by (auto simp: write_loop_step Let_def split: if_splits)
  qed (simp add: write_loop_done)
qed

section \<open>Lemmas on lines\<close>

text \<open>The reference: cut the input at every LF; the second result is the unfinished rest.\<close>

fun split_lines :: "string \<Rightarrow> string list \<times> string" where
  "split_lines [] = ([], [])"
| "split_lines (c # cs) =
     (case split_lines cs of (ls, rest) \<Rightarrow>
       if c = LF then ([] # ls, rest)
       else (case ls of [] \<Rightarrow> ([], c # rest) | l # ls' \<Rightarrow> ((c # l) # ls', rest)))"

definition line_kept :: "string \<Rightarrow> bool" where
  "line_kept l \<longleftrightarrow> l \<noteq> [] \<and> length l \<le> 95"

text \<open>Where the parser stands after the characters \<open>cur\<close> of the current line.\<close>

definition rx_at :: "string \<Rightarrow> rx_state" where
  "rx_at cur = (if length cur \<le> 95 then \<lparr>rx_line = cur, discard_line = False\<rparr>
                else \<lparr>rx_line = [], discard_line = True\<rparr>)"

definition prefix_first :: "string \<Rightarrow> string list \<times> string \<Rightarrow> string list \<times> string" where
  "prefix_first cur x =
     (case x of ([], rest) \<Rightarrow> ([], cur @ rest) | (l # ls, rest) \<Rightarrow> ((cur @ l) # ls, rest))"

lemma rx_at_char: "c \<noteq> LF \<Longrightarrow> rx_char c (rx_at cur) = (None, rx_at (cur @ [c]))"
  by (auto simp: rx_char_def rx_at_def)

lemma rx_at_LF:
  "rx_char LF (rx_at cur) = (if line_kept cur then Some cur else None, rx_at [])"
  by (auto simp: rx_char_def rx_at_def line_kept_def)

lemma rx_feed_reference:
  "rx_feed cs (rx_at cur) =
     (case prefix_first cur (split_lines cs) of (ls, rest) \<Rightarrow> (filter line_kept ls, rx_at rest))"
proof (induction cs arbitrary: cur)
  case Nil
  then show ?case by (simp add: prefix_first_def)
next
  case (Cons c cs)
  obtain ls rest where s: "split_lines cs = (ls, rest)" by fastforce
  show ?case
  proof (cases "c = LF")
    case True
    have "rx_feed cs (rx_at []) = (filter line_kept ls, rx_at rest)"
      using Cons.IH [of "[]"] s by (auto simp: prefix_first_def split: list.splits)
    with True s show ?thesis by (simp add: rx_at_LF prefix_first_def)
  next
    case False
    with Cons.IH [of "cur @ [c]"] s show ?thesis
      by (cases ls) (simp_all add: rx_at_char prefix_first_def)
  qed
qed

lemma new_rx_state_at: "new_rx_state = rx_at []"
  by (simp add: new_rx_state_def rx_at_def)

lemma rx_feed_append:
  "rx_feed (xs @ ys) rx =
     (case rx_feed xs rx of (a, rx') \<Rightarrow> case rx_feed ys rx' of (b, rx'') \<Rightarrow> (a @ b, rx''))"
  by (induction xs arbitrary: rx) (auto split: prod.splits option.splits)

lemma rx_line_bound: "length (rx_line rx) \<le> 95 \<Longrightarrow> length (rx_line (snd (rx_char c rx))) \<le> 95"
  by (auto simp: rx_char_def)

section \<open>Properties\<close>

lemma configure_tty_8n1:
  "c_cflag (configure_tty tty) AND CSIZE = CS8" "c_cflag (configure_tty tty) AND PARENB = 0"
  "c_cflag (configure_tty tty) AND CSTOPB = 0" "c_cflag (configure_tty tty) AND CRTSCTS = 0"
  "c_cflag (configure_tty tty) AND (CREAD OR CLOCAL) = CREAD OR CLOCAL"
  "c_vmin (configure_tty tty) = 0" "c_vtime (configure_tty tty) = 5"
  by (simp_all add: configure_tty_def Let_def termios_flags and.assoc bit.conj_disj_distrib2)

text \<open>
  \<^verbatim>\<open>open_uart\<close> on a closed node returns true exactly when it leaves an open descriptor; then
  the line was set to eight data bits, no parity, one stop bit, no hardware flow control, receiver
  on, and a read timeout of half a second, whatever the device was set to before. Where it fails
  after the device was opened, its last call closes that descriptor, so that none is leaked.
\<close>

theorem open_uart_contract:
  assumes "open_uart os port baud (-1) = (ok, fd, calls)"
  shows "(ok \<longleftrightarrow> 0 \<le> fd) \<and>
    (ok \<longrightarrow> baud = 115200 \<and> fd = os_open os port \<and> SysClose fd \<notin> set calls \<and>
       (\<exists>tty. SysTcsetattr fd tty \<in> set calls \<and> os_tcsetattr os fd tty = 0 \<and>
          c_cflag tty AND CSIZE = CS8 \<and> c_cflag tty AND PARENB = 0 \<and> c_cflag tty AND CSTOPB = 0 \<and>
          c_cflag tty AND CRTSCTS = 0 \<and> c_cflag tty AND (CREAD OR CLOCAL) = CREAD OR CLOCAL \<and>
          c_vmin tty = 0 \<and> c_vtime tty = 5)) \<and>
    (\<not> ok \<and> SysOpen port \<in> set calls \<and> 0 \<le> os_open os port \<longrightarrow>
       last calls = SysClose (os_open os port))"
proof (cases ok)
  case True
  with assms obtain tty where "fd = os_open os port" "baud = 115200" "\<not> os_open os port < 0"
    "os_tcsetattr os fd (configure_tty tty) = 0"
    "calls = [SysOpen port, SysTcsetattr fd (configure_tty tty), SysTcflush fd]"
    by (auto simp: open_uart_def Let_def split: if_splits prod.splits)
  with True show ?thesis by (auto simp: configure_tty_8n1)
next
  case False
  with assms show ?thesis by (auto simp: open_uart_def Let_def split: if_splits prod.splits)
qed

text \<open>A device that opens as descriptor 3 and whose first configuration call fails.\<close>

theorem open_uart_contract_witness:
  "let os = \<lparr>os_open = \<lambda>_. 3, os_tcgetattr = \<lambda>_. (-1, \<lparr>c_cflag = 0, c_vmin = 1, c_vtime = 0\<rparr>),
             os_cfmakeraw = id, os_cfsetispeed = Pair 0, os_cfsetospeed = Pair 0,
             os_tcsetattr = \<lambda>_ _. 0\<rparr>
   in open_uart os ''/dev/ttyUSB0'' 115200 (-1) =
        (False, -1, [SysOpen ''/dev/ttyUSB0'', SysClose 3]) \<and>
      last (snd (snd (open_uart os ''/dev/ttyUSB0'' 115200 (-1)))) = SysClose 3"
proof -
  let ?os = "\<lparr>os_open = \<lambda>_. 3, os_tcgetattr = \<lambda>_. (-1, \<lparr>c_cflag = 0, c_vmin = 1, c_vtime = 0\<rparr>),
      os_cfmakeraw = id, os_cfsetispeed = Pair 0, os_cfsetospeed = Pair 0, os_tcsetattr = \<lambda>_ _. 0\<rparr>"
  have run: "open_uart ?os ''/dev/ttyUSB0'' 115200 (-1) =
      (False, -1, [SysOpen ''/dev/ttyUSB0'', SysClose 3])"
    by (simp add: open_uart_def Let_def)
  from open_uart_contract [OF run] run show ?thesis by simp
qed

text \<open>
  Claim C23. \<^verbatim>\<open>write_uart\<close> writes the data, in order and once, under short writes and interrupted calls
  alike: every call is given the rest of the data from the place its pointer points to up to the end
  and nothing beyond; whatever the calls return, the bytes that left are an initial part of the data;
  and the value returned is true if and only if they are all of it. And it does return: after as many
  productive calls as there are bytes, if no call fails, with any number of \<^verbatim>\<open>EINTR\<close> in between, all of
  the data has left.
\<close>

theorem write_uart_all_bytes:
  assumes "0 \<le> fd"
  shows "(\<forall>ok calls. write_uart fd data results = Some (ok, calls) \<longrightarrow>
      list_all (\<lambda>c. call_offset c + call_count c = length data) calls \<and>
      (\<exists>n. wire_bytes data calls = take n data) \<and> (ok \<longleftrightarrow> wire_bytes data calls = data)) \<and>
    ((\<forall>(ret, err) \<in> set results. ret > 0 \<or> ret < 0 \<and> err = EINTR) \<and>
       length data \<le> length (filter (\<lambda>(ret, err). ret > 0) results) \<longrightarrow>
     (\<exists>calls. write_uart fd data results = Some (True, calls) \<and> wire_bytes data calls = data))"
proof (intro conjI allI impI)
  fix ok calls assume run: "write_uart fd data results = Some (ok, calls)"
  from write_uart_wire [OF run] assms
  show "\<exists>n. wire_bytes data calls = take n data" "ok \<longleftrightarrow> wire_bytes data calls = data" by blast+
  show "list_all (\<lambda>c. call_offset c + call_count c = length data) calls"
    using write_loop_wire [of data 0 results ok calls] run assms by (simp add: write_uart_def calls_to_end_def)
next
  assume "(\<forall>(ret, err) \<in> set results. ret > 0 \<or> ret < 0 \<and> err = EINTR) \<and>
    length data \<le> length (filter (\<lambda>(ret, err). ret > 0) results)"
  with write_loop_returns [of results data 0] assms obtain calls where "write_uart fd data results = Some (True, calls)"
    by (auto simp: write_uart_def)
  with write_uart_wire(2) [OF this assms] show "\<exists>calls. write_uart fd data results = Some (True, calls) \<and> wire_bytes data calls = data"
    by blast
qed

text \<open>Five bytes in two short writes, the second interrupted once; and a write that fails.\<close>

theorem write_uart_all_bytes_witness:
  "let calls = [\<lparr>call_offset = 0, call_count = 5, call_result = 2\<rparr>, \<lparr>call_offset = 2, call_count = 3, call_result = -1\<rparr>,
        \<lparr>call_offset = 2, call_count = 3, call_result = 3\<rparr>];
       calls' = [\<lparr>call_offset = 0, call_count = 5, call_result = 2\<rparr>, \<lparr>call_offset = 2, call_count = 3, call_result = 0\<rparr>]
   in write_uart 3 ''HELLO'' [(2, EOTHER), (-1, EINTR), (3, EOTHER)] = Some (True, calls) \<and>
      wire_bytes ''HELLO'' calls = ''HELLO'' \<and>
      write_uart 3 ''HELLO'' [(2, EOTHER), (0, EOTHER)] = Some (False, calls') \<and> wire_bytes ''HELLO'' calls' \<noteq> ''HELLO''"
  (is "let calls = ?calls; calls' = ?calls' in _")
proof -
  have run: "write_uart 3 ''HELLO'' [(2, EOTHER), (-1, EINTR), (3, EOTHER)] = Some (True, ?calls)"
    by (simp add: write_uart_def write_loop_step write_loop_done)
  have fail: "write_uart 3 ''HELLO'' [(2, EOTHER), (0, EOTHER)] = Some (False, ?calls')"
    by (simp add: write_uart_def write_loop_step)
  have "wire_bytes ''HELLO'' ?calls = ''HELLO''" 
    using write_uart_all_bytes [OF zero_le_numeral, THEN conjunct1, THEN spec, THEN spec, THEN mp, OF run] by blast
  moreover have "wire_bytes ''HELLO'' ?calls' \<noteq> ''HELLO''" 
    using write_uart_all_bytes [OF zero_le_numeral, THEN conjunct1, THEN spec, THEN spec, THEN mp, OF fail] by blast
  ultimately show ?thesis using run fail unfolding Let_def by blast
qed

text \<open>
  Claim C24. Line assembly: from the characters received, in whatever pieces they are read, the
  receive worker passes on exactly the lines between line feeds, in order, except for empty lines
  and lines of more than 95 characters, which are dropped whole; the characters kept for an
  unfinished line never exceed 95.
\<close>

theorem rx_lines_exact:
  "fst (rx_feed (concat pieces) new_rx_state) = filter line_kept (fst (split_lines (concat pieces))) \<and>
   snd (rx_feed (concat pieces) new_rx_state) = rx_at (snd (split_lines (concat pieces))) \<and>
   foldl (\<lambda>(ls, rx) piece. case rx_feed piece rx of (ls', rx') \<Rightarrow> (ls @ ls', rx')) ([], new_rx_state) pieces =
     rx_feed (concat pieces) new_rx_state \<and>
   length (rx_line (snd (rx_feed (concat pieces) new_rx_state))) \<le> 95"
proof -
  have whole: "rx_feed cs new_rx_state =
      (filter line_kept (fst (split_lines cs)), rx_at (snd (split_lines cs)))" for cs
    using rx_feed_reference [of cs "[]"]
    by (cases "split_lines cs") (auto simp: new_rx_state_at prefix_first_def split: list.splits)
  have pieces: "foldl (\<lambda>(ls, rx) piece. case rx_feed piece rx of (ls', rx') \<Rightarrow> (ls @ ls', rx')) (acc, rx) pieces =
      (case rx_feed (concat pieces) rx of (ls, rx') \<Rightarrow> (acc @ ls, rx'))" for acc rx
    by (induction pieces arbitrary: acc rx) (auto simp: rx_feed_append split: prod.splits)
  show ?thesis by (simp add: whole pieces rx_at_def)
qed

end
