(* ===== verification/Retry_Policy.thy ===== *)
theory Retry_Policy
  imports Std_Map Ack_Parser
begin

text \<open>
  The request book-keeping of the hand bridge (\<^verbatim>\<open>hand_bridge/include/hand_bridge/retry_policy.hpp\<close>):
  a map from sequence numbers to requests, each with a life cycle of ten states, an
  acknowledgement deadline and a count of the retries used. The theory states the life cycle as a
  relation every operation follows, the exact effect of a poll, and a send budget: the contract
  \<open>send_ledger\<close>, interpreted here for the policy and later for the whole node.
\<close>

section \<open>Data\<close>

datatype RequestState =
  QUEUED | WAITING_ACK | EXECUTING | RETRY_QUEUED | SUCCEEDED
  | PREEMPTED | BUSY | ERROR | SUPERSEDED | RESULT_UNKNOWN

record RetryFrame =
  rf_seq :: u32
  rf_frame :: string

text \<open>
  \<^verbatim>\<open>steady_clock::time_point\<close>: nanoseconds since some origin. The 64-bit count is kept unbounded; it
  would wrap after 292 years.
\<close>

type_synonym TimePoint = int

definition milliseconds :: "int \<Rightarrow> int" where
  "milliseconds n = n * 1000000"

definition MAX_RETRIES :: nat where "MAX_RETRIES = 2"
definition ACK_TIMEOUT :: int where "ACK_TIMEOUT = milliseconds 1500"
definition EXEC_TIMEOUT :: int where "EXEC_TIMEOUT = milliseconds 15000"

record Request =
  rq_seq :: u32
  rq_frame :: string
  rq_is_stop :: bool
  rq_state :: RequestState
  rq_retries_used :: nat
  rq_deadline :: TimePoint

text \<open>The default member initialisers of \<^verbatim>\<open>struct Request\<close>.\<close>

definition default_Request :: Request where
  "default_Request =
     \<lparr>rq_seq = 0, rq_frame = [], rq_is_stop = False, rq_state = QUEUED, rq_retries_used = 0,
      rq_deadline = 0\<rparr>"

record RetryPolicy =
  requests :: "(u32, Request) std_map"

definition new_RetryPolicy :: RetryPolicy where
  "new_RetryPolicy = \<lparr>requests = []\<rparr>"

section \<open>Operations\<close>

definition start :: "u32 \<Rightarrow> string \<Rightarrow> bool \<Rightarrow> RetryPolicy \<Rightarrow> bool \<times> RetryPolicy" where
  "start seq frame is_stop p =
     (if seq = 0 \<or> frame = [] then (False, p)
      else
        let request = default_Request\<lparr>rq_seq := seq, rq_frame := frame, rq_is_stop := is_stop\<rparr> in
        case std_emplace seq request (requests p) of
          (m, inserted) \<Rightarrow> (inserted, p\<lparr>requests := m\<rparr>))"

definition mark_sent :: "u32 \<Rightarrow> TimePoint \<Rightarrow> RetryPolicy \<Rightarrow> bool \<times> RetryPolicy" where
  "mark_sent seq now p =
     (case std_find seq (requests p) of
        None \<Rightarrow> (False, p)
      | Some request \<Rightarrow>
          if rq_state request \<noteq> QUEUED \<and> rq_state request \<noteq> RETRY_QUEUED then (False, p)
          else (True, p\<lparr>requests := std_put seq
                 (request\<lparr>rq_state := WAITING_ACK, rq_deadline := now + ACK_TIMEOUT\<rparr>)
                 (requests p)\<rparr>))"

definition mark_send_failed :: "u32 \<Rightarrow> RetryPolicy \<Rightarrow> bool \<times> RetryPolicy" where
  "mark_send_failed seq p =
     (case std_find seq (requests p) of
        None \<Rightarrow> (False, p)
      | Some request \<Rightarrow>
          if rq_state request \<noteq> QUEUED \<and> rq_state request \<noteq> RETRY_QUEUED then (False, p)
          else (True, p\<lparr>requests := std_put seq (request\<lparr>rq_state := RESULT_UNKNOWN\<rparr>)
                 (requests p)\<rparr>))"

text \<open>What an acknowledgement does to the request it names; \<open>None\<close> is \<^verbatim>\<open>return false\<close>.\<close>

definition ack_request :: "AckStatus \<Rightarrow> TimePoint \<Rightarrow> Request \<Rightarrow> Request option" where
  "ack_request status now request =
     (if rq_state request = SUPERSEDED
      then (if status = ACK_PREEMPTED then Some (request\<lparr>rq_state := PREEMPTED\<rparr>)
            else if status = ACK_OK then Some (request\<lparr>rq_state := SUCCEEDED\<rparr>)
            else if status = ACK_ERROR then Some (request\<lparr>rq_state := ERROR\<rparr>)
            else None)
      else if rq_state request \<noteq> WAITING_ACK \<and> rq_state request \<noteq> EXECUTING \<and>
              rq_state request \<noteq> RETRY_QUEUED
      then None
      else Some (case status of
          ACK_IN_PROGRESS \<Rightarrow> request\<lparr>rq_state := EXECUTING, rq_deadline := now + EXEC_TIMEOUT\<rparr>
        | ACK_OK \<Rightarrow> request\<lparr>rq_state := SUCCEEDED\<rparr>
        | ACK_PREEMPTED \<Rightarrow> request\<lparr>rq_state := PREEMPTED\<rparr>
        | ACK_BUSY \<Rightarrow> request\<lparr>rq_state := BUSY\<rparr>
        | ACK_ERROR \<Rightarrow> request\<lparr>rq_state := ERROR\<rparr>))"

definition on_ack :: "u32 \<Rightarrow> AckStatus \<Rightarrow> TimePoint \<Rightarrow> RetryPolicy \<Rightarrow> bool \<times> RetryPolicy" where
  "on_ack seq status now p =
     (case std_find seq (requests p) of
        None \<Rightarrow> (False, p)
      | Some request \<Rightarrow>
          (case ack_request status now request of
             None \<Rightarrow> (False, p)
           | Some request' \<Rightarrow> (True, p\<lparr>requests := std_put seq request' (requests p)\<rparr>)))"

text \<open>The body of the loop of \<^verbatim>\<open>poll\<close>: the request afterwards and the frame pushed, if any.\<close>

definition poll_request :: "TimePoint \<Rightarrow> Request \<Rightarrow> Request \<times> RetryFrame option" where
  "poll_request now request =
     (if rq_state request \<noteq> WAITING_ACK \<and> rq_state request \<noteq> EXECUTING then (request, None)
      else if now < rq_deadline request then (request, None)
      else if rq_retries_used request \<ge> MAX_RETRIES
      then (request\<lparr>rq_state := RESULT_UNKNOWN\<rparr>, None)
      else (request\<lparr>rq_retries_used := rq_retries_used request + 1, rq_state := RETRY_QUEUED\<rparr>,
            Some \<lparr>rf_seq = rq_seq request, rf_frame = rq_frame request\<rparr>))"

fun poll_loop :: "TimePoint \<Rightarrow> (u32, Request) std_map \<Rightarrow> (u32, Request) std_map \<times> RetryFrame list" where
  "poll_loop now [] = ([], [])"
| "poll_loop now ((k, request) # rest) =
     (case poll_request now request of (request', pushed) \<Rightarrow>
       (case poll_loop now rest of (rest', output) \<Rightarrow>
         ((k, request') # rest', (case pushed of None \<Rightarrow> output | Some f \<Rightarrow> f # output))))"

definition poll :: "TimePoint \<Rightarrow> RetryPolicy \<Rightarrow> RetryFrame list \<times> RetryPolicy" where
  "poll now p = (case poll_loop now (requests p) of (m, output) \<Rightarrow> (output, p\<lparr>requests := m\<rparr>))"

definition cancel_request :: "Request \<Rightarrow> Request" where
  "cancel_request request =
     (if rq_is_stop request then request
      else if rq_state request = QUEUED \<or> rq_state request = WAITING_ACK \<or>
              rq_state request = EXECUTING \<or> rq_state request = RETRY_QUEUED
      then request\<lparr>rq_state := SUPERSEDED\<rparr>
      else request)"

definition cancel_non_stop :: "RetryPolicy \<Rightarrow> RetryPolicy" where
  "cancel_non_stop p = p\<lparr>requests := std_for_each cancel_request (requests p)\<rparr>"

definition find_request :: "u32 \<Rightarrow> RetryPolicy \<Rightarrow> Request option" where
  "find_request seq p = std_find seq (requests p)"

definition should_transmit :: "u32 \<Rightarrow> RetryPolicy \<Rightarrow> bool" where
  "should_transmit seq p =
     (case find_request seq p of
        None \<Rightarrow> False
      | Some request \<Rightarrow> rq_state request = QUEUED \<or> rq_state request = RETRY_QUEUED)"

section \<open>The contract of a send ledger\<close>

text \<open>
  A book that limits how often something is sent. Every item has a credit; an operation that sends
  an item pays one unit of its credit, no operation raises the credit of a registered item, and an
  item is registered with at most \<open>budget\<close> units. The conclusion, proved once: over any sequence of
  operations an item is sent at most \<open>budget\<close> times.
\<close>

locale send_ledger =
  fixes step :: "'op \<Rightarrow> 's \<Rightarrow> 's"
    and sends :: "'op \<Rightarrow> 's \<Rightarrow> 'k \<Rightarrow> nat"
    and credit :: "'s \<Rightarrow> 'k \<Rightarrow> nat"
    and known :: "'s \<Rightarrow> 'k \<Rightarrow> bool"
    and inv :: "'s \<Rightarrow> bool"
    and budget :: nat
  assumes inv_step: "inv s \<Longrightarrow> inv (step op s)"
    and known_step: "inv s \<Longrightarrow> known s k \<Longrightarrow> known (step op s) k"
    and pay: "inv s \<Longrightarrow> known s k \<Longrightarrow> sends op s k + credit (step op s) k \<le> credit s k"
    and no_send: "inv s \<Longrightarrow> \<not> known s k \<Longrightarrow> sends op s k = 0"
    and grant: "inv s \<Longrightarrow> \<not> known s k \<Longrightarrow> credit (step op s) k \<le> budget"
begin

fun run :: "'op list \<Rightarrow> 's \<Rightarrow> 's" where
  "run [] s = s"
| "run (op # ops) s = run ops (step op s)"

fun total :: "'op list \<Rightarrow> 's \<Rightarrow> 'k \<Rightarrow> nat" where
  "total [] s k = 0"
| "total (op # ops) s k = sends op s k + total ops (step op s) k"

lemma run_append: "run (xs @ ys) s = run ys (run xs s)"
  by (induction xs arbitrary: s) auto

lemma inv_run: "inv s \<Longrightarrow> inv (run ops s)"
  by (induction ops arbitrary: s) (auto intro: inv_step)

lemma known_run: "inv s \<Longrightarrow> known s k \<Longrightarrow> known (run ops s) k"
  by (induction ops arbitrary: s) (auto intro: inv_step known_step)

lemma total_le_credit: "inv s \<Longrightarrow> known s k \<Longrightarrow> total ops s k + credit (run ops s) k \<le> credit s k"
proof (induction ops arbitrary: s)
  case (Cons op ops)
  have "total ops (step op s) k + credit (run ops (step op s)) k \<le> credit (step op s) k"
    using Cons by (blast intro: inv_step known_step)
  with pay [OF Cons.prems, of op] show ?case by simp
qed simp

lemma total_le_budget: "inv s \<Longrightarrow> \<not> known s k \<Longrightarrow> total ops s k \<le> budget"
proof (induction ops arbitrary: s)
  case (Cons op ops)
  then have inv': "inv (step op s)" by (blast intro: inv_step)
  show ?case
  proof (cases "known (step op s) k")
    case True
    from total_le_credit [OF inv' True, of ops] grant [OF Cons.prems, of op]
    show ?thesis by (simp add: no_send [OF Cons.prems])
  next
    case False
    from Cons.IH [OF inv' False] show ?thesis by (simp add: no_send [OF Cons.prems])
  qed
qed simp

text \<open>An item without credit is never sent again.\<close>

lemma no_credit_no_send: "inv s \<Longrightarrow> known s k \<Longrightarrow> credit s k = 0 \<Longrightarrow> total ops s k = 0"
  using total_le_credit [of s k ops] by simp

end

section \<open>Operations as data\<close>

datatype policy_op =
  Start u32 string bool
  | MarkSent u32 TimePoint
  | MarkSendFailed u32
  | OnAck u32 AckStatus TimePoint
  | Poll TimePoint
  | CancelNonStop

fun policy_step :: "policy_op \<Rightarrow> RetryPolicy \<Rightarrow> RetryPolicy" where
  "policy_step (Start seq frame is_stop) p = snd (start seq frame is_stop p)"
| "policy_step (MarkSent seq now) p = snd (mark_sent seq now p)"
| "policy_step (MarkSendFailed seq) p = snd (mark_send_failed seq p)"
| "policy_step (OnAck seq status now) p = snd (on_ack seq status now p)"
| "policy_step (Poll now) p = snd (poll now p)"
| "policy_step CancelNonStop p = cancel_non_stop p"

text \<open>The loop of \<^verbatim>\<open>poll\<close> visits every entry once, in key order.\<close>

lemma poll_loop_eq:
  "poll_loop now m =
     (std_for_each (fst \<circ> poll_request now) m, List.map_filter (snd \<circ> poll_request now \<circ> snd) m)"
  by (induction now m rule: poll_loop.induct)
    (auto simp: std_for_each_def List.map_filter_simps split: prod.splits option.splits)

lemma requests_poll: "requests (snd (poll now p)) = std_for_each (fst \<circ> poll_request now) (requests p)"
  by (simp add: poll_def poll_loop_eq)

lemma fst_poll: "fst (poll now p) = List.map_filter (snd \<circ> poll_request now \<circ> snd) (requests p)"
  by (simp add: poll_def poll_loop_eq)

section \<open>The well-formedness of the book\<close>

definition request_ok :: "u32 \<Rightarrow> Request \<Rightarrow> bool" where
  "request_ok k r \<longleftrightarrow> k \<noteq> 0 \<and> rq_seq r = k \<and> rq_frame r \<noteq> [] \<and> rq_retries_used r \<le> MAX_RETRIES"

definition policy_inv :: "RetryPolicy \<Rightarrow> bool" where
  "policy_inv p \<longleftrightarrow> std_ordered (requests p) \<and> smap.all_values request_ok (requests p)"

lemma policy_inv_new: "policy_inv new_RetryPolicy"
  by (simp add: policy_inv_def new_RetryPolicy_def smap.all_values_def)

lemma request_ok_poll: "request_ok k r \<Longrightarrow> request_ok k (fst (poll_request now r))"
  by (auto simp: request_ok_def poll_request_def)

lemma request_ok_cancel: "request_ok k r \<Longrightarrow> request_ok k (cancel_request r)"
  by (auto simp: request_ok_def cancel_request_def)

lemma request_ok_ack: "request_ok k r \<Longrightarrow> ack_request st now r = Some r' \<Longrightarrow> request_ok k r'"
  by (auto simp: request_ok_def ack_request_def split: if_splits AckStatus.splits)

lemma policy_inv_put:
  "policy_inv p \<Longrightarrow> request_ok k r \<Longrightarrow> policy_inv (p\<lparr>requests := std_put k r (requests p)\<rparr>)"
  by (simp add: policy_inv_def smap.invar_put smap.all_values_put)

lemma policy_inv_find: "policy_inv p \<Longrightarrow> std_find k (requests p) = Some r \<Longrightarrow> request_ok k r"
  by (auto simp: policy_inv_def dest: smap.all_valuesD)

lemma policy_inv_step: "policy_inv p \<Longrightarrow> policy_inv (policy_step op p)"
proof (cases op)
  case (Start seq frame is_stop)
  assume "policy_inv p"
  with Start show ?thesis
    by (cases "std_find seq (requests p)")
      (auto simp: start_def Let_def default_Request_def request_ok_def intro!: policy_inv_put)
next
  case (MarkSent seq now)
  assume inv: "policy_inv p"
  with MarkSent show ?thesis
    using policy_inv_find [OF inv, of seq]
    by (auto simp: mark_sent_def request_ok_def intro!: policy_inv_put split: option.splits)
next
  case (MarkSendFailed seq)
  assume inv: "policy_inv p"
  with MarkSendFailed show ?thesis
    using policy_inv_find [OF inv, of seq]
    by (auto simp: mark_send_failed_def request_ok_def intro!: policy_inv_put split: option.splits)
next
  case (OnAck seq status now)
  assume inv: "policy_inv p"
  with OnAck show ?thesis
    using policy_inv_find [OF inv, of seq]
    by (auto simp: on_ack_def intro!: policy_inv_put dest: request_ok_ack split: option.splits)
next
  case (Poll now)
  assume "policy_inv p"
  with Poll show ?thesis
    by (simp add: policy_inv_def requests_poll smap.invar_for_each
        smap.all_values_for_each [where P = request_ok] request_ok_poll)
next
  case CancelNonStop
  assume "policy_inv p"
  with CancelNonStop show ?thesis
    by (simp add: policy_inv_def cancel_non_stop_def smap.invar_for_each
        smap.all_values_for_each [where P = request_ok] request_ok_cancel)
qed

section \<open>The life cycle of a request\<close>

text \<open>
  The edges of the state diagram. A queued request is sent, fails to be sent or is superseded; a
  sent one is acknowledged, times out or is superseded; a superseded one can only still be
  reported as preempted, succeeded or failed.
\<close>

inductive life_edge :: "RequestState \<Rightarrow> RequestState \<Rightarrow> bool" where
  sent: "s \<in> {QUEUED, RETRY_QUEUED} \<Longrightarrow> life_edge s WAITING_ACK"
| send_failed: "s \<in> {QUEUED, RETRY_QUEUED} \<Longrightarrow> life_edge s RESULT_UNKNOWN"
| progress: "s \<in> {WAITING_ACK, EXECUTING, RETRY_QUEUED} \<Longrightarrow> life_edge s EXECUTING"
| answered: "s \<in> {WAITING_ACK, EXECUTING, RETRY_QUEUED} \<Longrightarrow>
    t \<in> {SUCCEEDED, PREEMPTED, BUSY, ERROR} \<Longrightarrow> life_edge s t"
| timeout: "s \<in> {WAITING_ACK, EXECUTING} \<Longrightarrow> life_edge s RETRY_QUEUED"
| exhausted: "s \<in> {WAITING_ACK, EXECUTING} \<Longrightarrow> life_edge s RESULT_UNKNOWN"
| superseded: "s \<in> {QUEUED, WAITING_ACK, EXECUTING, RETRY_QUEUED} \<Longrightarrow> life_edge s SUPERSEDED"
| late: "t \<in> {PREEMPTED, SUCCEEDED, ERROR} \<Longrightarrow> life_edge SUPERSEDED t"

definition terminal :: "RequestState \<Rightarrow> bool" where
  "terminal s \<longleftrightarrow> s \<in> {SUCCEEDED, PREEMPTED, BUSY, ERROR, RESULT_UNKNOWN}"

lemma terminal_no_edge: "terminal s \<Longrightarrow> \<not> life_edge s t"
  by (auto simp: terminal_def elim: life_edge.cases)

text \<open>How one operation may change one request: not at all, or along an edge.\<close>

definition evolves :: "Request \<Rightarrow> Request \<Rightarrow> bool" where
  "evolves r r' \<longleftrightarrow> r' = r \<or>
     (life_edge (rq_state r) (rq_state r') \<and> rq_seq r' = rq_seq r \<and> rq_frame r' = rq_frame r \<and>
      rq_is_stop r' = rq_is_stop r \<and>
      rq_retries_used r' = rq_retries_used r + (if rq_state r' = RETRY_QUEUED then 1 else 0))"

lemma evolves_refl [simp]: "evolves r r"
  by (simp add: evolves_def)

lemma evolves_poll: "evolves r (fst (poll_request now r))"
  by (auto simp: evolves_def poll_request_def intro: life_edge.intros)

lemma evolves_cancel: "evolves r (cancel_request r)"
  by (auto simp: evolves_def cancel_request_def intro: life_edge.intros)

lemma evolves_ack: "ack_request st now r = Some r' \<Longrightarrow> evolves r r'"
  by (cases st) (auto simp: evolves_def ack_request_def intro: life_edge.intros split: if_splits)

lemma evolves_sent:
  "rq_state r \<in> {QUEUED, RETRY_QUEUED} \<Longrightarrow>
     evolves r (r\<lparr>rq_state := WAITING_ACK, rq_deadline := d\<rparr>)"
  by (auto simp: evolves_def intro: life_edge.intros)

lemma evolves_failed:
  "rq_state r \<in> {QUEUED, RETRY_QUEUED} \<Longrightarrow> evolves r (r\<lparr>rq_state := RESULT_UNKNOWN\<rparr>)"
  by (auto simp: evolves_def intro: life_edge.intros)

lemma policy_step_evolves:
  assumes "policy_inv p" and "find_request k p = Some r"
  shows "\<exists>r'. find_request k (policy_step op p) = Some r' \<and> evolves r r'"
proof (cases op)
  case (Start seq frame is_stop)
  with assms show ?thesis
    by (cases "std_find seq (requests p)")
      (auto simp: find_request_def start_def Let_def smap.find_put policy_inv_def)
next
  case (MarkSent seq now)
  with assms show ?thesis
    by (auto simp: find_request_def mark_sent_def smap.find_put policy_inv_def
        intro: evolves_sent split: option.splits)
next
  case (MarkSendFailed seq)
  with assms show ?thesis
    by (auto simp: find_request_def mark_send_failed_def smap.find_put policy_inv_def
        intro: evolves_failed split: option.splits)
next
  case (OnAck seq status now)
  with assms show ?thesis
    by (auto simp: find_request_def on_ack_def smap.find_put policy_inv_def
        intro: evolves_ack split: option.splits)
next
  case (Poll now)
  with assms show ?thesis
    by (simp add: find_request_def requests_poll smap.find_for_each evolves_poll)
next
  case CancelNonStop
  with assms show ?thesis
    by (simp add: find_request_def cancel_non_stop_def smap.find_for_each evolves_cancel)
qed

text \<open>Only \<^verbatim>\<open>start\<close> registers, and what it registers is fresh.\<close>

lemma policy_step_new:
  assumes "policy_inv p" and "find_request k p = None"
    and "find_request k (policy_step op p) = Some r"
  shows "\<exists>frame is_stop. op = Start k frame is_stop \<and>
    r = default_Request\<lparr>rq_seq := k, rq_frame := frame, rq_is_stop := is_stop\<rparr>"
proof (cases op)
  case (Start seq frame is_stop)
  with assms show ?thesis
    by (cases "std_find seq (requests p)")
      (auto simp: find_request_def start_def Let_def smap.find_put policy_inv_def split: if_splits)
qed (use assms in \<open>auto simp: find_request_def mark_sent_def mark_send_failed_def on_ack_def
    requests_poll cancel_non_stop_def smap.find_put smap.find_for_each policy_inv_def
    split: option.splits if_splits\<close>)

section \<open>The send budget\<close>

text \<open>How many more times a request can be handed to the UART.\<close>

definition request_credit :: "Request \<Rightarrow> nat" where
  "request_credit r =
     (case rq_state r of
        QUEUED \<Rightarrow> 1 + (MAX_RETRIES - rq_retries_used r)
      | RETRY_QUEUED \<Rightarrow> 1 + (MAX_RETRIES - rq_retries_used r)
      | WAITING_ACK \<Rightarrow> MAX_RETRIES - rq_retries_used r
      | EXECUTING \<Rightarrow> MAX_RETRIES - rq_retries_used r
      | _ \<Rightarrow> 0)"

definition policy_credit :: "RetryPolicy \<Rightarrow> u32 \<Rightarrow> nat" where
  "policy_credit p k = (case find_request k p of None \<Rightarrow> 0 | Some r \<Rightarrow> request_credit r)"

text \<open>A successful \<^verbatim>\<open>mark_sent\<close> or \<^verbatim>\<open>mark_send_failed\<close> records one attempt to send.\<close>

fun policy_sends :: "policy_op \<Rightarrow> RetryPolicy \<Rightarrow> u32 \<Rightarrow> nat" where
  "policy_sends (MarkSent seq now) p k = (if seq = k \<and> fst (mark_sent seq now p) then 1 else 0)"
| "policy_sends (MarkSendFailed seq) p k = (if seq = k \<and> fst (mark_send_failed seq p) then 1 else 0)"
| "policy_sends _ p k = 0"

definition registered :: "RetryPolicy \<Rightarrow> u32 \<Rightarrow> bool" where
  "registered p k \<longleftrightarrow> find_request k p \<noteq> None"

text \<open>Along an edge of the life cycle the credit never grows, and a send costs one unit.\<close>

lemma request_credit_evolves:
  "evolves r r' \<Longrightarrow> rq_retries_used r' \<le> MAX_RETRIES \<Longrightarrow> request_credit r' \<le> request_credit r"
  by (auto simp: evolves_def request_credit_def elim!: life_edge.cases)

lemma mark_sent_cases:
  assumes "fst (mark_sent seq now p)"
  obtains r where "find_request seq p = Some r" "rq_state r \<in> {QUEUED, RETRY_QUEUED}"
    "snd (mark_sent seq now p) = p\<lparr>requests := std_put seq
       (r\<lparr>rq_state := WAITING_ACK, rq_deadline := now + ACK_TIMEOUT\<rparr>) (requests p)\<rparr>"
  using assms by (auto simp: mark_sent_def find_request_def split: option.splits if_splits)

lemma mark_send_failed_cases:
  assumes "fst (mark_send_failed seq p)"
  obtains r where "find_request seq p = Some r" "rq_state r \<in> {QUEUED, RETRY_QUEUED}"
    "snd (mark_send_failed seq p) =
       p\<lparr>requests := std_put seq (r\<lparr>rq_state := RESULT_UNKNOWN\<rparr>) (requests p)\<rparr>"
  using assms by (auto simp: mark_send_failed_def find_request_def split: option.splits if_splits)

lemma mark_sent_pays:
  assumes "policy_inv p" and "fst (mark_sent k now p)"
  shows "1 + policy_credit (snd (mark_sent k now p)) k \<le> policy_credit p k"
  using assms(2) by (cases rule: mark_sent_cases)
    (use assms(1) in \<open>auto simp: policy_credit_def find_request_def smap.find_put policy_inv_def
      request_credit_def\<close>)

lemma mark_send_failed_pays:
  assumes "policy_inv p" and "fst (mark_send_failed k p)"
  shows "1 + policy_credit (snd (mark_send_failed k p)) k \<le> policy_credit p k"
  using assms(2) by (cases rule: mark_send_failed_cases)
    (use assms(1) in \<open>auto simp: policy_credit_def find_request_def smap.find_put policy_inv_def
      request_credit_def\<close>)

lemma policy_credit_step:
  assumes "policy_inv p" and "registered p k"
  shows "policy_credit (policy_step op p) k \<le> policy_credit p k"
proof -
  from assms(2) obtain r where r: "find_request k p = Some r" by (auto simp: registered_def)
  from policy_step_evolves [OF assms(1) r, of op] obtain r' where
    r': "find_request k (policy_step op p) = Some r'" "evolves r r'" by blast
  then have "request_ok k r'"
    using policy_inv_find [OF policy_inv_step [OF assms(1)]] by (simp add: find_request_def)
  with r r' show ?thesis by (simp add: policy_credit_def request_credit_evolves request_ok_def)
qed

lemma policy_pay:
  assumes "policy_inv p" and "registered p k"
  shows "policy_sends op p k + policy_credit (policy_step op p) k \<le> policy_credit p k"
proof (cases op)
  case (MarkSent seq now)
  with assms policy_credit_step [OF assms, of op] mark_sent_pays [of p k now] show ?thesis by auto
next
  case (MarkSendFailed seq)
  with assms policy_credit_step [OF assms, of op] mark_send_failed_pays [of p k] show ?thesis by auto
qed (use policy_credit_step [OF assms, of op] in simp_all)

lemma policy_no_send: "\<not> registered p k \<Longrightarrow> policy_sends op p k = 0"
  by (cases op) (auto simp: registered_def find_request_def mark_sent_def mark_send_failed_def)

lemma policy_grant:
  assumes "policy_inv p" and "\<not> registered p k"
  shows "policy_credit (policy_step op p) k \<le> 3"
proof (cases "find_request k (policy_step op p)")
  case (Some r)
  with policy_step_new [OF assms(1) _ Some] assms(2) have "rq_retries_used r = 0 \<and> rq_state r = QUEUED"
    by (auto simp: registered_def default_Request_def)
  with Some show ?thesis by (simp add: policy_credit_def request_credit_def MAX_RETRIES_def)
qed (simp add: policy_credit_def)

lemma policy_registered_step: "policy_inv p \<Longrightarrow> registered p k \<Longrightarrow> registered (policy_step op p) k"
  using policy_step_evolves [of p k _ op] by (auto simp: registered_def)

interpretation ledger: send_ledger policy_step policy_sends policy_credit registered policy_inv 3
  by unfold_locales
    (simp_all add: policy_inv_step policy_registered_step policy_pay policy_no_send policy_grant)

section \<open>Properties\<close>

text \<open>Runs of operations from the empty policy.\<close>

fun policy_run :: "policy_op list \<Rightarrow> RetryPolicy \<Rightarrow> RetryPolicy" where
  "policy_run [] p = p"
| "policy_run (op # ops) p = policy_run ops (policy_step op p)"

fun policy_send_count :: "policy_op list \<Rightarrow> RetryPolicy \<Rightarrow> u32 \<Rightarrow> nat" where
  "policy_send_count [] p k = 0"
| "policy_send_count (op # ops) p k =
     policy_sends op p k + policy_send_count ops (policy_step op p) k"

lemma policy_run_ledger: "policy_run ops p = ledger.run ops p"
  by (induction ops arbitrary: p) auto

lemma policy_send_count_ledger: "policy_send_count ops p k = ledger.total ops p k"
  by (induction ops arbitrary: p) auto

lemma policy_inv_run: "policy_inv p \<Longrightarrow> policy_inv (policy_run ops p)"
  by (simp add: policy_run_ledger ledger.inv_run)

text \<open>
  Claim C14. Every operation keeps the life cycle: a registered request is either untouched or moves
  along one edge of the state diagram, keeping its sequence number, frame and stop flag; the
  retry counter grows by one exactly on the edge to \<^verbatim>\<open>RETRY_QUEUED\<close>. A request in one of the
  five final states is never changed again.
\<close>

theorem request_life_cycle:
  assumes "policy_inv p" and "find_request k p = Some r"
  shows "\<exists>r'. find_request k (policy_step op p) = Some r' \<and>
    (r' = r \<or>
     (\<not> terminal (rq_state r) \<and> life_edge (rq_state r) (rq_state r') \<and>
      rq_seq r' = rq_seq r \<and> rq_frame r' = rq_frame r \<and> rq_is_stop r' = rq_is_stop r \<and>
      rq_retries_used r' = rq_retries_used r + (if rq_state r' = RETRY_QUEUED then 1 else 0)))"
  using policy_step_evolves [OF assms, of op] terminal_no_edge by (auto simp: evolves_def)

theorem request_life_cycle_witness:
  "\<exists>r'. find_request 101 (policy_step CancelNonStop (policy_run [Start 101 ''F'' False] new_RetryPolicy)) =
     Some r' \<and> rq_frame r' = ''F''"
proof -
  let ?p = "policy_run [Start 101 ''F'' False] new_RetryPolicy"
  have inv: "policy_inv ?p" by (rule policy_inv_run [OF policy_inv_new])
  have r: "find_request 101 ?p =
      Some (default_Request\<lparr>rq_seq := 101, rq_frame := ''F'', rq_is_stop := False\<rparr>)"
    by (simp add: find_request_def start_def std_emplace_def new_RetryPolicy_def)
  from request_life_cycle [OF inv r, of CancelNonStop] show ?thesis by auto
qed

text \<open>
  The send budget: whatever sequence of operations is applied to a new policy, no sequence
  number is handed to the UART more than three times (the first transmission and
  \<^verbatim>\<open>MAX_RETRIES\<close> = 2 retries), counting successful and failed attempts.
\<close>

theorem policy_send_budget:
  "policy_send_count ops new_RetryPolicy k \<le> 1 + MAX_RETRIES"
proof -
  have "\<not> registered new_RetryPolicy k" by (simp add: registered_def find_request_def new_RetryPolicy_def)
  from ledger.total_le_budget [OF policy_inv_new this, of ops] show ?thesis
    by (simp add: policy_send_count_ledger MAX_RETRIES_def)
qed

text \<open>
  STOP cancels for good: after \<^verbatim>\<open>cancel_non_stop\<close> no request that was registered before
  and is not itself a stop is ever sent again, whatever operations follow.
\<close>

theorem cancelled_never_sent:
  assumes "policy_inv p" and "find_request k p = Some r" and "\<not> rq_is_stop r"
  shows "policy_send_count ops (cancel_non_stop p) k = 0"
proof -
  have inv: "policy_inv (cancel_non_stop p)" using policy_inv_step [OF assms(1), of CancelNonStop] by simp
  have found: "find_request k (cancel_non_stop p) = Some (cancel_request r)"
    using assms(2) by (simp add: find_request_def cancel_non_stop_def smap.find_for_each)
  then have "policy_credit (cancel_non_stop p) k = 0"
    using assms(3) by (cases "rq_state r")
      (simp_all add: policy_credit_def cancel_request_def request_credit_def)
  moreover have "registered (cancel_non_stop p) k" using found by (simp add: registered_def)
  ultimately show ?thesis
    using ledger.no_credit_no_send [OF inv, of k ops] by (simp add: policy_send_count_ledger)
qed

theorem cancelled_never_sent_witness:
  "policy_send_count [Poll 9, MarkSent 103 0, OnAck 103 ACK_IN_PROGRESS 1, Poll 99999999999, MarkSent 103 2]
     (cancel_non_stop (policy_run [Start 103 ''F'' False, MarkSent 103 0] new_RetryPolicy)) 103 = 0"
proof -
  let ?p = "policy_run [Start 103 ''F'' False, MarkSent 103 0] new_RetryPolicy"
  have inv: "policy_inv ?p" by (rule policy_inv_run [OF policy_inv_new])
  obtain r where "find_request 103 ?p = Some r" "\<not> rq_is_stop r"
    by (simp add: find_request_def start_def std_emplace_def new_RetryPolicy_def mark_sent_def
        default_Request_def)
  then show ?thesis by (rule cancelled_never_sent [OF inv])
qed

text \<open>When a request is due: it waits for a device and its deadline has passed.\<close>

definition due :: "TimePoint \<Rightarrow> Request \<Rightarrow> bool" where
  "due now r \<longleftrightarrow> rq_state r \<in> {WAITING_ACK, EXECUTING} \<and> rq_deadline r \<le> now"

lemma poll_request_due:
  "poll_request now r =
     (if \<not> due now r then (r, None)
      else if rq_retries_used r < MAX_RETRIES
      then (r\<lparr>rq_retries_used := rq_retries_used r + 1, rq_state := RETRY_QUEUED\<rparr>,
            Some \<lparr>rf_seq = rq_seq r, rf_frame = rq_frame r\<rparr>)
      else (r\<lparr>rq_state := RESULT_UNKNOWN\<rparr>, None))"
  by (auto simp: poll_request_def due_def)

lemma poll_output_seqs:
  assumes "policy_inv p"
  shows "map rf_seq (fst (poll now p)) =
    map fst (filter (\<lambda>(k, r). due now r \<and> rq_retries_used r < MAX_RETRIES) (requests p))"
proof -
  have "\<forall>(k, r) \<in> set (requests p). rq_seq r = k"
    using assms by (auto simp: policy_inv_def request_ok_def std_find_member [symmetric]
        dest!: smap.all_valuesD)
  then have "map rf_seq (List.map_filter (snd \<circ> poll_request now \<circ> snd) m) =
      map fst (filter (\<lambda>(k, r). due now r \<and> rq_retries_used r < MAX_RETRIES) m)"
    if "set m \<subseteq> set (requests p)" for m
    using that by (induction m) (auto simp: List.map_filter_simps poll_request_due split: prod.splits)
  then show ?thesis by (simp add: fst_poll)
qed

lemma poll_member:
  assumes "policy_inv p"
  shows "f \<in> set (fst (poll now p)) \<longleftrightarrow>
    (\<exists>r. find_request (rf_seq f) p = Some r \<and> rf_frame f = rq_frame r \<and> due now r \<and>
       rq_retries_used r < MAX_RETRIES)" (is "?l \<longleftrightarrow> ?r")
proof -
  have "?l \<longleftrightarrow> (\<exists>k r. (k, r) \<in> set (requests p) \<and> snd (poll_request now r) = Some f)"
    by (force simp: fst_poll List.map_filter_def image_iff)
  also have "\<dots> \<longleftrightarrow> (\<exists>k r. find_request k p = Some r \<and> snd (poll_request now r) = Some f)"
    using assms by (simp add: policy_inv_def find_request_def std_find_member)
  also have "\<dots> \<longleftrightarrow> ?r"
  proof
    assume "\<exists>k r. find_request k p = Some r \<and> snd (poll_request now r) = Some f"
    then obtain k r where kr: "find_request k p = Some r" "snd (poll_request now r) = Some f" by blast
    then have "rq_seq r = k"
      using policy_inv_find [OF assms, of k r] by (simp add: find_request_def request_ok_def)
    with kr show ?r by (auto simp: poll_request_due split: if_splits)
  next
    assume ?r
    then obtain r where r: "find_request (rf_seq f) p = Some r" "rf_frame f = rq_frame r" "due now r"
      "rq_retries_used r < MAX_RETRIES" by blast
    then have "rq_seq r = rf_seq f"
      using policy_inv_find [OF assms, of _ r] by (simp add: find_request_def request_ok_def)
    with r show "\<exists>k r. find_request k p = Some r \<and> snd (poll_request now r) = Some f"
      by (intro exI [of _ "rf_seq f"] exI [of _ r]) (simp add: poll_request_due)
  qed
  finally show ?thesis .
qed

text \<open>
  Claim C15. The exact effect of \<^verbatim>\<open>poll\<close>. It returns, in ascending order of sequence numbers and
  without repetition, the stored frames of exactly the due requests that have a retry left; those
  requests become \<^verbatim>\<open>RETRY_QUEUED\<close> with one more retry used, due requests without a retry left
  become \<^verbatim>\<open>RESULT_UNKNOWN\<close>, and every other request is left as it is.
\<close>

theorem poll_exact:
  assumes "policy_inv p"
  shows "sorted_wrt (<) (map rf_seq (fst (poll now p))) \<and>
    set (fst (poll now p)) = {f. \<exists>r. find_request (rf_seq f) p = Some r \<and> rf_frame f = rq_frame r \<and>
       due now r \<and> rq_retries_used r < MAX_RETRIES} \<and>
    find_request k (snd (poll now p)) =
      map_option (\<lambda>r. if \<not> due now r then r
                      else if rq_retries_used r < MAX_RETRIES
                      then r\<lparr>rq_retries_used := rq_retries_used r + 1, rq_state := RETRY_QUEUED\<rparr>
                      else r\<lparr>rq_state := RESULT_UNKNOWN\<rparr>) (find_request k p)"
proof (intro conjI)
  from assms have "sorted_wrt (<) (map fst (requests p))" by (simp add: policy_inv_def std_ordered_def)
  then show "sorted_wrt (<) (map rf_seq (fst (poll now p)))"
    unfolding poll_output_seqs [OF assms] by (simp add: sorted_wrt_map sorted_wrt_filter)
  show "set (fst (poll now p)) = {f. \<exists>r. find_request (rf_seq f) p = Some r \<and>
      rf_frame f = rq_frame r \<and> due now r \<and> rq_retries_used r < MAX_RETRIES}"
    using poll_member [OF assms] by blast
  show "find_request k (snd (poll now p)) =
      map_option (\<lambda>r. if \<not> due now r then r
                      else if rq_retries_used r < MAX_RETRIES
                      then r\<lparr>rq_retries_used := rq_retries_used r + 1, rq_state := RETRY_QUEUED\<rparr>
                      else r\<lparr>rq_state := RESULT_UNKNOWN\<rparr>) (find_request k p)"
    by (cases "find_request k p")
      (simp_all add: find_request_def requests_poll smap.find_for_each poll_request_due)
qed

text \<open>The first timeout of the unit test: sent at 0, polled at 1500 ms.\<close>

theorem poll_exact_witness:
  "set (fst (poll (milliseconds 1500)
      (policy_run [Start 101 ''F'' False, MarkSent 101 0] new_RetryPolicy))) =
     {\<lparr>rf_seq = 101, rf_frame = ''F''\<rparr>}"
proof -
  let ?p = "policy_run [Start 101 ''F'' False, MarkSent 101 0] new_RetryPolicy"
  have inv: "policy_inv ?p" by (rule policy_inv_run [OF policy_inv_new])
  have "requests ?p = [(101, \<lparr>rq_seq = 101, rq_frame = ''F'', rq_is_stop = False,
      rq_state = WAITING_ACK, rq_retries_used = 0, rq_deadline = ACK_TIMEOUT\<rparr>)]"
    by (simp add: start_def std_emplace_def new_RetryPolicy_def mark_sent_def default_Request_def)
  then show ?thesis
    using poll_exact [OF inv, of "milliseconds 1500"]
    by (auto simp: find_request_def due_def ACK_TIMEOUT_def MAX_RETRIES_def split: if_splits)
qed

text \<open>
  What a transmission followed by a poll does to a request nobody answers: a poll before the
  deadline changes nothing, a poll at or after it costs a retry or ends the request.
\<close>

definition unanswered_round :: "u32 \<Rightarrow> TimePoint \<Rightarrow> TimePoint \<Rightarrow> policy_op list" where
  "unanswered_round k sent polled = [MarkSent k sent, Poll polled]"

lemma unanswered_round_effect:
  assumes "policy_inv p" and "find_request k p = Some r"
    and "rq_state r \<in> {QUEUED, RETRY_QUEUED}" and "sent + ACK_TIMEOUT \<le> polled"
  shows "find_request k (policy_run (unanswered_round k sent polled) p) =
    Some (if rq_retries_used r < MAX_RETRIES
          then r\<lparr>rq_state := RETRY_QUEUED, rq_deadline := sent + ACK_TIMEOUT,
                 rq_retries_used := rq_retries_used r + 1\<rparr>
          else r\<lparr>rq_state := RESULT_UNKNOWN, rq_deadline := sent + ACK_TIMEOUT\<rparr>)"
  using assms
  by (auto simp: unanswered_round_def mark_sent_def find_request_def requests_poll smap.find_for_each
      smap.find_put policy_inv_def poll_request_due due_def)

text \<open>
  Claim C16. An unanswered request is given up after exactly three transmissions: if each of the three
  transmissions of a new request is followed by a poll at or after its deadline, the request passes
  through two retries and ends as \<^verbatim>\<open>RESULT_UNKNOWN\<close>, with \<^verbatim>\<open>should_transmit\<close> true before each
  transmission and false at the end.
\<close>

theorem unanswered_gives_up:
  assumes "policy_inv p" and "find_request k p = Some r"
    and "rq_state r = QUEUED" and "rq_retries_used r = 0"
    and "t0 + ACK_TIMEOUT \<le> t1" and "t2 + ACK_TIMEOUT \<le> t3" and "t4 + ACK_TIMEOUT \<le> t5"
  shows "let p1 = policy_run (unanswered_round k t0 t1) p;
             p2 = policy_run (unanswered_round k t2 t3) p1;
             p3 = policy_run (unanswered_round k t4 t5) p2
    in should_transmit k p \<and> should_transmit k p1 \<and> should_transmit k p2 \<and> \<not> should_transmit k p3 \<and>
       map_option rq_state (find_request k p3) = Some RESULT_UNKNOWN"
proof -
  define p1 where "p1 = policy_run (unanswered_round k t0 t1) p"
  define p2 where "p2 = policy_run (unanswered_round k t2 t3) p1"
  define p3 where "p3 = policy_run (unanswered_round k t4 t5) p2"
  have inv1: "policy_inv p1" and inv2: "policy_inv p2"
    using assms(1) by (simp_all add: p1_def p2_def policy_inv_run)
  obtain r1 where r1: "find_request k p1 = Some r1" "rq_state r1 = RETRY_QUEUED" "rq_retries_used r1 = 1"
    using unanswered_round_effect [OF assms(1,2) _ assms(5)] assms(3,4)
    by (simp add: p1_def MAX_RETRIES_def)
  obtain r2 where r2: "find_request k p2 = Some r2" "rq_state r2 = RETRY_QUEUED" "rq_retries_used r2 = 2"
    using unanswered_round_effect [OF inv1 r1(1) _ assms(6)] r1 by (simp add: p2_def MAX_RETRIES_def)
  have "map_option rq_state (find_request k p3) = Some RESULT_UNKNOWN"
    using unanswered_round_effect [OF inv2 r2(1) _ assms(7)] r2 by (simp add: p3_def MAX_RETRIES_def)
  then have "\<not> should_transmit k p3" "map_option rq_state (find_request k p3) = Some RESULT_UNKNOWN"
    by (auto simp: should_transmit_def)
  with assms(2,3) r1 r2 show ?thesis
    unfolding Let_def p1_def [symmetric] p2_def [symmetric] p3_def [symmetric]
    by (simp add: should_transmit_def)
qed

text \<open>The second scenario of the unit test.\<close>

theorem unanswered_gives_up_witness:
  "let p = policy_run [Start 102 ''F'' False] new_RetryPolicy;
       p1 = policy_run (unanswered_round 102 0 (milliseconds 1500)) p;
       p2 = policy_run (unanswered_round 102 (milliseconds 1500) (milliseconds 3000)) p1;
       p3 = policy_run (unanswered_round 102 (milliseconds 3000) (milliseconds 4500)) p2
   in map_option rq_state (find_request 102 p3) = Some RESULT_UNKNOWN"
proof -
  let ?p = "policy_run [Start 102 ''F'' False] new_RetryPolicy"
  have inv: "policy_inv ?p" by (rule policy_inv_run [OF policy_inv_new])
  have r: "find_request 102 ?p =
      Some (default_Request\<lparr>rq_seq := 102, rq_frame := ''F'', rq_is_stop := False\<rparr>)"
    by (simp add: find_request_def start_def std_emplace_def new_RetryPolicy_def)
  show ?thesis
    using unanswered_gives_up [OF inv r, of 0 "milliseconds 1500" "milliseconds 1500"
        "milliseconds 3000" "milliseconds 3000" "milliseconds 4500"]
    by (simp add: default_Request_def ACK_TIMEOUT_def milliseconds_def Let_def)
qed

section \<open>Facts for the clients of the policy\<close>

text \<open>
  What a run keeps of a request and which runs register one; how a request comes to be one to
  transmit (it is registered, or a poll returns its frame) and how it ceases to be one; and where
  success comes from.
\<close>

lemma policy_run_append: "policy_run (xs @ ys) p = policy_run ys (policy_run xs p)"
  by (induction xs arbitrary: p) auto

lemma registered_cancel [simp]: "registered (cancel_non_stop p) k = registered p k"
  by (simp add: registered_def find_request_def cancel_non_stop_def smap.find_for_each)

lemma start_result:
  "fst (start k frame is_stop p) \<longleftrightarrow> k \<noteq> 0 \<and> frame \<noteq> [] \<and> \<not> registered p k"
  by (auto simp: start_def Let_def std_emplace_def registered_def find_request_def split: option.splits)

lemma should_transmit_marks:
  "should_transmit k p \<Longrightarrow> fst (mark_sent k now p)" "should_transmit k p \<Longrightarrow> fst (mark_send_failed k p)"
  by (auto simp: should_transmit_def find_request_def mark_sent_def mark_send_failed_def
      split: option.splits)

lemma mark_not_transmit:
  assumes "policy_inv p"
  shows "\<not> should_transmit k (snd (mark_sent k now p))" "\<not> should_transmit k (snd (mark_send_failed k p))"
  using assms by (auto simp: should_transmit_def find_request_def mark_sent_def mark_send_failed_def smap.find_put
      policy_inv_def split: option.splits if_splits)

lemma policy_run_keeps:
  assumes "policy_inv p" and "find_request k p = Some r"
  shows "\<exists>r'. find_request k (policy_run ops p) = Some r' \<and> rq_frame r' = rq_frame r \<and>
    rq_is_stop r' = rq_is_stop r"
  using assms
proof (induction ops arbitrary: p r)
  case (Cons op ops)
  from policy_step_evolves [OF Cons.prems, of op] obtain r' where
    r': "find_request k (policy_step op p) = Some r'" "evolves r r'" by blast
  with Cons.IH [OF policy_inv_step [OF Cons.prems(1)] r'(1)] show ?case by (auto simp: evolves_def)
qed simp

lemma policy_run_new:
  assumes "policy_inv p" and "find_request k p = None" and "find_request k (policy_run ops p) = Some r"
  shows "\<exists>frame is_stop. Start k frame is_stop \<in> set ops \<and> rq_frame r = frame \<and> rq_is_stop r = is_stop"
  using assms
proof (induction ops arbitrary: p)
  case (Cons op ops)
  show ?case
  proof (cases "find_request k (policy_step op p)")
    case None
    with Cons.IH [OF policy_inv_step [OF Cons.prems(1)] None] Cons.prems(3) show ?thesis by auto
  next
    case (Some r')
    from policy_step_new [OF Cons.prems(1,2) Some] obtain frame is_stop where
      "op = Start k frame is_stop" "rq_frame r' = frame" "rq_is_stop r' = is_stop"
      by (auto simp: default_Request_def)
    moreover from policy_run_keeps [OF policy_inv_step [OF Cons.prems(1)] Some, of ops] Cons.prems(3)
    have "rq_frame r = rq_frame r' \<and> rq_is_stop r = rq_is_stop r'" by simp
    ultimately show ?thesis by auto
  qed
qed simp

lemma should_transmit_step:
  assumes "policy_inv p" and "should_transmit k (policy_step op p)" and "\<not> should_transmit k p"
  shows "(\<exists>frame is_stop. op = Start k frame is_stop \<and> fst (start k frame is_stop p)) \<or>
    (\<exists>now. op = Poll now \<and> k \<in> rf_seq ` set (fst (poll now p)))"
proof (cases op)
  case (Start seq frame is_stop)
  with assms show ?thesis
    by (cases "std_find seq (requests p)")
      (auto simp: should_transmit_def find_request_def start_def Let_def smap.find_put policy_inv_def
        split: if_splits option.splits)
next
  case (Poll now)
  have "\<exists>f. rf_seq f = k \<and> f \<in> set (fst (poll now p))"
    if r: "find_request k p = Some r" and due: "due now r" "rq_retries_used r < MAX_RETRIES" for r
    by (rule exI [of _ "\<lparr>rf_seq = k, rf_frame = rq_frame r\<rparr>"]) (use r due in \<open>simp add: poll_member [OF assms(1)]\<close>)
  with Poll assms(2,3) show ?thesis
    by (fastforce simp: should_transmit_def find_request_def requests_poll smap.find_for_each
        poll_request_due split: option.splits if_splits)
next
  case (OnAck seq status now)
  with assms show ?thesis
    by (cases status) (auto simp: should_transmit_def find_request_def on_ack_def ack_request_def smap.find_put
        policy_inv_def split: if_splits option.splits)
qed (use assms in \<open>auto simp: should_transmit_def find_request_def mark_sent_def mark_send_failed_def
    cancel_non_stop_def cancel_request_def smap.find_put smap.find_for_each policy_inv_def
    split: if_splits option.splits\<close>)

lemma registered_run: "policy_inv p \<Longrightarrow> registered p k \<Longrightarrow> registered (policy_run ops p) k"
  by (simp add: policy_run_ledger ledger.known_run)

lemma policy_grant_run:
  "policy_inv p \<Longrightarrow> \<not> registered p k \<Longrightarrow> policy_credit (policy_run ops p) k \<le> 3"
proof (induction ops arbitrary: p)
  case Nil
  then show ?case by (simp add: policy_credit_def registered_def)
next
  case (Cons op ops)
  show ?case
  proof (cases "registered (policy_step op p) k")
    case True
    with ledger.total_le_credit [OF policy_inv_step [OF Cons.prems(1)] True, of ops]
      policy_grant [OF Cons.prems, of op] show ?thesis by (simp add: policy_run_ledger)
  next
    case False
    with Cons policy_inv_step [OF Cons.prems(1)] show ?thesis by simp
  qed
qed

lemma succeeded_needs_ok_step:
  assumes "policy_inv p" and "find_request k (policy_step op p) = Some r'" and "rq_state r' = SUCCEEDED"
    and "\<forall>r. find_request k p = Some r \<longrightarrow> rq_state r \<noteq> SUCCEEDED"
  shows "\<exists>t. op = OnAck k ACK_OK t"
proof (cases op)
  case (OnAck seq status t)
  with assms show ?thesis
    by (cases status) (auto simp: find_request_def on_ack_def ack_request_def smap.find_put policy_inv_def
        split: option.splits if_splits)
next
  case (Start seq frame is_stop)
  with assms show ?thesis
    by (cases "std_find seq (requests p)")
      (auto simp: find_request_def start_def Let_def smap.find_put policy_inv_def default_Request_def
        split: if_splits)
qed (use assms in \<open>auto simp: find_request_def mark_sent_def mark_send_failed_def requests_poll
    poll_request_def cancel_non_stop_def cancel_request_def smap.find_put smap.find_for_each
    policy_inv_def split: option.splits if_splits\<close>)

lemma succeeded_needs_ok:
  assumes "policy_inv p" and "find_request k (policy_run ops p) = Some r'" and "rq_state r' = SUCCEEDED"
    and "\<forall>r. find_request k p = Some r \<longrightarrow> rq_state r \<noteq> SUCCEEDED"
  shows "\<exists>t. OnAck k ACK_OK t \<in> set ops"
  using assms
proof (induction ops arbitrary: p)
  case (Cons op ops)
  show ?case
  proof (cases "\<exists>r. find_request k (policy_step op p) = Some r \<and> rq_state r = SUCCEEDED")
    case True
    with succeeded_needs_ok_step [OF Cons.prems(1) _ _ Cons.prems(4)] show ?thesis by fastforce
  next
    case False
    with Cons.IH [OF policy_inv_step [OF Cons.prems(1)]] Cons.prems(2,3) show ?thesis by auto
  qed
qed simp

end
