(* ===== verification/Hand_Bridge_Node.thy ===== *)
theory Hand_Bridge_Node
  imports Uart_Io Retry_Policy
begin

text \<open>
  The node of the hand bridge (\<^verbatim>\<open>hand_bridge/src/hand_bridge_node.cpp\<close>): the callback that accepts
  commands, the transmit, receive and retry workers, the status service and the destructor. The
  state is the members of \<^verbatim>\<open>HandBridgeNode\<close> with, for each thread, the place where it is between two
  critical sections and the data it holds there. A step is one critical section (under
  \<^verbatim>\<open>ack_mutex_\<close> or \<^verbatim>\<open>queue_mutex_\<close>), one access to an atomic flag or one wake-up, so that every interleaving of the
  threads is a list of events. What a system call returns and what the clock shows are arguments of
  the events; the log messages of \<^verbatim>\<open>RCLCPP_*\<close> are left out.
\<close>

section \<open>Static functions\<close>

definition valid_command :: "string \<Rightarrow> bool" where
  "valid_command cmd \<longleftrightarrow> cmd = ''OPEN'' \<or> cmd = ''GRAB'' \<or> cmd = ''RELEASE'' \<or> cmd = ''STOP''"

definition uart_frame :: "u32 \<Rightarrow> string \<Rightarrow> string" where
  "uart_frame seq action = ''SEQ:'' @ to_string (unat seq) @ '' CMD:'' @ action @ [CR, LF]"

definition map_to_uart_command :: "string \<Rightarrow> u32 \<Rightarrow> string" where
  "map_to_uart_command cmd seq =
     (if cmd = ''OPEN'' then uart_frame seq ''HAND_OPEN''
      else if cmd = ''GRAB'' then uart_frame seq ''HAND_GRAB''
      else if cmd = ''RELEASE'' then uart_frame seq ''HAND_RELEASE''
      else if cmd = ''STOP'' then uart_frame seq ''HAND_STOP''
      else [])"

fun request_state_to_string :: "RequestState \<Rightarrow> string" where
  "request_state_to_string QUEUED = ''QUEUED''"
| "request_state_to_string WAITING_ACK = ''WAITING_ACK''"
| "request_state_to_string EXECUTING = ''EXECUTING''"
| "request_state_to_string RETRY_QUEUED = ''RETRY_QUEUED''"
| "request_state_to_string SUCCEEDED = ''SUCCEEDED''"
| "request_state_to_string PREEMPTED = ''PREEMPTED''"
| "request_state_to_string BUSY = ''BUSY''"
| "request_state_to_string ERROR = ''ERROR''"
| "request_state_to_string SUPERSEDED = ''SUPERSEDED''"
| "request_state_to_string RESULT_UNKNOWN = ''RESULT_UNKNOWN''"

section \<open>State\<close>

text \<open>
  Where each thread is between two critical sections, with its local variables there. The transmit
  worker in \<^verbatim>\<open>queue_cv_.wait\<close> is \<open>TxWaiting\<close> when it has the mutex to get and the predicate to look at,
  at its first call and after each wake-up, and \<open>TxSleeping\<close> when the predicate was false and it is blocked
  on the condition variable, where only a notification (or a spurious wake-up) reaches it.
\<close>

datatype callback_pc =
  CbIdle
  | CbEnqueue RetryFrame bool
  | CbFailed u32

datatype tx_pc =
  TxWaiting
  | TxSleeping
  | TxHolding RetryFrame
  | TxStopped

datatype retry_pc =
  RetryRunning "RetryFrame list"
  | RetryStopped

datatype dtor_pc = Alive | RetryFlagged | RxFlagged | QueueStopped | Notified | Closed

text \<open>
  The members of the class, the threads, and the device at the other end of the UART:
  \<open>uart_log\<close> records each call of \<^verbatim>\<open>write_uart\<close> by a transmission, with the bytes that were written.
\<close>

record HandBridgeNode =
  uart_port :: string
  baud_rate :: int
  uart_fd :: int
  next_seq :: u32
  latest_requested_seq :: u32
  command_queue :: "RetryFrame list"
  stop_worker :: bool
  rx_stop :: bool
  retry_stop :: bool
  retry_policy :: RetryPolicy
  callback :: callback_pc
  tx :: tx_pc
  rx_running :: bool
  rx_buffer :: string
  rx :: rx_state
  retry :: retry_pc
  dtor :: dtor_pc
  uart_log :: "(u32 \<times> string) list"

text \<open>The constructor. Without a device the three worker threads are never started.\<close>

definition new_HandBridgeNode :: "uart_os \<Rightarrow> string \<Rightarrow> int \<Rightarrow> HandBridgeNode" where
  "new_HandBridgeNode os port baud =
     (case open_uart os port baud (-1) of (ok, fd, calls) \<Rightarrow>
       \<lparr>uart_port = port, baud_rate = baud, uart_fd = fd, next_seq = 1, latest_requested_seq = 0,
        command_queue = [], stop_worker = False, rx_stop = False, retry_stop = False,
        retry_policy = new_RetryPolicy, callback = CbIdle,
        tx = (if ok then TxWaiting else TxStopped), rx_running = ok, rx_buffer = [],
        rx = new_rx_state, retry = (if ok then RetryRunning [] else RetryStopped),
        dtor = Alive, uart_log = []\<rparr>)"

section \<open>Command callback\<close>

text \<open>
  A notification of \<^verbatim>\<open>queue_cv_\<close>, on which only the transmit worker waits: it wakes that worker if it is
  asleep and is lost otherwise. The \<^verbatim>\<open>notify_one\<close> of \<^verbatim>\<open>enqueue_uart_command\<close> follows its section and is made part
  of it: a worker that sleeps on in between is one that is not scheduled, and one that has meanwhile
  taken the frame and gone back to sleep is woken for nothing, as by a spurious wake-up.
\<close>

definition notify_queue :: "HandBridgeNode \<Rightarrow> HandBridgeNode" where
  "notify_queue n = (if tx n = TxSleeping then n\<lparr>tx := TxWaiting\<rparr> else n)"

definition enqueue_uart_command :: "RetryFrame \<Rightarrow> bool \<Rightarrow> HandBridgeNode \<Rightarrow> bool \<times> HandBridgeNode" where
  "enqueue_uart_command frame high_priority n =
     (if stop_worker n then (False, n)
      else if high_priority then (True, notify_queue (n\<lparr>command_queue := frame # command_queue n\<rparr>))
      else (True, notify_queue (n\<lparr>command_queue := command_queue n @ [frame]\<rparr>)))"

text \<open>
  The callback up to the end of its section under \<^verbatim>\<open>ack_mutex_\<close>. Only this callback touches
  \<^verbatim>\<open>next_seq_\<close> and callbacks of one subscription do not overlap, so its \<^verbatim>\<open>fetch_add\<close> belongs to the
  same step.
\<close>

definition callback_register :: "string \<Rightarrow> HandBridgeNode \<Rightarrow> HandBridgeNode" where
  "callback_register data n =
     (if \<not> valid_command data then n
      else if uart_fd n < 0 then n
      else
        let seq = next_seq n; n1 = n\<lparr>next_seq := next_seq n + 1\<rparr> in
        if seq = 0 then n1
        else
          let is_stop = (data = ''STOP''); frame = map_to_uart_command data seq in
          if frame = [] then n1
          else
            let p = (if is_stop then cancel_non_stop (retry_policy n1) else retry_policy n1) in
            case start seq frame is_stop p of (ok, p') \<Rightarrow>
              if \<not> ok then n1\<lparr>retry_policy := p'\<rparr>
              else n1\<lparr>retry_policy := p', latest_requested_seq := seq,
                      callback := CbEnqueue \<lparr>rf_seq = seq, rf_frame = frame\<rparr> is_stop\<rparr>)"

definition callback_enqueue :: "HandBridgeNode \<Rightarrow> HandBridgeNode" where
  "callback_enqueue n =
     (case callback n of
        CbEnqueue frame is_stop \<Rightarrow>
          (case enqueue_uart_command frame is_stop n of (ok, n') \<Rightarrow>
            n'\<lparr>callback := (if ok then CbIdle else CbFailed (rf_seq frame))\<rparr>)
      | _ \<Rightarrow> n)"

definition callback_fail :: "HandBridgeNode \<Rightarrow> HandBridgeNode" where
  "callback_fail n =
     (case callback n of
        CbFailed seq \<Rightarrow>
          n\<lparr>retry_policy := snd (mark_send_failed seq (retry_policy n)), callback := CbIdle\<rparr>
      | _ \<Rightarrow> n)"

text \<open>The whole callback, when no other thread runs in between.\<close>

definition command_callback :: "string \<Rightarrow> HandBridgeNode \<Rightarrow> HandBridgeNode" where
  "command_callback data n = callback_fail (callback_enqueue (callback_register data n))"

text \<open>The status service: \<^verbatim>\<open>success\<close> and \<^verbatim>\<open>message\<close> of the response.\<close>

definition status_callback :: "HandBridgeNode \<Rightarrow> bool \<times> string" where
  "status_callback n =
     (let seq = latest_requested_seq n in
      if seq = 0 then (False, ''No command submitted'')
      else case find_request seq (retry_policy n) of
             None \<Rightarrow> (False, ''Request not found'')
           | Some item \<Rightarrow>
               (rq_state item = SUCCEEDED,
                ''SEQ:'' @ to_string (unat seq) @ '' STATUS:'' @ request_state_to_string (rq_state item)))"

section \<open>Workers\<close>

text \<open>
  \<^verbatim>\<open>uart_tx_worker\<close>: the section under \<^verbatim>\<open>queue_mutex_\<close>. With the predicate of the wait false the worker
  gives up the mutex and goes to sleep.
\<close>

definition tx_take :: "HandBridgeNode \<Rightarrow> HandBridgeNode" where
  "tx_take n =
     (case tx n of
        TxWaiting \<Rightarrow>
          if stop_worker n then n\<lparr>tx := TxStopped\<rparr>
          else (case command_queue n of
                  [] \<Rightarrow> n\<lparr>tx := TxSleeping\<rparr>
                | frame # rest \<Rightarrow> n\<lparr>command_queue := rest, tx := TxHolding frame\<rparr>)
      | _ \<Rightarrow> n)"

text \<open>
  The section under \<^verbatim>\<open>ack_mutex_\<close>, given the results of the calls of \<^verbatim>\<open>write\<close>. While a call has not
  returned the section is not over and no other thread can enter one.
\<close>

definition tx_transmit :: "io_result list \<Rightarrow> TimePoint \<Rightarrow> HandBridgeNode \<Rightarrow> HandBridgeNode" where
  "tx_transmit results now n =
     (case tx n of
        TxHolding frame \<Rightarrow>
          if \<not> should_transmit (rf_seq frame) (retry_policy n) then n\<lparr>tx := TxWaiting\<rparr>
          else (case write_uart (uart_fd n) (rf_frame frame) results of
                  None \<Rightarrow> n
                | Some (sent, calls) \<Rightarrow>
                    n\<lparr>retry_policy :=
                        (if sent then snd (mark_sent (rf_seq frame) now (retry_policy n))
                         else snd (mark_send_failed (rf_seq frame) (retry_policy n))),
                      uart_log := uart_log n @ [(rf_seq frame, wire_bytes (rf_frame frame) calls)],
                      tx := TxWaiting\<rparr>)
      | _ \<Rightarrow> n)"

text \<open>\<^verbatim>\<open>uart_rx_worker\<close>: the test of the flag with the read, and one character of the buffer.\<close>

datatype read_result = ReadBytes string | ReadFail errno

definition rx_read :: "read_result \<Rightarrow> HandBridgeNode \<Rightarrow> HandBridgeNode" where
  "rx_read result n =
     (if rx_running n \<and> rx_buffer n = []
      then (if rx_stop n then n\<lparr>rx_running := False\<rparr>
            else (case result of
                    ReadBytes bytes \<Rightarrow> n\<lparr>rx_buffer := bytes\<rparr>
                  | ReadFail err \<Rightarrow>
                      if err = EINTR \<or> err = EAGAIN then n else n\<lparr>rx_running := False\<rparr>))
      else n)"

definition rx_step :: "TimePoint \<Rightarrow> HandBridgeNode \<Rightarrow> HandBridgeNode" where
  "rx_step now n =
     (case rx_buffer n of
        [] \<Rightarrow> n
      | ch # rest \<Rightarrow>
          (case rx_char ch (rx n) of (out, rx') \<Rightarrow>
            let n1 = n\<lparr>rx_buffer := rest, rx := rx'\<rparr> in
            case out of
              None \<Rightarrow> n1
            | Some line \<Rightarrow>
                (case rx_ack line of
                   None \<Rightarrow> n1
                 | Some (seq, status) \<Rightarrow>
                     n1\<lparr>retry_policy := snd (on_ack seq status now (retry_policy n1))\<rparr>)))"

text \<open>\<^verbatim>\<open>retry_worker\<close>: the test of the flag with the poll, and one frame of the result.\<close>

definition retry_poll :: "TimePoint \<Rightarrow> HandBridgeNode \<Rightarrow> HandBridgeNode" where
  "retry_poll now n =
     (case retry n of
        RetryRunning [] \<Rightarrow>
          if retry_stop n then n\<lparr>retry := RetryStopped\<rparr>
          else (case poll now (retry_policy n) of (frames, p) \<Rightarrow>
                 n\<lparr>retry_policy := p, retry := RetryRunning frames\<rparr>)
      | _ \<Rightarrow> n)"

definition retry_push :: "HandBridgeNode \<Rightarrow> HandBridgeNode" where
  "retry_push n =
     (case retry n of
        RetryRunning (frame # rest) \<Rightarrow>
          if retry_stop n then n\<lparr>retry := RetryRunning []\<rparr>
          else (snd (enqueue_uart_command frame False n))\<lparr>retry := RetryRunning rest\<rparr>
      | _ \<Rightarrow> n)"

text \<open>
  The destructor: two flags, the section under \<^verbatim>\<open>queue_mutex_\<close>, \<^verbatim>\<open>notify_all\<close>, the three joins with the
  close.
\<close>

definition dtor_step :: "HandBridgeNode \<Rightarrow> HandBridgeNode" where
  "dtor_step n =
     (case dtor n of
        Alive \<Rightarrow> n\<lparr>retry_stop := True, dtor := RetryFlagged\<rparr>
      | RetryFlagged \<Rightarrow> n\<lparr>rx_stop := True, dtor := RxFlagged\<rparr>
      | RxFlagged \<Rightarrow> n\<lparr>stop_worker := True, command_queue := [], dtor := QueueStopped\<rparr>
      | QueueStopped \<Rightarrow> (notify_queue n)\<lparr>dtor := Notified\<rparr>
      | Notified \<Rightarrow>
          if retry n = RetryStopped \<and> tx n = TxStopped \<and> \<not> rx_running n
          then n\<lparr>uart_fd := (if 0 \<le> uart_fd n then -1 else uart_fd n), dtor := Closed\<rparr>
          else n
      | Closed \<Rightarrow> n)"

section \<open>Interleavings\<close>

datatype node_event =
  CommandMsg string
  | CallbackEnqueue
  | CallbackFail
  | TxTake
  | TxTransmit "io_result list" TimePoint
  | RxRead read_result
  | RxChar TimePoint
  | RetryPoll TimePoint
  | RetryPush
  | SpuriousWake
  | Destroy

text \<open>One event; an event of a thread that is elsewhere changes nothing.\<close>

fun node_step :: "node_event \<Rightarrow> HandBridgeNode \<Rightarrow> HandBridgeNode" where
  "node_step (CommandMsg data) n = (if callback n = CbIdle then callback_register data n else n)"
| "node_step CallbackEnqueue n = callback_enqueue n"
| "node_step CallbackFail n = callback_fail n"
| "node_step TxTake n = tx_take n"
| "node_step (TxTransmit results now) n = tx_transmit results now n"
| "node_step (RxRead result) n = rx_read result n"
| "node_step (RxChar now) n = rx_step now n"
| "node_step (RetryPoll now) n = retry_poll now n"
| "node_step RetryPush n = retry_push n"
| "node_step SpuriousWake n = notify_queue n"
| "node_step Destroy n = dtor_step n"

fun node_run :: "node_event list \<Rightarrow> HandBridgeNode \<Rightarrow> HandBridgeNode" where
  "node_run [] n = n"
| "node_run (e # es) n = node_run es (node_step e n)"

section \<open>The node drives the policy\<close>

text \<open>The operations of the retry policy that an event performs.\<close>

fun node_ops :: "node_event \<Rightarrow> HandBridgeNode \<Rightarrow> policy_op list" where
  "node_ops (CommandMsg data) n =
     (if callback n = CbIdle \<and> valid_command data \<and> 0 \<le> uart_fd n \<and> next_seq n \<noteq> 0
      then (if data = ''STOP'' then [CancelNonStop] else []) @
           [Start (next_seq n) (map_to_uart_command data (next_seq n)) (data = ''STOP'')]
      else [])"
| "node_ops CallbackFail n = (case callback n of CbFailed seq \<Rightarrow> [MarkSendFailed seq] | _ \<Rightarrow> [])"
| "node_ops (TxTransmit results now) n =
     (case tx n of
        TxHolding frame \<Rightarrow>
          if should_transmit (rf_seq frame) (retry_policy n)
          then (case write_uart (uart_fd n) (rf_frame frame) results of
                  None \<Rightarrow> []
                | Some (sent, calls) \<Rightarrow>
                    if sent then [MarkSent (rf_seq frame) now] else [MarkSendFailed (rf_seq frame)])
          else []
      | _ \<Rightarrow> [])"
| "node_ops (RxChar now) n =
     (case rx_buffer n of
        [] \<Rightarrow> []
      | ch # rest \<Rightarrow>
          (case fst (rx_char ch (rx n)) of
             None \<Rightarrow> []
           | Some line \<Rightarrow>
               (case rx_ack line of None \<Rightarrow> [] | Some (seq, status) \<Rightarrow> [OnAck seq status now])))"
| "node_ops (RetryPoll now) n =
     (if retry n = RetryRunning [] \<and> \<not> retry_stop n then [Poll now] else [])"
| "node_ops _ n = []"

fun node_history :: "node_event list \<Rightarrow> HandBridgeNode \<Rightarrow> policy_op list" where
  "node_history [] n = []"
| "node_history (e # es) n = node_ops e n @ node_history es (node_step e n)"

lemma map_to_uart_command_nonempty: "valid_command cmd \<Longrightarrow> map_to_uart_command cmd seq \<noteq> []"
  by (auto simp: valid_command_def map_to_uart_command_def uart_frame_def)

text \<open>All a notification changes is the place of the transmit worker.\<close>

lemma notify_queue_eq: "notify_queue n = n\<lparr>tx := tx (notify_queue n)\<rparr>"
  by (simp add: notify_queue_def)

lemma notify_queue_keeps [simp]:
  "retry_policy (notify_queue n) = retry_policy n" "uart_log (notify_queue n) = uart_log n"
  "command_queue (notify_queue n) = command_queue n" "callback (notify_queue n) = callback n"
  "retry (notify_queue n) = retry n" "stop_worker (notify_queue n) = stop_worker n"
  "rx_stop (notify_queue n) = rx_stop n" "retry_stop (notify_queue n) = retry_stop n"
  "uart_fd (notify_queue n) = uart_fd n" "dtor (notify_queue n) = dtor n"
  "rx (notify_queue n) = rx n" "rx_buffer (notify_queue n) = rx_buffer n"
  "rx_running (notify_queue n) = rx_running n" "next_seq (notify_queue n) = next_seq n"
  "latest_requested_seq (notify_queue n) = latest_requested_seq n"
  by (subst notify_queue_eq, simp)+

lemma notify_queue_awake [simp]: "tx n \<noteq> TxSleeping \<Longrightarrow> notify_queue n = n"
  by (simp add: notify_queue_def)

lemma notify_queue_tx: "tx (notify_queue n) = (if tx n = TxSleeping then TxWaiting else tx n)"
  by (simp add: notify_queue_def)

lemma enqueue_keeps [simp]:
  "retry_policy (snd (enqueue_uart_command f h n)) = retry_policy n"
  "uart_log (snd (enqueue_uart_command f h n)) = uart_log n"
  by (simp_all add: enqueue_uart_command_def)

lemma node_step_policy: "retry_policy (node_step e n) = policy_run (node_ops e n) (retry_policy n)"
proof (cases e)
  case (CommandMsg data)
  then show ?thesis
    by (auto simp: callback_register_def Let_def map_to_uart_command_nonempty split: prod.splits)
next
  case CallbackEnqueue
  then show ?thesis
    by (auto simp: callback_enqueue_def enqueue_uart_command_def split: callback_pc.splits)
next
  case CallbackFail
  then show ?thesis by (auto simp: callback_fail_def split: callback_pc.splits)
next
  case TxTake
  then show ?thesis by (auto simp: tx_take_def split: tx_pc.splits list.splits)
next
  case (TxTransmit results now)
  then show ?thesis by (auto simp: tx_transmit_def split: tx_pc.splits option.splits)
next
  case (RxRead result)
  then show ?thesis by (auto simp: rx_read_def split: read_result.splits)
next
  case (RxChar now)
  then show ?thesis
    by (auto simp: rx_step_def Let_def split: list.splits prod.splits option.splits)
next
  case (RetryPoll now)
  then show ?thesis
    by (auto simp: retry_poll_def split: retry_pc.splits list.splits prod.splits)
next
  case RetryPush
  then show ?thesis by (auto simp: retry_push_def split: retry_pc.splits list.splits)
next
  case SpuriousWake
  then show ?thesis by simp
next
  case Destroy
  then show ?thesis by (auto simp: dtor_step_def split: dtor_pc.splits)
qed

lemma node_run_policy: "retry_policy (node_run es n) = policy_run (node_history es n) (retry_policy n)"
  by (induction es arbitrary: n) (simp_all add: policy_run_append node_step_policy)

text \<open>The transmissions logged are sends of the policy.\<close>

definition attempts :: "u32 \<Rightarrow> HandBridgeNode \<Rightarrow> nat" where
  "attempts k n = length (filter (\<lambda>(seq, bytes). seq = k) (uart_log n))"

lemma uart_log_step:
  "uart_log (node_step e n) = uart_log n \<or>
   (\<exists>results now frame sent calls. e = TxTransmit results now \<and> tx n = TxHolding frame \<and>
      should_transmit (rf_seq frame) (retry_policy n) \<and>
      write_uart (uart_fd n) (rf_frame frame) results = Some (sent, calls) \<and>
      uart_log (node_step e n) = uart_log n @ [(rf_seq frame, wire_bytes (rf_frame frame) calls)])"
proof (cases e)
  case (TxTransmit results now)
  then show ?thesis by (auto simp: tx_transmit_def split: tx_pc.splits option.splits prod.splits)
qed (auto simp: callback_register_def callback_enqueue_def enqueue_uart_command_def callback_fail_def
    tx_take_def rx_read_def rx_step_def retry_poll_def retry_push_def dtor_step_def Let_def
    split: callback_pc.splits tx_pc.splits retry_pc.splits dtor_pc.splits read_result.splits
      list.splits option.splits prod.splits)

lemma attempts_step:
  "attempts k (node_step e n) \<le> attempts k n + policy_send_count (node_ops e n) (retry_policy n) k"
  using uart_log_step [of e n]
  by (auto simp: attempts_def should_transmit_marks)

lemma attempts_mono: "attempts k n \<le> attempts k (node_step e n)"
  using uart_log_step [of e n] by (auto simp: attempts_def)

section \<open>The invariant\<close>

text \<open>The frames on their way to the UART, in the hands of a thread or in the queue.\<close>

fun callback_frames :: "callback_pc \<Rightarrow> RetryFrame list" where
  "callback_frames (CbEnqueue frame is_stop) = [frame]"
| "callback_frames _ = []"

fun tx_frames :: "tx_pc \<Rightarrow> RetryFrame list" where
  "tx_frames (TxHolding frame) = [frame]"
| "tx_frames _ = []"

fun retry_frames :: "retry_pc \<Rightarrow> RetryFrame list" where
  "retry_frames (RetryRunning frames) = frames"
| "retry_frames RetryStopped = []"

definition in_flight :: "HandBridgeNode \<Rightarrow> RetryFrame list" where
  "in_flight n = callback_frames (callback n) @ tx_frames (tx n) @ command_queue n @ retry_frames (retry n)"

lemma in_flight_notify [simp]: "in_flight (notify_queue n) = in_flight n"
  by (simp add: in_flight_def notify_queue_tx)

definition active :: "HandBridgeNode \<Rightarrow> bool" where
  "active n \<longleftrightarrow> \<not> stop_worker n \<and> \<not> retry_stop n"

text \<open>A registered request carries the frame of a valid command, and the stop flag of that command.\<close>

definition command_request :: "u32 \<Rightarrow> Request \<Rightarrow> bool" where
  "command_request k r \<longleftrightarrow>
     (\<exists>cmd. valid_command cmd \<and> rq_frame r = map_to_uart_command cmd k \<and>
        (rq_is_stop r \<longleftrightarrow> cmd = ''STOP''))"

definition commands_inv :: "RetryPolicy \<Rightarrow> bool" where
  "commands_inv p \<longleftrightarrow> (\<forall>k r. find_request k p = Some r \<longrightarrow> command_request k r)"

text \<open>A frame on its way is the frame of the registered request of its sequence number.\<close>

definition frame_known :: "RetryPolicy \<Rightarrow> u32 \<Rightarrow> string \<Rightarrow> bool" where
  "frame_known p k frame \<longleftrightarrow> (\<exists>r. find_request k p = Some r \<and> rq_frame r = frame)"

definition flight_inv :: "HandBridgeNode \<Rightarrow> bool" where
  "flight_inv n \<longleftrightarrow> (\<forall>f \<in> set (in_flight n). frame_known (retry_policy n) (rf_seq f) (rf_frame f))"

definition log_inv :: "HandBridgeNode \<Rightarrow> bool" where
  "log_inv n \<longleftrightarrow> (\<forall>(k, bytes) \<in> set (uart_log n).
     \<exists>frame written. frame_known (retry_policy n) k frame \<and> bytes = take written frame)"

text \<open>While the node is not being destroyed, a request that is to be transmitted has its frame on the way.\<close>

definition queued_inv :: "HandBridgeNode \<Rightarrow> bool" where
  "queued_inv n \<longleftrightarrow> (active n \<longrightarrow>
     (\<forall>k. should_transmit k (retry_policy n) \<longrightarrow> k \<in> rf_seq ` set (in_flight n)))"

text \<open>
  The flags and the worker threads as the destructor goes on: a worker asleep on the condition variable
  has nothing to take, and from the notification on it is awake; a command fails to be enqueued only
  when the queue is closed; the destructor ends with all threads ended and the descriptor closed.
\<close>

definition threads_done :: "HandBridgeNode \<Rightarrow> bool" where
  "threads_done n \<longleftrightarrow> retry n = RetryStopped \<and> tx n = TxStopped \<and> \<not> rx_running n"

definition shutdown_inv :: "HandBridgeNode \<Rightarrow> bool" where
  "shutdown_inv n \<longleftrightarrow>
     (retry_stop n \<longleftrightarrow> dtor n \<noteq> Alive) \<and> (rx_stop n \<longleftrightarrow> dtor n \<notin> {Alive, RetryFlagged}) \<and>
     (stop_worker n \<longleftrightarrow> dtor n \<in> {QueueStopped, Notified, Closed}) \<and> (stop_worker n \<longrightarrow> command_queue n = []) \<and>
     (tx n = TxSleeping \<longrightarrow> command_queue n = [] \<and> dtor n \<notin> {Notified, Closed}) \<and>
     (dtor n = Closed \<longrightarrow> threads_done n \<and> uart_fd n < 0)"

definition refused_inv :: "HandBridgeNode \<Rightarrow> bool" where
  "refused_inv n \<longleftrightarrow> (\<forall>k. callback n = CbFailed k \<longrightarrow> stop_worker n)"

definition node_inv :: "HandBridgeNode \<Rightarrow> bool" where
  "node_inv n \<longleftrightarrow> policy_inv (retry_policy n) \<and> commands_inv (retry_policy n) \<and> flight_inv n \<and>
     log_inv n \<and> queued_inv n \<and> (latest_requested_seq n \<noteq> 0 \<longrightarrow> registered (retry_policy n) (latest_requested_seq n)) \<and>
     shutdown_inv n \<and> refused_inv n"

lemma frame_known_run: "policy_inv p \<Longrightarrow> frame_known p k f \<Longrightarrow> frame_known (policy_run ops p) k f"
  using policy_run_keeps [of p k _ ops] by (fastforce simp: frame_known_def)

lemma start_registers:
  assumes "policy_inv p" and "fst (start k frame is_stop p)"
  shows "frame_known (snd (start k frame is_stop p)) k frame"
  using assms by (cases "std_find k (requests p)")
    (auto simp: start_def Let_def frame_known_def find_request_def smap.find_put policy_inv_def
      split: if_splits)

text \<open>The invariant, one part after the other.\<close>

lemma policy_inv_node_step: "policy_inv (retry_policy n) \<Longrightarrow> policy_inv (retry_policy (node_step e n))"
  by (simp add: node_step_policy policy_inv_run)

lemma node_ops_shape:
  "(\<exists>data. e = CommandMsg data) \<or> node_ops e n = [] \<or> (\<exists>k t. node_ops e n = [MarkSent k t]) \<or>
   (\<exists>k. node_ops e n = [MarkSendFailed k]) \<or>
   (\<exists>k st t. e = RxChar t \<and> node_ops e n = [OnAck k st t]) \<or>
   (\<exists>t. e = RetryPoll t \<and> node_ops e n = [Poll t])"
  by (cases e) (auto split: callback_pc.splits tx_pc.splits list.splits option.splits prod.splits)

lemma node_ops_start:
  assumes "Start k frame is_stop \<in> set (node_ops e n)"
  shows "\<exists>cmd. e = CommandMsg cmd \<and> valid_command cmd \<and> k = next_seq n \<and>
    frame = map_to_uart_command cmd k \<and> (is_stop \<longleftrightarrow> cmd = ''STOP'')"
proof (cases "\<exists>data. e = CommandMsg data")
  case True
  with assms show ?thesis by (auto split: if_splits)
next
  case False
  with node_ops_shape [of e n] assms show ?thesis by auto
qed

lemma commands_inv_step:
  assumes "policy_inv (retry_policy n)" and "commands_inv (retry_policy n)"
  shows "commands_inv (retry_policy (node_step e n))"
  unfolding commands_inv_def
proof (intro allI impI)
  fix k r
  assume r: "find_request k (retry_policy (node_step e n)) = Some r"
  show "command_request k r"
  proof (cases "find_request k (retry_policy n)")
    case None
    from policy_run_new [OF assms(1) None, of "node_ops e n" r] r obtain frame is_stop where
      "Start k frame is_stop \<in> set (node_ops e n)" "rq_frame r = frame" "rq_is_stop r = is_stop"
      by (auto simp: node_step_policy)
    with node_ops_start [of k frame is_stop e n] show ?thesis by (auto simp: command_request_def)
  next
    case (Some r')
    with policy_run_keeps [OF assms(1) Some, of "node_ops e n"] r assms(2) show ?thesis
      by (auto simp: commands_inv_def command_request_def node_step_policy)
  qed
qed

lemma poll_frame_known:
  assumes "policy_inv p" and "f \<in> set (fst (poll now p))"
  shows "frame_known (snd (poll now p)) (rf_seq f) (rf_frame f)"
  using assms frame_known_run [of p "rf_seq f" "rf_frame f" "[Poll now]"]
  by (auto simp: poll_member frame_known_def)

text \<open>When the callback registers a command: the sequence number it draws must be unused.\<close>

definition accepts :: "string \<Rightarrow> HandBridgeNode \<Rightarrow> bool" where
  "accepts data n \<longleftrightarrow> valid_command data \<and> 0 \<le> uart_fd n \<and> next_seq n \<noteq> 0 \<and>
     \<not> registered (retry_policy n) (next_seq n)"

abbreviation command_frame :: "string \<Rightarrow> HandBridgeNode \<Rightarrow> RetryFrame" where
  "command_frame data n \<equiv> \<lparr>rf_seq = next_seq n, rf_frame = map_to_uart_command data (next_seq n)\<rparr>"

lemma callback_register_accepted:
  assumes "accepts data n" and "callback n = CbIdle"
  shows "callback_register data n =
    n\<lparr>next_seq := next_seq n + 1, latest_requested_seq := next_seq n,
      retry_policy := policy_run (node_ops (CommandMsg data) n) (retry_policy n),
      callback := CbEnqueue (command_frame data n) (data = ''STOP'')\<rparr>"
proof -
  let ?f = "map_to_uart_command data (next_seq n)"
  let ?p = "if data = ''STOP'' then cancel_non_stop (retry_policy n) else retry_policy n"
  obtain ok p' where s: "start (next_seq n) ?f (data = ''STOP'') ?p = (ok, p')" by fastforce
  have "fst (start (next_seq n) ?f (data = ''STOP'') ?p)"
    using assms by (simp add: start_result accepts_def map_to_uart_command_nonempty)
  with s have p': "start (next_seq n) ?f (data = ''STOP'') ?p = (True, p')" by simp
  have "policy_run (node_ops (CommandMsg data) n) (retry_policy n) = p'"
    using assms p' by (cases "data = ''STOP''") (simp_all add: accepts_def)
  with assms p' show ?thesis
    by (cases "data = ''STOP''")
      (simp_all add: callback_register_def Let_def accepts_def map_to_uart_command_nonempty)
qed

lemma callback_register_rejected:
  assumes "\<not> accepts data n"
  shows "callback_register data n =
    n\<lparr>next_seq := next_seq (callback_register data n), retry_policy := retry_policy (callback_register data n)\<rparr>"
proof -
  let ?f = "map_to_uart_command data (next_seq n)"
  let ?p = "if data = ''STOP'' then cancel_non_stop (retry_policy n) else retry_policy n"
  obtain ok p' where s: "start (next_seq n) ?f (data = ''STOP'') ?p = (ok, p')" by fastforce
  have "ok \<Longrightarrow> registered (retry_policy n) (next_seq n) \<Longrightarrow> False"
    using start_result [of "next_seq n" ?f "data = ''STOP''" ?p] s by (auto split: if_splits)
  with assms s show ?thesis
    by (cases "data = ''STOP''"; cases ok) (auto simp: callback_register_def Let_def accepts_def)
qed

lemma callback_register_rejected_frames:
  assumes "\<not> accepts data n"
  shows "in_flight (callback_register data n) = in_flight n"
  by (subst callback_register_rejected [OF assms]) (simp add: in_flight_def)

text \<open>The frames on their way after an event: those from before, the one registered, those polled.\<close>

lemma in_flight_step:
  "set (in_flight (node_step e n)) \<subseteq> set (in_flight n) \<union>
     (case e of
        CommandMsg data \<Rightarrow> if callback n = CbIdle \<and> accepts data n then {command_frame data n} else {}
      | RetryPoll now \<Rightarrow> if retry n = RetryRunning [] \<and> \<not> retry_stop n
          then set (fst (poll now (retry_policy n))) else {}
      | _ \<Rightarrow> {})"
proof (cases e)
  case (CommandMsg data)
  show ?thesis
  proof (cases "accepts data n \<and> callback n = CbIdle")
    case True
    with CommandMsg show ?thesis by (auto simp: callback_register_accepted in_flight_def)
  next
    case False
    with CommandMsg show ?thesis
      by (cases "callback n = CbIdle")
        (simp_all add: callback_register_rejected_frames)
  qed
qed (auto simp: in_flight_def notify_queue_tx callback_enqueue_def enqueue_uart_command_def callback_fail_def
    tx_take_def tx_transmit_def rx_read_def rx_step_def retry_poll_def retry_push_def dtor_step_def Let_def
    split: callback_pc.splits tx_pc.splits retry_pc.splits dtor_pc.splits read_result.splits
      list.splits option.splits prod.splits if_splits)

lemma accepted_frame_known:
  assumes "policy_inv (retry_policy n)" and "accepts data n" and "callback n = CbIdle"
  shows "frame_known (retry_policy (node_step (CommandMsg data) n)) (next_seq n)
    (map_to_uart_command data (next_seq n))"
proof -
  let ?p = "if data = ''STOP'' then cancel_non_stop (retry_policy n) else retry_policy n"
  let ?s = "start (next_seq n) (map_to_uart_command data (next_seq n)) (data = ''STOP'') ?p"
  have inv: "policy_inv ?p" using assms(1) policy_inv_step [of _ CancelNonStop] by simp
  have ok: "fst ?s" using assms(2) by (simp add: start_result accepts_def map_to_uart_command_nonempty)
  have "retry_policy (node_step (CommandMsg data) n) = snd ?s"
    unfolding node_step_policy using assms(2,3) by (cases "data = ''STOP''") (simp_all add: accepts_def)
  with start_registers [OF inv ok] show ?thesis by simp
qed

lemma flight_inv_step:
  assumes "policy_inv (retry_policy n)" and "flight_inv n"
  shows "flight_inv (node_step e n)"
  unfolding flight_inv_def
proof
  fix f
  assume f: "f \<in> set (in_flight (node_step e n))"
  let ?known = "frame_known (retry_policy (node_step e n)) (rf_seq f) (rf_frame f)"
  have old: ?known if "f \<in> set (in_flight n)"
    using that assms frame_known_run [OF assms(1)] by (simp add: flight_inv_def node_step_policy)
  from subsetD [OF in_flight_step f] show ?known
  proof (elim UnE)
    assume new: "f \<in> (case e of
        CommandMsg data \<Rightarrow> if callback n = CbIdle \<and> accepts data n then {command_frame data n} else {}
      | RetryPoll now \<Rightarrow> if retry n = RetryRunning [] \<and> \<not> retry_stop n
          then set (fst (poll now (retry_policy n))) else {}
      | _ \<Rightarrow> {})"
    show ?known
    proof (cases e)
      case (CommandMsg data)
      with new accepted_frame_known [OF assms(1), of data] show ?thesis by (simp split: if_splits)
    next
      case (RetryPoll now)
      with new poll_frame_known [OF assms(1), of f now] show ?thesis
        by (auto simp: retry_poll_def split: if_splits prod.splits)
    qed (use new in simp_all)
  qed (rule old)
qed

lemma log_inv_step:
  assumes "policy_inv (retry_policy n)" and "flight_inv n" and "log_inv n"
  shows "log_inv (node_step e n)"
proof -
  have kept: "\<exists>frame written. frame_known (retry_policy (node_step e n)) k frame \<and> bytes = take written frame"
    if "(k, bytes) \<in> set (uart_log n)" for k bytes
    using that assms(3) frame_known_run [OF assms(1), of k _ "node_ops e n"]
    by (fastforce simp: log_inv_def node_step_policy)
  have held: "frame_known (retry_policy (node_step e n)) (rf_seq f) (rf_frame f)" if "tx n = TxHolding f" for f
    using that assms(2) frame_known_run [OF assms(1)]
    by (simp add: flight_inv_def in_flight_def node_step_policy)
  show ?thesis
    using uart_log_step [of e n] kept held write_uart_wire(1) by (fastforce simp: log_inv_def)
qed

lemma active_step: "active (node_step e n) \<Longrightarrow> active n"
  by (cases e) (auto simp: active_def callback_register_def callback_enqueue_def enqueue_uart_command_def
      callback_fail_def tx_take_def tx_transmit_def rx_read_def rx_step_def retry_poll_def retry_push_def
      dtor_step_def Let_def
      split: callback_pc.splits tx_pc.splits retry_pc.splits dtor_pc.splits read_result.splits
        list.splits option.splits prod.splits if_splits)

text \<open>A frame leaves only by a transmission, after which its request is not to be transmitted.\<close>

lemma in_flight_kept:
  assumes inv: "policy_inv (retry_policy n)" and act: "active (node_step e n)" and f: "f \<in> set (in_flight n)"
  shows "f \<in> set (in_flight (node_step e n)) \<or> \<not> should_transmit (rf_seq f) (retry_policy (node_step e n))"
proof (cases e)
  case (CommandMsg data)
  show ?thesis
  proof (cases "accepts data n \<and> callback n = CbIdle")
    case True
    with CommandMsg f show ?thesis by (auto simp: callback_register_accepted in_flight_def)
  next
    case False
    with CommandMsg f show ?thesis
      by (cases "callback n = CbIdle") (simp_all add: callback_register_rejected_frames)
  qed
next
  case (TxTransmit results now)
  with f show ?thesis
    using mark_not_transmit [OF inv]
    by (auto simp: tx_transmit_def in_flight_def split: tx_pc.splits option.splits prod.splits)
next
  case Destroy
  with act f show ?thesis
    by (auto simp: dtor_step_def active_def in_flight_def notify_queue_tx split: dtor_pc.splits if_splits)
next
  case CallbackEnqueue
  with act f show ?thesis
    by (auto simp: callback_enqueue_def enqueue_uart_command_def active_def in_flight_def notify_queue_tx
        split: callback_pc.splits if_splits)
next
  case RetryPush
  with act f show ?thesis
    by (auto simp: retry_push_def enqueue_uart_command_def active_def in_flight_def notify_queue_tx
        split: retry_pc.splits list.splits if_splits)
next
  case TxTake
  with act f show ?thesis
    by (auto simp: tx_take_def active_def in_flight_def split: tx_pc.splits list.splits if_splits)
next
  case (RetryPoll now)
  with act f show ?thesis
    by (auto simp: retry_poll_def active_def in_flight_def split: retry_pc.splits list.splits prod.splits)
next
  case CallbackFail
  with f show ?thesis
    by (auto simp: callback_fail_def in_flight_def split: callback_pc.splits)
next
  case SpuriousWake
  with f show ?thesis by simp
next
  case (RxRead result)
  with f show ?thesis by (auto simp: rx_read_def in_flight_def split: read_result.splits)
next
  case (RxChar now)
  with f show ?thesis
    by (auto simp: rx_step_def in_flight_def Let_def split: list.splits option.splits prod.splits)
qed

lemma new_transmit_in_flight:
  assumes inv: "policy_inv (retry_policy n)"
    and old: "\<not> should_transmit k (retry_policy n)"
    and new: "should_transmit k (retry_policy (node_step e n))"
  shows "k \<in> rf_seq ` set (in_flight (node_step e n))"
proof (cases "\<exists>data. e = CommandMsg data")
  case True
  then obtain data where e: "e = CommandMsg data" by blast
  let ?p = "if data = ''STOP'' then cancel_non_stop (retry_policy n) else retry_policy n"
  let ?op = "Start (next_seq n) (map_to_uart_command data (next_seq n)) (data = ''STOP'')"
  have guards: "callback n = CbIdle" "valid_command data" "0 \<le> uart_fd n" "next_seq n \<noteq> 0"
    using new [unfolded node_step_policy e] old by (auto split: if_splits)
  have p: "policy_inv ?p" "\<not> should_transmit k ?p"
    using inv old policy_inv_step [of _ CancelNonStop] should_transmit_step [OF inv, of k CancelNonStop] by auto
  have "retry_policy (node_step e n) = policy_step ?op ?p"
    unfolding node_step_policy e using guards by simp
  with should_transmit_step [OF p(1) _ p(2), of ?op] new
  have "k = next_seq n" "\<not> registered ?p (next_seq n)" by (auto simp: start_result)
  with guards e show ?thesis
    by (simp add: callback_register_accepted accepts_def in_flight_def split: if_splits)
next
  case False
  with node_ops_shape [of e n] consider "node_ops e n = []"
    | op where "node_ops e n = [op]" "\<forall>k frame is_stop. op \<noteq> Start k frame is_stop" by auto
  then obtain op where op: "node_ops e n = [op]" "\<forall>k frame is_stop. op \<noteq> Start k frame is_stop"
    using new [unfolded node_step_policy] old by cases auto
  moreover have "should_transmit k (policy_step op (retry_policy n))"
    using new [unfolded node_step_policy] op(1) by simp
  ultimately obtain now where
    ops: "node_ops e n = [Poll now]" "k \<in> rf_seq ` set (fst (poll now (retry_policy n)))"
    using should_transmit_step [OF inv _ old, of op] by auto
  then have "e = RetryPoll now \<and> retry n = RetryRunning [] \<and> \<not> retry_stop n"
    by (cases e) (auto split: callback_pc.splits tx_pc.splits list.splits option.splits prod.splits if_splits)
  with ops(2) show ?thesis by (auto simp: retry_poll_def in_flight_def split: prod.splits)
qed

lemma queued_inv_step:
  assumes "policy_inv (retry_policy n)" and "queued_inv n"
  shows "queued_inv (node_step e n)"
  unfolding queued_inv_def
proof (intro impI allI)
  fix k
  assume act: "active (node_step e n)" and new: "should_transmit k (retry_policy (node_step e n))"
  show "k \<in> rf_seq ` set (in_flight (node_step e n))"
  proof (cases "should_transmit k (retry_policy n)")
    case True
    with active_step [OF act] assms(2) obtain f where "f \<in> set (in_flight n)" "k = rf_seq f"
      by (auto simp: queued_inv_def)
    with in_flight_kept [OF assms(1) act] new show ?thesis by auto
  qed (rule new_transmit_in_flight [OF assms(1) _ new])
qed

lemma latest_step:
  "latest_requested_seq (node_step e n) = latest_requested_seq n \<or>
   (\<exists>data. e = CommandMsg data \<and> accepts data n \<and> callback n = CbIdle \<and>
      latest_requested_seq (node_step e n) = next_seq n)"
proof (cases e)
  case (CommandMsg data)
  show ?thesis
  proof (cases "accepts data n \<and> callback n = CbIdle")
    case True
    with CommandMsg show ?thesis by (simp add: callback_register_accepted)
  next
    case False
    have "latest_requested_seq (callback_register data n) = latest_requested_seq n" if "\<not> accepts data n"
      by (subst callback_register_rejected [OF that]) simp
    with CommandMsg False show ?thesis by auto
  qed
qed (auto simp: callback_enqueue_def enqueue_uart_command_def callback_fail_def
    tx_take_def tx_transmit_def rx_read_def rx_step_def retry_poll_def retry_push_def dtor_step_def Let_def
    split: callback_pc.splits tx_pc.splits retry_pc.splits dtor_pc.splits read_result.splits
      list.splits option.splits prod.splits)

lemma latest_registered_step:
  assumes "policy_inv (retry_policy n)"
    and "latest_requested_seq n \<noteq> 0 \<longrightarrow> registered (retry_policy n) (latest_requested_seq n)"
    and "latest_requested_seq (node_step e n) \<noteq> 0"
  shows "registered (retry_policy (node_step e n)) (latest_requested_seq (node_step e n))"
proof (cases "latest_requested_seq (node_step e n) = latest_requested_seq n")
  case True
  with assms show ?thesis by (simp add: node_step_policy registered_run)
next
  case False
  with latest_step [of e n] obtain data where "e = CommandMsg data" "accepts data n"
    "callback n = CbIdle" "latest_requested_seq (node_step e n) = next_seq n" by blast
  with accepted_frame_known [OF assms(1), of data] show ?thesis
    by (auto simp: frame_known_def registered_def)
qed

lemma shutdown_inv_step:
  assumes "shutdown_inv n"
  shows "shutdown_inv (node_step e n)"
proof (cases e)
  case (CommandMsg data)
  let ?n = "callback_register data n"
  have "?n = n\<lparr>next_seq := next_seq ?n, retry_policy := retry_policy ?n, latest_requested_seq := latest_requested_seq ?n,
      callback := callback ?n\<rparr>"
    by (auto simp: callback_register_def Let_def split: prod.splits)
  then have "shutdown_inv ?n \<longleftrightarrow> shutdown_inv n" by (rule ssubst) (simp add: shutdown_inv_def threads_done_def)
  with assms CommandMsg show ?thesis by simp
qed (use assms in \<open>auto simp: shutdown_inv_def threads_done_def callback_enqueue_def enqueue_uart_command_def callback_fail_def
    notify_queue_tx tx_take_def tx_transmit_def rx_read_def rx_step_def retry_poll_def retry_push_def dtor_step_def Let_def
    split: callback_pc.splits tx_pc.splits retry_pc.splits dtor_pc.splits read_result.splits
      list.splits option.splits prod.splits if_splits\<close>)

lemma refused_inv_step: "refused_inv n \<Longrightarrow> refused_inv (node_step e n)"
  by (cases e) (auto simp: refused_inv_def callback_register_def callback_enqueue_def enqueue_uart_command_def
      callback_fail_def tx_take_def tx_transmit_def rx_read_def rx_step_def retry_poll_def retry_push_def
      dtor_step_def Let_def
      split: callback_pc.splits tx_pc.splits retry_pc.splits dtor_pc.splits read_result.splits
        list.splits option.splits prod.splits if_splits)

lemma node_inv_step: "node_inv n \<Longrightarrow> node_inv (node_step e n)"
  unfolding node_inv_def
  by (intro conjI impI latest_registered_step)
    (blast intro: policy_inv_node_step commands_inv_step flight_inv_step log_inv_step queued_inv_step shutdown_inv_step
      refused_inv_step)+

lemma node_inv_new: "node_inv (new_HandBridgeNode os port baud)"
proof -
  have "find_request k new_RetryPolicy = None" for k by (simp add: find_request_def new_RetryPolicy_def)
  then show ?thesis
    by (auto simp: node_inv_def new_HandBridgeNode_def policy_inv_new commands_inv_def flight_inv_def
        log_inv_def queued_inv_def shutdown_inv_def refused_inv_def in_flight_def should_transmit_def split: prod.splits)
qed

interpretation node: invariant_system "\<lambda>n. \<exists>os port baud. n = new_HandBridgeNode os port baud"
  "\<lambda>n n'. \<exists>e. n' = node_step e n" node_inv
  by unfold_locales (auto simp: node_inv_new node_inv_step)

lemma node_run_reaches: "(\<lambda>n n'. \<exists>e. n' = node_step e n)\<^sup>*\<^sup>* n (node_run es n)"
  by (induction es arbitrary: n) (auto intro: converse_rtranclp_into_rtranclp)

lemma node_inv_run: "node_inv n \<Longrightarrow> node_inv (node_run es n)"
  by (rule node.inv_run [OF node_run_reaches])

lemma node_inv_reachable: "node_inv (node_run es (new_HandBridgeNode os port baud))"
  by (rule node_inv_run [OF node_inv_new])

section \<open>The node as a send ledger\<close>

definition node_sends :: "node_event \<Rightarrow> HandBridgeNode \<Rightarrow> u32 \<Rightarrow> nat" where
  "node_sends e n k = attempts k (node_step e n) - attempts k n"

lemma node_pay:
  assumes "node_inv n" and "registered (retry_policy n) k"
  shows "node_sends e n k + policy_credit (retry_policy (node_step e n)) k \<le> policy_credit (retry_policy n) k"
proof -
  have inv: "policy_inv (retry_policy n)" using assms(1) by (simp add: node_inv_def)
  show ?thesis
    using ledger.total_le_credit [OF inv assms(2), of "node_ops e n"] attempts_step [of k e n]
    by (simp add: node_sends_def node_step_policy policy_run_ledger policy_send_count_ledger)
qed

lemma node_no_send:
  assumes "node_inv n" and "\<not> registered (retry_policy n) k"
  shows "node_sends e n k = 0"
  using uart_log_step [of e n] assms(2)
  by (auto simp: node_sends_def attempts_def should_transmit_def registered_def split: option.splits)

interpretation node_ledger: send_ledger node_step node_sends
  "\<lambda>n. policy_credit (retry_policy n)" "\<lambda>n. registered (retry_policy n)" node_inv 3
proof unfold_locales
  fix n e k
  assume inv: "node_inv n"
  then have p: "policy_inv (retry_policy n)" by (simp add: node_inv_def)
  show "node_inv (node_step e n)" using inv by (rule node_inv_step)
  show "registered (retry_policy n) k \<Longrightarrow> registered (retry_policy (node_step e n)) k"
    by (simp add: node_step_policy registered_run p)
  show "registered (retry_policy n) k \<Longrightarrow>
      node_sends e n k + policy_credit (retry_policy (node_step e n)) k \<le> policy_credit (retry_policy n) k"
    by (rule node_pay [OF inv])
  show "\<not> registered (retry_policy n) k \<Longrightarrow> node_sends e n k = 0" by (rule node_no_send [OF inv])
  show "\<not> registered (retry_policy n) k \<Longrightarrow> policy_credit (retry_policy (node_step e n)) k \<le> 3"
    by (simp add: node_step_policy policy_grant_run p)
qed

lemma node_run_ledger: "node_run es n = node_ledger.run es n"
  by (induction es arbitrary: n) auto

lemma attempts_run: "attempts k (node_run es n) = attempts k n + node_ledger.total es n k"
proof (induction es arbitrary: n)
  case (Cons e es)
  have "attempts k n + node_sends e n k = attempts k (node_step e n)"
    using attempts_mono [of k n e] by (simp add: node_sends_def)
  with Cons.IH [of "node_step e n"] show ?case by simp
qed simp

lemma node_run_append: "node_run (xs @ ys) n = node_run ys (node_run xs n)"
  by (induction xs arbitrary: n) auto

section \<open>What was received\<close>

text \<open>The characters the receive worker has processed.\<close>

fun rx_consumed :: "node_event list \<Rightarrow> HandBridgeNode \<Rightarrow> string" where
  "rx_consumed [] n = []"
| "rx_consumed (e # es) n =
     (case e of RxChar now \<Rightarrow> take 1 (rx_buffer n) | _ \<Rightarrow> []) @ rx_consumed es (node_step e n)"

lemma rx_unchanged: "(\<forall>now. e \<noteq> RxChar now) \<Longrightarrow> rx (node_step e n) = rx n"
proof (cases e)
  case (CommandMsg data)
  have "rx (callback_register data n) = rx n"
    by (auto simp: callback_register_def Let_def split: prod.splits)
  with CommandMsg show ?thesis by simp
qed (auto simp: callback_enqueue_def enqueue_uart_command_def callback_fail_def
    tx_take_def tx_transmit_def rx_read_def retry_poll_def retry_push_def dtor_step_def Let_def
    split: callback_pc.splits tx_pc.splits retry_pc.splits dtor_pc.splits read_result.splits
      list.splits option.splits prod.splits)

lemma rx_step_feed: "rx (rx_step now n) = snd (rx_feed (take 1 (rx_buffer n)) (rx n))"
  by (auto simp: rx_step_def Let_def split: list.splits prod.splits option.splits)

lemma rx_consumed_state: "rx (node_run es n) = snd (rx_feed (rx_consumed es n) (rx n))"
proof (induction es arbitrary: n)
  case (Cons e es)
  show ?case
  proof (cases "\<exists>now. e = RxChar now")
    case True
    with Cons.IH [of "node_step e n"] show ?thesis
      by (auto simp: rx_feed_append rx_step_feed split: prod.splits)
  next
    case False
    with Cons.IH [of "node_step e n"] rx_unchanged [of e n] show ?thesis
      by (cases e) auto
  qed
qed simp

text \<open>Every acknowledgement the policy sees is one of the lines received.\<close>

lemma node_ops_ack:
  assumes "OnAck k status t \<in> set (node_ops e n)"
  shows "\<exists>line. line \<in> set (fst (rx_feed (rx_consumed [e] n) (rx n))) \<and> rx_ack line = Some (k, status)"
proof (cases "\<exists>now. e = RxChar now")
  case True
  then obtain now where e: "e = RxChar now" by blast
  then obtain ch rest where buf: "rx_buffer n = ch # rest" using assms by (cases "rx_buffer n") auto
  obtain line where line: "fst (rx_char ch (rx n)) = Some line"
    using assms e buf by (cases "fst (rx_char ch (rx n))") auto
  obtain a where "rx_ack line = Some a" using assms e buf line by (cases "rx_ack line") auto
  with assms e buf line show ?thesis by (auto split: prod.splits)
next
  case False
  have "OnAck k status t \<notin> set (node_ops (CommandMsg data) n)" for data by simp
  with False node_ops_shape [of e n] assms show ?thesis by auto
qed

lemma node_history_ack:
  assumes "OnAck k status t \<in> set (node_history es n)"
  shows "\<exists>line. line \<in> set (fst (rx_feed (rx_consumed es n) (rx n))) \<and> rx_ack line = Some (k, status)"
  using assms
proof (induction es arbitrary: n)
  case (Cons e es)
  have feed: "fst (rx_feed (rx_consumed (e # es) n) (rx n)) =
      fst (rx_feed (rx_consumed [e] n) (rx n)) @
      fst (rx_feed (rx_consumed es (node_step e n)) (rx (node_step e n)))"
    using rx_consumed_state [of "[e]" n] by (auto simp: rx_feed_append split: prod.splits)
  from Cons.prems consider "OnAck k status t \<in> set (node_ops e n)"
    | "OnAck k status t \<in> set (node_history es (node_step e n))" by auto
  then show ?case
  proof cases
    case 1
    with node_ops_ack [OF 1] feed show ?thesis by auto
  next
    case 2
    with Cons.IH [OF 2] feed show ?thesis by auto
  qed
qed simp

end
