(* ===== verification/Hand_Bridge_Schedules.thy ===== *)
theory Hand_Bridge_Schedules
  imports Hand_Bridge_Node
begin

text \<open>
  Schedules of the threads of the hand bridge: rounds of the transmit worker that drain the queue, what
  can reach the wire before an accepted STOP, and the fair schedules under which the destructor ends.
\<close>

section \<open>Draining the queue\<close>

text \<open>Rounds of the transmit worker, each with the results of its writes and its reading of the clock.\<close>

definition tx_rounds :: "(io_result list \<times> TimePoint) list \<Rightarrow> node_event list" where
  "tx_rounds rounds = concat (map (\<lambda>(results, now). [TxTake, TxTransmit results now]) rounds)"

lemma tx_rounds_simps [simp]:
  "tx_rounds [] = []"
  "tx_rounds ((results, now) # rounds) = TxTake # TxTransmit results now # tx_rounds rounds"
  by (simp_all add: tx_rounds_def)

text \<open>The writes of every round return, for every frame of the queue; or they are all complete.\<close>

definition writes_return :: "HandBridgeNode \<Rightarrow> (io_result list \<times> TimePoint) list \<Rightarrow> bool" where
  "writes_return n rounds \<longleftrightarrow> (\<forall>f \<in> set (command_queue n). \<forall>(results, now) \<in> set rounds.
     write_uart (uart_fd n) (rf_frame f) results \<noteq> None)"

definition writes_complete :: "HandBridgeNode \<Rightarrow> (io_result list \<times> TimePoint) list \<Rightarrow> bool" where
  "writes_complete n rounds \<longleftrightarrow> (\<forall>f \<in> set (command_queue n). \<forall>(results, now) \<in> set rounds.
     map_option fst (write_uart (uart_fd n) (rf_frame f) results) = Some True)"

definition tx_ready :: "HandBridgeNode \<Rightarrow> bool" where
  "tx_ready n \<longleftrightarrow> active n \<and> callback n = CbIdle \<and> (tx n = TxWaiting \<or> tx n = TxSleeping) \<and> retry n = RetryRunning []"

lemma tx_round_empty:
  assumes "tx_ready n" and "command_queue n = []"
  shows "node_run [TxTake, TxTransmit results now] n = n\<lparr>tx := TxSleeping\<rparr>"
proof -
  have "\<not> stop_worker n" and "tx n = TxWaiting \<or> tx n = TxSleeping" using assms(1) by (auto simp: tx_ready_def active_def)
  with assms(2) have "tx_take n = n\<lparr>tx := TxSleeping\<rparr>" by (cases n) (auto simp: tx_take_def)
  then show ?thesis by (simp add: tx_transmit_def)
qed

lemma tx_rounds_empty:
  "tx_ready n \<Longrightarrow> command_queue n = [] \<Longrightarrow>
     node_run (tx_rounds rounds) n = n \<or> node_run (tx_rounds rounds) n = n\<lparr>tx := TxSleeping\<rparr>"
proof (induction rounds arbitrary: n)
  case (Cons r rounds)
  obtain results now where r: "r = (results, now)" by (cases r)
  have "node_run (tx_rounds (r # rounds)) n = node_run (tx_rounds rounds) (n\<lparr>tx := TxSleeping\<rparr>)"
    using tx_round_empty [OF Cons.prems, of results now] by (simp add: r)
  moreover have "tx_ready (n\<lparr>tx := TxSleeping\<rparr>)" using Cons.prems(1) by (simp add: tx_ready_def active_def)
  ultimately show ?case using Cons.IH [of "n\<lparr>tx := TxSleeping\<rparr>"] Cons.prems(2) by auto
qed simp

text \<open>One round takes and writes the frame at the head; a worker with a frame to take is not asleep.\<close>

lemma tx_round:
  assumes "node_inv n" and "tx_ready n" and "command_queue n = f # q"
    and "write_uart (uart_fd n) (rf_frame f) results = Some (sent, calls)"
  shows "tx_ready (node_run [TxTake, TxTransmit results now] n)"
    "command_queue (node_run [TxTake, TxTransmit results now] n) = q"
    "uart_fd (node_run [TxTake, TxTransmit results now] n) = uart_fd n"
    "uart_log (node_run [TxTake, TxTransmit results now] n) =
       uart_log n @ (if should_transmit (rf_seq f) (retry_policy n) then [(rf_seq f, wire_bytes (rf_frame f) calls)] else [])"
proof -
  have "tx n = TxWaiting" using assms(1-3) by (auto simp: tx_ready_def node_inv_def shutdown_inv_def)
  with assms show "tx_ready (node_run [TxTake, TxTransmit results now] n)"
    "command_queue (node_run [TxTake, TxTransmit results now] n) = q"
    "uart_fd (node_run [TxTake, TxTransmit results now] n) = uart_fd n"
    "uart_log (node_run [TxTake, TxTransmit results now] n) =
       uart_log n @ (if should_transmit (rf_seq f) (retry_policy n) then [(rf_seq f, wire_bytes (rf_frame f) calls)] else [])"
    by (auto simp: tx_ready_def active_def tx_take_def tx_transmit_def)
qed

lemma tx_rounds_drain:
  assumes "node_inv n" and "tx_ready n" and "length (command_queue n) \<le> length rounds" and "writes_return n rounds"
  shows "command_queue (node_run (tx_rounds rounds) n) = [] \<and> tx_ready (node_run (tx_rounds rounds) n) \<and>
    (\<exists>new. uart_log (node_run (tx_rounds rounds) n) = uart_log n @ new \<and>
       (writes_complete n rounds \<longrightarrow> set new \<subseteq> (\<lambda>f. (rf_seq f, rf_frame f)) ` set (command_queue n)))"
  using assms
proof (induction rounds arbitrary: n)
  case Nil
  then show ?case by simp
next
  case (Cons r rounds)
  obtain results now where r: "r = (results, now)" by (cases r)
  show ?case
  proof (cases "command_queue n")
    case Nil
    have "tx_ready (n\<lparr>tx := TxSleeping\<rparr>)" using Cons.prems(2) by (simp add: tx_ready_def active_def)
    with tx_rounds_empty [OF Cons.prems(2) Nil, of "r # rounds"] Cons.prems(2) Nil show ?thesis by auto
  next
    case q: (Cons f q)
    let ?n = "node_run [TxTake, TxTransmit results now] n"
    obtain sent calls where w: "write_uart (uart_fd n) (rf_frame f) results = Some (sent, calls)"
      using Cons.prems(4) q r by (fastforce simp: writes_return_def)
    note step = tx_round [OF Cons.prems(1,2) q w, of now]
    have rest: "writes_return ?n rounds" "writes_complete n (r # rounds) \<Longrightarrow> writes_complete ?n rounds"
      using Cons.prems(4) q step(2,3) by (simp_all add: writes_return_def writes_complete_def)
    have whole: "wire_bytes (rf_frame f) calls = rf_frame f" if "writes_complete n (r # rounds)"
    proof -
      have "sent" using that q w r by (simp add: writes_complete_def)
      then have "0 \<le> uart_fd n" using w by (simp add: write_uart_def split: if_splits)
      with write_uart_wire(2) [OF w] \<open>sent\<close> show ?thesis by blast
    qed
    from Cons.IH [OF node_inv_run [OF Cons.prems(1)] step(1) _ rest(1)] Cons.prems(3) q step(2) obtain new
      where new: "command_queue (node_run (tx_rounds rounds) ?n) = []" "tx_ready (node_run (tx_rounds rounds) ?n)"
        "uart_log (node_run (tx_rounds rounds) ?n) = uart_log ?n @ new"
        "writes_complete ?n rounds \<Longrightarrow> set new \<subseteq> (\<lambda>f. (rf_seq f, rf_frame f)) ` set q" by auto
    let ?log = "if should_transmit (rf_seq f) (retry_policy n) then [(rf_seq f, wire_bytes (rf_frame f) calls)] else []"
    have "writes_complete n (r # rounds) \<Longrightarrow> set (?log @ new) \<subseteq> (\<lambda>f. (rf_seq f, rf_frame f)) ` set (f # q)"
      using new(4) rest(2) whole by auto
    moreover have "node_run (tx_rounds (r # rounds)) n = node_run (tx_rounds rounds) ?n" using r by simp
    moreover have "uart_log (node_run (tx_rounds rounds) ?n) = uart_log n @ (?log @ new)" using new(3) step(4) by simp
    ultimately show ?thesis using new(1,2) unfolding q by (intro conjI exI [of _ "?log @ new"]) simp_all
  qed
qed

text \<open>The transmit worker takes a request off the list of those to transmit only by an attempt.\<close>

definition tx_event :: "node_event \<Rightarrow> bool" where
  "tx_event e \<longleftrightarrow> e = TxTake \<or> (\<exists>results now. e = TxTransmit results now)"

lemma tx_event_sends:
  assumes "policy_inv (retry_policy n)" and "tx_event e" and "should_transmit k (retry_policy n)"
  shows "should_transmit k (retry_policy (node_step e n)) \<or> attempts k n < attempts k (node_step e n)"
  using assms
  by (auto simp: tx_event_def tx_take_def tx_transmit_def should_transmit_def find_request_def mark_sent_def
      mark_send_failed_def smap.find_put policy_inv_def attempts_def
      split: tx_pc.splits list.splits option.splits if_splits)

lemma tx_events_send:
  assumes "node_inv n" and "list_all tx_event es" and "should_transmit k (retry_policy n)"
  shows "should_transmit k (retry_policy (node_run es n)) \<or> attempts k n < attempts k (node_run es n)"
  using assms
proof (induction es arbitrary: n)
  case Nil
  then show ?case by simp
next
  case (Cons e es)
  have p: "policy_inv (retry_policy n)" and e: "tx_event e" using Cons.prems by (simp_all add: node_inv_def)
  have mono: "attempts k (node_step e n) \<le> attempts k (node_run es (node_step e n))"
    by (simp add: attempts_run)
  from tx_event_sends [OF p e Cons.prems(3)] show ?case
  proof
    assume "should_transmit k (retry_policy (node_step e n))"
    with Cons.IH [OF node_inv_step [OF Cons.prems(1)]] Cons.prems(2) attempts_mono [of k n e]
    show ?thesis by (auto intro: le_less_trans)
  next
    assume "attempts k n < attempts k (node_step e n)"
    with mono show ?thesis by simp
  qed
qed

lemma tx_rounds_events: "list_all tx_event (tx_rounds rounds)"
  by (induction rounds) (auto simp: tx_event_def)

section \<open>The closed queue\<close>

definition tx_left :: "HandBridgeNode \<Rightarrow> nat" where
  "tx_left n = length (tx_frames (tx n))"

lemma stopped_step:
  assumes "stop_worker n"
  shows "stop_worker (node_step e n) \<and>
    length (uart_log (node_step e n)) + tx_left (node_step e n) \<le> length (uart_log n) + tx_left n"
proof (cases e)
  case (CommandMsg data)
  have "uart_log (callback_register data n) = uart_log n \<and> tx (callback_register data n) = tx n \<and>
      stop_worker (callback_register data n) = stop_worker n"
    by (auto simp: callback_register_def Let_def split: prod.splits)
  with CommandMsg assms show ?thesis by (simp add: tx_left_def)
qed (use assms in \<open>auto simp: tx_left_def callback_enqueue_def enqueue_uart_command_def callback_fail_def
    tx_take_def tx_transmit_def notify_queue_tx rx_read_def rx_step_def retry_poll_def retry_push_def dtor_step_def Let_def
    split: callback_pc.splits tx_pc.splits retry_pc.splits dtor_pc.splits read_result.splits
      list.splits option.splits prod.splits\<close>)

lemma stopped_run:
  "stop_worker n \<Longrightarrow> length (uart_log (node_run es n)) + tx_left (node_run es n) \<le> length (uart_log n) + tx_left n"
proof (induction es arbitrary: n)
  case (Cons e es)
  note step = stopped_step [OF Cons.prems, of e]
  then have "length (uart_log (node_run es (node_step e n))) + tx_left (node_run es (node_step e n)) \<le>
      length (uart_log (node_step e n)) + tx_left (node_step e n)" by (blast intro: Cons.IH)
  with step show ?case by simp
qed simp

section \<open>Nothing but STOP before an accepted STOP\<close>

text \<open>
  A request is quiet if it is a STOP or can no longer be sent; a pending STOP has not been written yet.
  Neither can be changed by operations that are not about the request itself.
\<close>

definition quiet :: "RetryPolicy \<Rightarrow> u32 \<Rightarrow> bool" where
  "quiet p k \<longleftrightarrow> (\<exists>r. find_request k p = Some r \<and> (rq_is_stop r \<or> request_credit r = 0))"

definition pending_stop :: "RetryPolicy \<Rightarrow> u32 \<Rightarrow> bool" where
  "pending_stop p k \<longleftrightarrow> (\<exists>r. find_request k p = Some r \<and> rq_is_stop r \<and> rq_state r = QUEUED)"

lemma pending_stop_quiet: "pending_stop p k \<Longrightarrow> quiet p k"
  by (auto simp: pending_stop_def quiet_def)

lemma pending_stop_transmits: "pending_stop p k \<Longrightarrow> should_transmit k p"
  by (auto simp: pending_stop_def should_transmit_def)

lemma quiet_run:
  assumes "policy_inv p" and "quiet p k"
  shows "quiet (policy_run ops p) k"
proof -
  from assms(2) obtain r where r: "find_request k p = Some r" "rq_is_stop r \<or> request_credit r = 0"
    by (auto simp: quiet_def)
  have "policy_credit (policy_run ops p) k \<le> policy_credit p k"
    using ledger.total_le_credit [OF assms(1), of k ops] r(1) by (simp add: registered_def policy_run_ledger)
  with r policy_run_keeps [OF assms(1) r(1), of ops] show ?thesis by (auto simp: quiet_def policy_credit_def)
qed

lemma quiet_transmits: "quiet p k \<Longrightarrow> should_transmit k p \<Longrightarrow> \<exists>r. find_request k p = Some r \<and> rq_is_stop r"
  by (auto simp: quiet_def should_transmit_def request_credit_def)

lemma pending_stop_step:
  assumes "policy_inv p" and "pending_stop p k" and "\<forall>t. op \<noteq> MarkSent k t" and "op \<noteq> MarkSendFailed k"
  shows "pending_stop (policy_step op p) k"
proof -
  from assms(1) have ord: "std_ordered (requests p)" by (simp add: policy_inv_def)
  from assms(2) obtain r where r: "std_find k (requests p) = Some r" "rq_is_stop r" "rq_state r = QUEUED"
    by (auto simp: pending_stop_def find_request_def)
  show ?thesis
  proof (cases op)
    case (Start seq frame is_stop)
    with r ord show ?thesis
      by (cases "std_find seq (requests p)")
        (auto simp: pending_stop_def find_request_def start_def Let_def smap.find_put)
  next
    case (Poll now)
    with r show ?thesis
      by (simp add: pending_stop_def find_request_def requests_poll smap.find_for_each poll_request_def)
  qed (use assms(3,4) r ord in \<open>auto simp: pending_stop_def find_request_def mark_sent_def mark_send_failed_def
      on_ack_def ack_request_def cancel_non_stop_def cancel_request_def smap.find_for_each smap.find_put
      split: option.splits if_splits AckStatus.splits\<close>)
qed

lemma pending_stop_run:
  "policy_inv p \<Longrightarrow> pending_stop p k \<Longrightarrow> (\<And>t. MarkSent k t \<notin> set ops) \<Longrightarrow> MarkSendFailed k \<notin> set ops \<Longrightarrow>
     pending_stop (policy_run ops p) k"
proof (induction ops arbitrary: p)
  case (Cons op ops)
  have "pending_stop (policy_step op p) k"
    by (rule pending_stop_step [OF Cons.prems(1,2)]) (use Cons.prems(3,4) in auto)
  with Cons.IH [OF policy_inv_step [OF Cons.prems(1)]] Cons.prems(3,4) show ?case by simp
qed simp

text \<open>
  Until its first transmission, an accepted STOP is in the hand of the callback, in the queue behind quiet
  frames only, or in the hand of the transmit worker, and otherwise that worker holds a quiet frame at
  most; once the queue is closed nothing but what that worker holds can still be written.
\<close>

definition stop_at_callback :: "u32 \<Rightarrow> HandBridgeNode \<Rightarrow> bool" where
  "stop_at_callback k n \<longleftrightarrow> (\<exists>f. callback n = CbEnqueue f True \<and> rf_seq f = k) \<and>
     (\<forall>j. registered (retry_policy n) j \<longrightarrow> quiet (retry_policy n) j)"

definition stop_in_queue :: "u32 \<Rightarrow> HandBridgeNode \<Rightarrow> bool" where
  "stop_in_queue k n \<longleftrightarrow>
     (\<exists>pre f post. command_queue n = pre @ f # post \<and> rf_seq f = k \<and> (\<forall>g \<in> set pre. quiet (retry_policy n) (rf_seq g))) \<and>
     (\<forall>g. callback n = CbEnqueue g True \<longrightarrow> quiet (retry_policy n) (rf_seq g))"

definition stop_in_hand :: "u32 \<Rightarrow> HandBridgeNode \<Rightarrow> bool" where
  "stop_in_hand k n \<longleftrightarrow> (\<exists>f. tx n = TxHolding f \<and> rf_seq f = k)"

definition stop_first :: "u32 \<Rightarrow> HandBridgeNode \<Rightarrow> bool" where
  "stop_first k n \<longleftrightarrow> (\<forall>f \<in> set (tx_frames (tx n)). quiet (retry_policy n) (rf_seq f)) \<and>
     (stop_worker n \<or> pending_stop (retry_policy n) k \<and> (stop_at_callback k n \<or> stop_in_queue k n \<or> stop_in_hand k n))"

lemma quiet_step: "node_inv n \<Longrightarrow> quiet (retry_policy n) j \<Longrightarrow> quiet (retry_policy (node_step e n)) j"
  by (simp add: node_step_policy quiet_run node_inv_def)

lemma registered_back:
  assumes "policy_inv (retry_policy n)" and "\<forall>data. e \<noteq> CommandMsg data" and "registered (retry_policy (node_step e n)) j"
  shows "registered (retry_policy n) j"
proof (rule ccontr)
  assume "\<not> registered (retry_policy n) j"
  then have "find_request j (retry_policy n) = None" by (simp add: registered_def)
  from policy_run_new [OF assms(1) this, of "node_ops e n"] assms(3) obtain frame is_stop where
    "Start j frame is_stop \<in> set (node_ops e n)" by (auto simp: node_step_policy registered_def)
  with node_ops_start assms(2) show False by blast
qed

lemma accepted_stop_pending:
  assumes "policy_inv (retry_policy n)" and "accepts ''STOP'' n" and "callback n = CbIdle"
  shows "pending_stop (retry_policy (node_step (CommandMsg ''STOP'') n)) (next_seq n)"
proof -
  let ?s = "start (next_seq n) (map_to_uart_command ''STOP'' (next_seq n)) True (cancel_non_stop (retry_policy n))"
  have "retry_policy (node_step (CommandMsg ''STOP'') n) = snd ?s"
    unfolding node_step_policy using assms(2,3) by (simp add: accepts_def)
  moreover have "find_request (next_seq n) (retry_policy n) = None"
    using assms(2) by (simp add: accepts_def registered_def)
  ultimately show ?thesis
    using assms map_to_uart_command_nonempty [of "''STOP''" "next_seq n"]
    by (simp add: accepts_def start_def pending_stop_def find_request_def cancel_non_stop_def
        smap.find_for_each smap.find_put smap.invar_for_each policy_inv_def default_Request_def)
qed

text \<open>One event, while the STOP is at each of the three places.\<close>

lemma stop_at_callback_step:
  assumes "node_inv n" and "\<not> stop_worker n" and "stop_at_callback k n"
  shows "stop_at_callback k (node_step e n) \<or> stop_in_queue k (node_step e n)"
proof -
  from assms(3) obtain f where f: "callback n = CbEnqueue f True" "rf_seq f = k"
    and q: "\<And>j. registered (retry_policy n) j \<Longrightarrow> quiet (retry_policy n) j" by (auto simp: stop_at_callback_def)
  show ?thesis
  proof (cases "\<exists>data. e = CommandMsg data")
    case True
    with f assms(3) show ?thesis by auto
  next
    case False
    then have quiet: "\<forall>j. registered (retry_policy (node_step e n)) j \<longrightarrow> quiet (retry_policy (node_step e n)) j"
      using registered_back [of n e] q assms(1) quiet_step by (auto simp: node_inv_def)
    have "callback (node_step e n) = callback n \<or>
        callback (node_step e n) = CbIdle \<and> command_queue (node_step e n) = f # command_queue n"
      using False f assms(2)
      by (cases e) (auto simp: callback_enqueue_def enqueue_uart_command_def callback_fail_def tx_take_def
          tx_transmit_def rx_read_def rx_step_def retry_poll_def retry_push_def dtor_step_def Let_def
          split: tx_pc.splits retry_pc.splits dtor_pc.splits read_result.splits list.splits option.splits prod.splits)
    then show ?thesis
    proof
      assume "callback (node_step e n) = callback n"
      with f quiet show ?thesis by (simp add: stop_at_callback_def)
    next
      assume "callback (node_step e n) = CbIdle \<and> command_queue (node_step e n) = f # command_queue n"
      with f show ?thesis by (auto simp: stop_in_queue_def intro!: exI [of _ "[]"])
    qed
  qed
qed

lemma stop_in_queue_step:
  assumes "node_inv n" and "\<not> stop_worker (node_step e n)" and "\<not> stop_worker n" and "stop_in_queue k n"
  shows "stop_in_queue k (node_step e n) \<or> stop_in_hand k (node_step e n)"
proof -
  from assms(4) obtain pre f post where queue: "command_queue n = pre @ f # post" "rf_seq f = k"
    and pre: "\<forall>g \<in> set pre. quiet (retry_policy n) (rf_seq g)"
    and cb: "\<And>g. callback n = CbEnqueue g True \<Longrightarrow> quiet (retry_policy n) (rf_seq g)" by (auto simp: stop_in_queue_def)
  note quiet = quiet_step [OF assms(1), of _ e]
  have policy: "policy_inv (retry_policy n)" using assms(1) by (simp add: node_inv_def)
  have cb': "quiet (retry_policy (node_step e n)) (rf_seq g)" if "callback (node_step e n) = CbEnqueue g True" for g
  proof (cases "callback n = CbEnqueue g True")
    case True
    with cb quiet show ?thesis by blast
  next
    case False
    with that obtain data where e: "e = CommandMsg data" "callback n = CbIdle" "callback (callback_register data n) = CbEnqueue g True"
      by (cases e) (auto simp: callback_enqueue_def enqueue_uart_command_def callback_fail_def tx_take_def
          tx_transmit_def rx_read_def rx_step_def retry_poll_def retry_push_def dtor_step_def Let_def
          split: callback_pc.splits tx_pc.splits retry_pc.splits dtor_pc.splits read_result.splits list.splits
            option.splits prod.splits if_splits)
    have acc: "accepts data n"
    proof (rule ccontr)
      assume "\<not> accepts data n"
      then have "callback (callback_register data n) = callback n" by (subst callback_register_rejected) simp_all
      with e(2,3) show False by simp
    qed
    with e callback_register_accepted [OF acc e(2)] have "data = ''STOP''" "rf_seq g = next_seq n" by auto
    with e acc accepted_stop_pending [OF policy, THEN pending_stop_quiet] show ?thesis by simp
  qed
  have queue': "(\<exists>pre' post'. command_queue (node_step e n) = pre' @ f # post' \<and>
        (\<forall>g \<in> set pre'. quiet (retry_policy n) (rf_seq g))) \<or> tx (node_step e n) = TxHolding f"
  proof (cases e)
    case (CommandMsg data)
    have "command_queue (callback_register data n) = command_queue n"
      by (auto simp: callback_register_def Let_def split: prod.splits)
    with CommandMsg queue(1) pre show ?thesis by auto
  next
    case CallbackEnqueue
    show ?thesis
    proof (cases "callback n")
      case (CbEnqueue g high)
      with CallbackEnqueue assms(3) queue(1)
      have "command_queue (node_step e n) = (if high then (g # pre) @ f # post else pre @ f # (post @ [g]))"
        by (simp add: callback_enqueue_def enqueue_uart_command_def)
      moreover have "high \<Longrightarrow> \<forall>x \<in> set (g # pre). quiet (retry_policy n) (rf_seq x)" using cb [of g] CbEnqueue pre by auto
      ultimately show ?thesis using pre by (metis (full_types))
    qed (use CallbackEnqueue queue(1) pre in \<open>auto simp: callback_enqueue_def\<close>)
  next
    case TxTake
    show ?thesis
    proof (cases "tx n = TxWaiting")
      case True
      with TxTake assms(3) queue(1) pre show ?thesis by (cases pre) (auto simp: tx_take_def)
    next
      case False
      then have "tx_take n = n" by (simp add: tx_take_def split: tx_pc.splits)
      with TxTake queue(1) pre show ?thesis by auto
    qed
  next
    case RetryPush
    have "\<exists>more. command_queue (retry_push n) = command_queue n @ more"
      by (auto simp: retry_push_def enqueue_uart_command_def split: retry_pc.splits list.splits)
    with RetryPush queue(1) pre show ?thesis by auto
  next
    case Destroy
    then have "command_queue (node_step e n) = command_queue n"
      using assms(2) by (auto simp: dtor_step_def split: dtor_pc.splits if_splits)
    with queue(1) pre show ?thesis by auto
  qed (use queue(1) pre in \<open>auto simp: callback_fail_def tx_transmit_def rx_read_def rx_step_def retry_poll_def Let_def
      split: callback_pc.splits tx_pc.splits retry_pc.splits read_result.splits list.splits option.splits prod.splits\<close>)
  with cb' quiet queue(2) show ?thesis unfolding stop_in_queue_def stop_in_hand_def by blast
qed

lemma stop_in_hand_step:
  assumes "policy_inv (retry_policy n)" and "pending_stop (retry_policy n) k" and "stop_in_hand k n"
    and "attempts k (node_step e n) = attempts k n"
  shows "stop_in_hand k (node_step e n)"
proof -
  from assms(3) obtain f where f: "tx n = TxHolding f" "rf_seq f = k" by (auto simp: stop_in_hand_def)
  have st: "should_transmit k (retry_policy n)" using assms(2) by (rule pending_stop_transmits)
  have "tx (node_step e n) = TxHolding f"
  proof (cases e)
    case (CommandMsg data)
    have "tx (callback_register data n) = tx n" by (auto simp: callback_register_def Let_def split: prod.splits)
    with CommandMsg f show ?thesis by simp
  next
    case (TxTransmit results now)
    with f st assms(4) show ?thesis
      by (auto simp: tx_transmit_def attempts_def split: option.splits)
  qed (use f in \<open>auto simp: callback_enqueue_def enqueue_uart_command_def callback_fail_def tx_take_def notify_queue_tx
      rx_read_def rx_step_def retry_poll_def retry_push_def dtor_step_def Let_def
      split: callback_pc.splits retry_pc.splits dtor_pc.splits read_result.splits list.splits option.splits prod.splits\<close>)
  with f(2) show ?thesis by (simp add: stop_in_hand_def)
qed

lemma pending_stop_node_step:
  assumes "node_inv n" and "\<not> stop_worker n" and "pending_stop (retry_policy n) k"
    and "attempts k (node_step e n) = attempts k n"
  shows "pending_stop (retry_policy (node_step e n)) k"
  unfolding node_step_policy
proof (rule pending_stop_run)
  show "policy_inv (retry_policy n)" using assms(1) by (simp add: node_inv_def)
  show "pending_stop (retry_policy n) k" by fact
  have "\<And>j. callback n \<noteq> CbFailed j" using assms(1,2) by (auto simp: node_inv_def refused_inv_def)
  then have failed: "node_ops CallbackFail n = []" by (simp split: callback_pc.splits)
  have "MarkSent k t \<notin> set (node_ops e n) \<and> MarkSendFailed k \<notin> set (node_ops e n)" for t
  proof (cases e)
    case (TxTransmit results now)
    show ?thesis
    proof (cases "\<exists>f. tx n = TxHolding f \<and> rf_seq f = k")
      case True
      then obtain f where f: "tx n = TxHolding f" "rf_seq f = k" by blast
      have "write_uart (uart_fd n) (rf_frame f) results = None"
        using assms(4) pending_stop_transmits [OF assms(3)] f unfolding TxTransmit
        by (cases "write_uart (uart_fd n) (rf_frame f) results") (auto simp: tx_transmit_def attempts_def)
      with f(1) have "node_ops (TxTransmit results now) n = []" by (cases "should_transmit (rf_seq f) (retry_policy n)") simp_all
      then show ?thesis by (simp only: TxTransmit list.set empty_iff not_False_eq_True simp_thms)
    next
      case False
      show ?thesis
      proof (cases "tx n")
        case (TxHolding f)
        with False have "rf_seq f \<noteq> k" by blast
        with TxHolding have "MarkSent k t \<notin> set (node_ops (TxTransmit results now) n)"
          "MarkSendFailed k \<notin> set (node_ops (TxTransmit results now) n)"
          by (cases "write_uart (uart_fd n) (rf_frame f) results"; cases "should_transmit (rf_seq f) (retry_policy n)"; auto)+
        then show ?thesis unfolding TxTransmit by blast
      qed (simp_all add: TxTransmit)
    qed
  qed (use failed in \<open>auto split: list.splits option.splits\<close>)
  then show "\<And>t. MarkSent k t \<notin> set (node_ops e n)" "MarkSendFailed k \<notin> set (node_ops e n)" by simp_all
qed

text \<open>What the transmit worker comes to hold is the head of the open queue.\<close>

lemma hand_step:
  assumes "tx (node_step e n) = TxHolding f"
  shows "tx n = TxHolding f \<or> \<not> stop_worker n \<and> tx n = TxWaiting \<and> (\<exists>rest. command_queue n = f # rest)"
proof (cases e)
  case (CommandMsg data)
  have "tx (callback_register data n) = tx n" by (auto simp: callback_register_def Let_def split: prod.splits)
  with CommandMsg assms show ?thesis by (simp split: if_splits)
qed (use assms in \<open>auto simp: callback_enqueue_def enqueue_uart_command_def callback_fail_def tx_take_def tx_transmit_def
    notify_queue_tx rx_read_def rx_step_def retry_poll_def retry_push_def dtor_step_def Let_def
    split: callback_pc.splits tx_pc.splits retry_pc.splits dtor_pc.splits read_result.splits list.splits option.splits
      prod.splits if_splits\<close>)

lemma stop_first_head:
  assumes "node_inv n" and "stop_first k n" and "\<not> stop_worker n" and "command_queue n = f # rest" and "tx n = TxWaiting"
  shows "quiet (retry_policy n) (rf_seq f)"
proof -
  have known: "registered (retry_policy n) (rf_seq f)"
    using assms(1,4) by (auto simp: node_inv_def flight_inv_def in_flight_def frame_known_def registered_def)
  have "quiet (retry_policy n) (rf_seq f)" if "command_queue n = pre @ g # post" "rf_seq g = k"
    "\<forall>h \<in> set pre. quiet (retry_policy n) (rf_seq h)" "pending_stop (retry_policy n) k" for pre g post
    using that assms(4) pending_stop_quiet by (cases pre) auto
  with assms(2,3,5) known show ?thesis
    by (auto simp: stop_first_def stop_at_callback_def stop_in_queue_def stop_in_hand_def)
qed

lemma stop_first_step:
  assumes "node_inv n" and "stop_first k n" and "attempts k (node_step e n) = attempts k n"
  shows "stop_first k (node_step e n)"
proof -
  let ?n = "node_step e n"
  have "quiet (retry_policy n) (rf_seq f)" if f: "tx ?n = TxHolding f" for f
  proof (cases "tx n = TxHolding f")
    case True
    with assms(2) show ?thesis by (simp add: stop_first_def)
  next
    case False
    with hand_step [OF f] stop_first_head [OF assms(1,2)] show ?thesis by blast
  qed
  then have hand: "\<forall>f \<in> set (tx_frames (tx ?n)). quiet (retry_policy ?n) (rf_seq f)"
    using quiet_step [OF assms(1)] by (cases "tx ?n") auto
  show ?thesis
  proof (cases "stop_worker ?n")
    case True
    with hand show ?thesis by (simp add: stop_first_def)
  next
    case False
    then have open_queue: "\<not> stop_worker n" using stopped_step by blast
    with assms(2) have pending: "pending_stop (retry_policy n) k"
      and "stop_at_callback k n \<or> stop_in_queue k n \<or> stop_in_hand k n" by (auto simp: stop_first_def)
    moreover have "policy_inv (retry_policy n)" using assms(1) by (simp add: node_inv_def)
    ultimately have "stop_at_callback k ?n \<or> stop_in_queue k ?n \<or> stop_in_hand k ?n"
      using stop_at_callback_step [OF assms(1) open_queue] stop_in_queue_step [OF assms(1) False open_queue]
        stop_in_hand_step [OF _ pending _ assms(3)] by blast
    with hand pending_stop_node_step [OF assms(1) open_queue pending assms(3)] show ?thesis by (simp add: stop_first_def)
  qed
qed

lemma cancelled_quiet:
  assumes "registered p j"
  shows "quiet (cancel_non_stop p) j"
proof -
  from assms obtain r where "find_request j p = Some r" by (auto simp: registered_def)
  then have "find_request j (cancel_non_stop p) = Some (cancel_request r)"
    by (simp add: find_request_def cancel_non_stop_def smap.find_for_each)
  moreover have "rq_is_stop (cancel_request r) \<or> request_credit (cancel_request r) = 0"
    by (cases "rq_state r") (simp_all add: cancel_request_def request_credit_def)
  ultimately show ?thesis by (auto simp: quiet_def)
qed

lemma stop_first_accepted:
  assumes "node_inv n" and "accepts ''STOP'' n" and "callback n = CbIdle"
  shows "stop_first (next_seq n) (node_step (CommandMsg ''STOP'') n)"
proof -
  let ?n = "node_step (CommandMsg ''STOP'') n"
  let ?op = "Start (next_seq n) (map_to_uart_command ''STOP'' (next_seq n)) True"
  let ?c = "cancel_non_stop (retry_policy n)"
  have p: "policy_inv (retry_policy n)" using assms(1) by (simp add: node_inv_def)
  have c: "policy_inv ?c" using policy_inv_step [OF p, of CancelNonStop] by simp
  have pending: "pending_stop (retry_policy ?n) (next_seq n)" by (rule accepted_stop_pending [OF p assms(2,3)])
  have policy: "retry_policy ?n = policy_run [?op] ?c"
    unfolding node_step_policy using assms(2,3) by (simp add: accepts_def)
  have quiet: "quiet (retry_policy ?n) j" if "registered (retry_policy ?n) j" for j
  proof (cases "registered (retry_policy n) j")
    case True
    then show ?thesis unfolding policy by (intro quiet_run [OF c] cancelled_quiet)
  next
    case False
    then have "find_request j ?c = None" using registered_cancel [of "retry_policy n" j] by (simp add: registered_def)
    with policy_run_new [OF c, of j "[?op]"] that have "j = next_seq n" unfolding policy by (auto simp: registered_def)
    with pending_stop_quiet [OF pending] show ?thesis by simp
  qed
  have known: "flight_inv ?n" using node_inv_step [OF assms(1)] unfolding node_inv_def by blast
  have "\<forall>f \<in> set (tx_frames (tx ?n)). quiet (retry_policy ?n) (rf_seq f)"
    using known quiet by (fastforce simp: flight_inv_def in_flight_def frame_known_def registered_def)
  moreover have "callback ?n = CbEnqueue (command_frame ''STOP'' n) True"
    by (simp add: assms(3) callback_register_accepted [OF assms(2,3)])
  ultimately show ?thesis using pending quiet by (simp add: stop_first_def stop_at_callback_def)
qed

lemma uart_log_run: "\<exists>new. uart_log (node_run es n) = uart_log n @ new"
proof (induction es arbitrary: n)
  case (Cons e es)
  from Cons.IH [of "node_step e n"] uart_log_step [of e n] show ?case by auto
qed simp

lemma stop_first_run:
  assumes "node_inv n" and "stop_first k n"
  shows "\<exists>new. uart_log (node_run es n) = uart_log n @ new \<and>
    (\<forall>(j, bytes) \<in> set (takeWhile (\<lambda>(j, bytes). j \<noteq> k) new).
       \<exists>r. find_request j (retry_policy (node_run es n)) = Some r \<and> rq_is_stop r) \<and>
    (k \<notin> fst ` set new \<longrightarrow> stop_first k (node_run es n))"
  using assms
proof (induction es arbitrary: n)
  case Nil
  then show ?case by simp
next
  case (Cons e es)
  let ?n = "node_step e n"
  obtain first where first: "uart_log ?n = uart_log n @ first" "length first \<le> 1"
    "\<And>j bytes. (j, bytes) \<in> set first \<Longrightarrow> \<exists>f. tx n = TxHolding f \<and> rf_seq f = j \<and> should_transmit j (retry_policy n)"
    using uart_log_step [of e n] that [of "[]"] that by fastforce
  show ?case
  proof (cases "k \<in> fst ` set first")
    case True
    then obtain bytes where "first = [(k, bytes)]" using first(2) by (cases first) auto
    with uart_log_run [of es ?n] first(1) show ?thesis by auto
  next
    case False
    then have "attempts k ?n = attempts k n"
      using first(1) by (auto simp: attempts_def filter_empty_conv image_iff)
    from Cons.IH [OF node_inv_step [OF Cons.prems(1)] stop_first_step [OF Cons.prems this]] obtain new where
      new: "uart_log (node_run es ?n) = uart_log ?n @ new"
        "\<forall>(j, bytes) \<in> set (takeWhile (\<lambda>(j, bytes). j \<noteq> k) new).
           \<exists>r. find_request j (retry_policy (node_run es ?n)) = Some r \<and> rq_is_stop r"
        "k \<notin> fst ` set new \<longrightarrow> stop_first k (node_run es ?n)" by blast
    have "\<exists>r. find_request j (retry_policy (node_run es ?n)) = Some r \<and> rq_is_stop r"
      if "(j, bytes) \<in> set first" for j bytes
    proof -
      from first(3) [OF that] Cons.prems(2) have "quiet (retry_policy n) j" "should_transmit j (retry_policy n)"
        by (auto simp: stop_first_def)
      with quiet_transmits obtain r where "find_request j (retry_policy n) = Some r" "rq_is_stop r" by blast
      with policy_run_keeps [of "retry_policy n" j r "node_history (e # es) n"] Cons.prems(1) node_run_policy [of "e # es" n]
      show ?thesis by (auto simp: node_inv_def)
    qed
    moreover have "takeWhile (\<lambda>(j, bytes). j \<noteq> k) (first @ new) = first @ takeWhile (\<lambda>(j, bytes). j \<noteq> k) new"
      using False by (intro takeWhile_append2) force
    ultimately show ?thesis using new first(1) by (intro exI [of _ "first @ new"]) auto
  qed
qed

text \<open>A STOP that has not been written is still to be, unless the queue was closed.\<close>

lemma stop_first_in_flight:
  "stop_first k n \<Longrightarrow> stop_worker n \<or> should_transmit k (retry_policy n) \<and> k \<in> rf_seq ` set (in_flight n)"
  by (auto simp: stop_first_def stop_at_callback_def stop_in_queue_def stop_in_hand_def in_flight_def
      pending_stop_transmits)

section \<open>Fair schedules\<close>

text \<open>
  Work that every step leaves or reduces, and that some kind of step reduces: a round of steps that has
  one of each of those kinds, among any others and in any order, reduces it, and as many rounds as there
  is work finish it. The kind may depend on how much is left.
\<close>

locale fair_work =
  fixes step :: "'e \<Rightarrow> 's \<Rightarrow> 's"
    and safe :: "'s \<Rightarrow> bool"
    and work :: "'s \<Rightarrow> nat"
    and helps :: "nat \<Rightarrow> 'e \<Rightarrow> bool"
  assumes safe_step: "safe s \<Longrightarrow> safe (step e s)"
    and work_step: "safe s \<Longrightarrow> work (step e s) \<le> work s"
    and help_step: "safe s \<Longrightarrow> 0 < work s \<Longrightarrow> helps (work s) e \<Longrightarrow> work (step e s) < work s"
begin

definition fair :: "'e list \<Rightarrow> bool" where
  "fair es \<longleftrightarrow> (\<forall>v > 0. list_ex (helps v) es)"

definition run :: "'e list \<Rightarrow> 's \<Rightarrow> 's" where
  "run es s = fold step es s"

lemma run_safe: "safe s \<Longrightarrow> safe (run es s) \<and> work (run es s) \<le> work s"
proof (induction es arbitrary: s)
  case (Cons e es)
  from Cons.IH [OF safe_step [OF Cons.prems]] work_step [OF Cons.prems] show ?case
    by (simp add: run_def) (meson le_trans)
qed (simp add: run_def)

lemma helped: "safe s \<Longrightarrow> 0 < work s \<Longrightarrow> list_ex (helps (work s)) es \<Longrightarrow> work (run es s) < work s"
proof (induction es arbitrary: s)
  case (Cons e es)
  note safe = safe_step [OF Cons.prems(1), of e]
  have rest: "work (run (e # es) s) \<le> work (step e s)" using run_safe [OF safe, of es] by (simp add: run_def)
  show ?case
  proof (cases "work (step e s) < work s")
    case False
    then have same: "work (step e s) = work s" using work_step [OF Cons.prems(1), of e] by simp
    with help_step [OF Cons.prems(1,2), of e] Cons.prems(3) have "list_ex (helps (work s)) es" by auto
    with Cons.IH [OF safe] same Cons.prems(2) show ?thesis by (simp add: run_def)
  qed (use rest in simp)
qed simp

lemma round_reduces: "safe s \<Longrightarrow> fair es \<Longrightarrow> work (run es s) \<le> work s - 1"
  using helped [of s es] run_safe [of s es] by (cases "work s = 0") (fastforce simp: fair_def)+

lemma rounds_reduce: "safe s \<Longrightarrow> list_all fair rounds \<Longrightarrow> work (run (concat rounds) s) \<le> work s - length rounds"
proof (induction rounds arbitrary: s)
  case (Cons es rounds)
  have "run (concat (es # rounds)) s = run (concat rounds) (run es s)" by (simp add: run_def)
  moreover have "work (run es s) \<le> work s - 1" using Cons.prems by (intro round_reduces) simp_all
  ultimately show ?case
    using Cons.IH [of "run es s"] run_safe [OF Cons.prems(1), of es] Cons.prems(2) by (simp add: run_def)
qed (simp add: run_def)

end

section \<open>The end of the threads\<close>

text \<open>A write that comes to an end, with success or failure, whatever command it is for.\<close>

definition write_ends :: "io_result list \<Rightarrow> bool" where
  "write_ends results \<longleftrightarrow> (\<forall>cmd k. valid_command cmd \<longrightarrow> write_loop (map_to_uart_command cmd k) 0 results \<noteq> None)"

text \<open>A round in which every thread gets to each of its steps at least once, in any order and with any other events.\<close>

definition fair_round :: "node_event list \<Rightarrow> bool" where
  "fair_round es \<longleftrightarrow> TxTake \<in> set es \<and> RetryPush \<in> set es \<and> Destroy \<in> set es \<and>
     (\<exists>results now. TxTransmit results now \<in> set es \<and> write_ends results) \<and>
     (\<exists>result. RxRead result \<in> set es) \<and> (\<exists>now. RxChar now \<in> set es) \<and> (\<exists>now. RetryPoll now \<in> set es)"

text \<open>The receive buffer has 128 bytes.\<close>

definition reads_fit :: "node_event list \<Rightarrow> bool" where
  "reads_fit es \<longleftrightarrow> (\<forall>bytes. RxRead (ReadBytes bytes) \<in> set es \<longrightarrow> length bytes \<le> 128)"

fun dtor_left :: "dtor_pc \<Rightarrow> nat" where
  "dtor_left Alive = 4"
| "dtor_left RetryFlagged = 3"
| "dtor_left RxFlagged = 2"
| "dtor_left QueueStopped = 1"
| "dtor_left Notified = 0"
| "dtor_left Closed = 0"

fun tx_steps_left :: "tx_pc \<Rightarrow> nat" where
  "tx_steps_left (TxHolding f) = 2"
| "tx_steps_left TxStopped = 0"
| "tx_steps_left _ = 1"

fun retry_steps_left :: "retry_pc \<Rightarrow> nat" where
  "retry_steps_left (RetryRunning fs) = (if fs = [] then 1 else 2)"
| "retry_steps_left RetryStopped = 0"

definition rx_steps_left :: "HandBridgeNode \<Rightarrow> nat" where
  "rx_steps_left n = (if rx_running n then Suc (length (rx_buffer n)) else 0)"

definition ending :: "HandBridgeNode \<Rightarrow> bool" where
  "ending n \<longleftrightarrow> node_inv n \<and> dtor_left (dtor n) = 0"

lemma ending_flags:
  assumes "ending n"
  shows "retry_stop n" "rx_stop n" "stop_worker n" "tx n \<noteq> TxSleeping" "node_inv n" "command_queue n = []"
    "dtor n = Notified \<or> dtor n = Closed"
  using assms by (cases "dtor n"; auto simp: ending_def node_inv_def shutdown_inv_def)+

text \<open>The destructor goes on at each of its events up to the joins.\<close>

lemma dtor_unchanged: "e \<noteq> Destroy \<Longrightarrow> dtor (node_step e n) = dtor n"
proof (cases e)
  case (CommandMsg data)
  have "dtor (callback_register data n) = dtor n" by (auto simp: callback_register_def Let_def split: prod.splits)
  with CommandMsg show ?thesis by simp
qed (auto simp: callback_enqueue_def enqueue_uart_command_def callback_fail_def tx_take_def tx_transmit_def
    rx_read_def rx_step_def retry_poll_def retry_push_def Let_def
    split: callback_pc.splits tx_pc.splits retry_pc.splits read_result.splits list.splits option.splits prod.splits)

lemma dtor_left_step: "dtor_left (dtor (node_step e n)) = (if e = Destroy then dtor_left (dtor n) - 1 else dtor_left (dtor n))"
proof (cases "e = Destroy")
  case True
  then show ?thesis by (cases "dtor n") (simp_all add: dtor_step_def)
qed (simp add: dtor_unchanged)

lemma closed_step: "dtor n = Closed \<Longrightarrow> dtor (node_step e n) = Closed"
  using dtor_unchanged [of e n] by (cases "e = Destroy") (simp_all add: dtor_step_def)

lemma joined_step: "dtor n = Notified \<Longrightarrow> threads_done n \<Longrightarrow> dtor (node_step Destroy n) = Closed"
  by (simp add: dtor_step_def threads_done_def)

interpretation dtor_work: fair_work node_step node_inv "\<lambda>n. dtor_left (dtor n)" "\<lambda>v e. e = Destroy"
  by unfold_locales (auto simp: node_inv_step dtor_left_step simp del: node_step.simps)

lemma ending_step: "ending n \<Longrightarrow> ending (node_step e n)"
  by (simp add: ending_def node_inv_step dtor_left_step)

text \<open>What an event leaves each worker to do once the flags are set.\<close>

lemma tx_left_step:
  assumes "ending n"
  shows "tx_steps_left (tx (node_step e n)) \<le> tx_steps_left (tx n)"
    and "e = TxTake \<Longrightarrow> tx_steps_left (tx n) = 1 \<Longrightarrow> tx_steps_left (tx (node_step e n)) = 0"
    and "e = TxTransmit results now \<Longrightarrow> write_ends results \<Longrightarrow> tx_steps_left (tx n) = 2 \<Longrightarrow>
      tx_steps_left (tx (node_step e n)) = 1"
proof -
  note flags = ending_flags [OF assms]
  show "tx_steps_left (tx (node_step e n)) \<le> tx_steps_left (tx n)"
  proof (cases e)
    case (CommandMsg data)
    have "tx (callback_register data n) = tx n" by (auto simp: callback_register_def Let_def split: prod.splits)
    with CommandMsg show ?thesis by simp
  qed (use flags in \<open>auto simp: callback_enqueue_def enqueue_uart_command_def callback_fail_def tx_take_def tx_transmit_def
      rx_read_def rx_step_def retry_poll_def retry_push_def dtor_step_def Let_def
      split: callback_pc.splits tx_pc.splits retry_pc.splits read_result.splits list.splits option.splits prod.splits\<close>)
  show "tx_steps_left (tx (node_step e n)) = 0" if "e = TxTake" "tx_steps_left (tx n) = 1"
    using that flags(3,4) by (cases "tx n") (simp_all add: tx_take_def)
  show "tx_steps_left (tx (node_step e n)) = 1" if e: "e = TxTransmit results now" and w: "write_ends results"
    and "tx_steps_left (tx n) = 2"
  proof -
    from that obtain f where f: "tx n = TxHolding f" by (cases "tx n") auto
    then obtain r where "find_request (rf_seq f) (retry_policy n) = Some r" "rq_frame r = rf_frame f"
      using flags(5) by (auto simp: node_inv_def flight_inv_def in_flight_def frame_known_def)
    then obtain cmd where "valid_command cmd" "rf_frame f = map_to_uart_command cmd (rf_seq f)"
      using flags(5) unfolding node_inv_def commands_inv_def command_request_def by metis
    with w have "write_uart (uart_fd n) (rf_frame f) results \<noteq> None"
      unfolding write_ends_def write_uart_def by (metis option.distinct(1))
    with e f show ?thesis by (auto simp: tx_transmit_def)
  qed
qed

lemma retry_left_step:
  assumes "ending n"
  shows "retry_steps_left (retry (node_step e n)) \<le> retry_steps_left (retry n)"
    and "e = RetryPush \<Longrightarrow> retry_steps_left (retry n) = 2 \<Longrightarrow> retry_steps_left (retry (node_step e n)) = 1"
    and "e = RetryPoll now \<Longrightarrow> retry_steps_left (retry n) = 1 \<Longrightarrow> retry_steps_left (retry (node_step e n)) = 0"
proof -
  note flags = ending_flags [OF assms]
  show "retry_steps_left (retry (node_step e n)) \<le> retry_steps_left (retry n)"
  proof (cases e)
    case (CommandMsg data)
    have "retry (callback_register data n) = retry n" by (auto simp: callback_register_def Let_def split: prod.splits)
    with CommandMsg show ?thesis by simp
  qed (use flags in \<open>auto simp: callback_enqueue_def enqueue_uart_command_def callback_fail_def tx_take_def tx_transmit_def
      rx_read_def rx_step_def retry_poll_def retry_push_def dtor_step_def Let_def
      split: callback_pc.splits tx_pc.splits retry_pc.splits read_result.splits list.splits option.splits prod.splits\<close>)
  show "retry_steps_left (retry (node_step e n)) = 1" if "e = RetryPush" "retry_steps_left (retry n) = 2"
    using that flags(1) by (cases "retry n") (auto simp: retry_push_def split: list.splits if_splits)
  show "retry_steps_left (retry (node_step e n)) = 0" if "e = RetryPoll now" "retry_steps_left (retry n) = 1"
    using that flags(1) by (cases "retry n") (auto simp: retry_poll_def split: list.splits if_splits)
qed

lemma rx_left_step:
  assumes "ending n"
  shows "rx_steps_left (node_step e n) \<le> rx_steps_left n"
    and "e = RxRead result \<Longrightarrow> rx_steps_left n = 1 \<Longrightarrow> rx_steps_left (node_step e n) = 0"
    and "e = RxChar now \<Longrightarrow> 1 < rx_steps_left n \<Longrightarrow> rx_steps_left (node_step e n) < rx_steps_left n"
proof -
  note flags = ending_flags [OF assms]
  show "rx_steps_left (node_step e n) \<le> rx_steps_left n"
  proof (cases e)
    case (CommandMsg data)
    have "rx_running (callback_register data n) = rx_running n" "rx_buffer (callback_register data n) = rx_buffer n"
      by (auto simp: callback_register_def Let_def split: prod.splits)
    with CommandMsg show ?thesis by (simp add: rx_steps_left_def)
  qed (use flags in \<open>auto simp: rx_steps_left_def callback_enqueue_def enqueue_uart_command_def callback_fail_def tx_take_def
      tx_transmit_def rx_read_def rx_step_def retry_poll_def retry_push_def dtor_step_def Let_def
      split: callback_pc.splits tx_pc.splits retry_pc.splits read_result.splits list.splits option.splits prod.splits\<close>)
  show "rx_steps_left (node_step e n) = 0" if "e = RxRead result" "rx_steps_left n = 1"
    using that flags(2) by (auto simp: rx_steps_left_def rx_read_def split: if_splits)
  show "rx_steps_left (node_step e n) < rx_steps_left n" if "e = RxChar now" "1 < rx_steps_left n"
    using that by (auto simp: rx_steps_left_def rx_step_def Let_def split: if_splits list.splits prod.splits option.splits)
qed

interpretation tx_work: fair_work node_step ending "\<lambda>n. tx_steps_left (tx n)"
  "\<lambda>v e. if v = 1 then e = TxTake else \<exists>results now. e = TxTransmit results now \<and> write_ends results"
proof unfold_locales
  fix n e
  assume ends: "ending n"
  show "ending (node_step e n)" using ends by (rule ending_step)
  show "tx_steps_left (tx (node_step e n)) \<le> tx_steps_left (tx n)" using ends by (rule tx_left_step(1))
  assume "0 < tx_steps_left (tx n)"
    "if tx_steps_left (tx n) = 1 then e = TxTake else \<exists>results now. e = TxTransmit results now \<and> write_ends results"
  then show "tx_steps_left (tx (node_step e n)) < tx_steps_left (tx n)"
    using tx_left_step(2,3) [OF ends] by (cases "tx n") auto
qed

interpretation retry_work: fair_work node_step ending "\<lambda>n. retry_steps_left (retry n)"
  "\<lambda>v e. if v = 1 then \<exists>now. e = RetryPoll now else e = RetryPush"
proof unfold_locales
  fix n e
  assume ends: "ending n"
  show "ending (node_step e n)" using ends by (rule ending_step)
  show "retry_steps_left (retry (node_step e n)) \<le> retry_steps_left (retry n)" using ends by (rule retry_left_step(1))
  assume "0 < retry_steps_left (retry n)" "if retry_steps_left (retry n) = 1 then \<exists>now. e = RetryPoll now else e = RetryPush"
  then show "retry_steps_left (retry (node_step e n)) < retry_steps_left (retry n)"
    using retry_left_step(2,3) [OF ends] by (cases "retry n") (auto split: if_splits)
qed

interpretation rx_work: fair_work node_step ending rx_steps_left
  "\<lambda>v e. if v = 1 then \<exists>result. e = RxRead result else \<exists>now. e = RxChar now"
proof unfold_locales
  fix n e
  assume ends: "ending n"
  show "ending (node_step e n)" using ends by (rule ending_step)
  show "rx_steps_left (node_step e n) \<le> rx_steps_left n" using ends by (rule rx_left_step(1))
  assume "0 < rx_steps_left n" "if rx_steps_left n = 1 then \<exists>result. e = RxRead result else \<exists>now. e = RxChar now"
  then show "rx_steps_left (node_step e n) < rx_steps_left n"
    using rx_left_step(2,3) [OF ends] by (auto split: if_splits)
qed

lemma fair_round_works:
  assumes "fair_round es"
  shows "dtor_work.fair es" "tx_work.fair es" "retry_work.fair es" "rx_work.fair es"
  using assms unfolding fair_round_def dtor_work.fair_def tx_work.fair_def retry_work.fair_def rx_work.fair_def
  by (auto simp: list_ex_iff)

lemma node_run_work:
  "node_run es n = dtor_work.run es n" "node_run es n = tx_work.run es n"
  "node_run es n = retry_work.run es n" "node_run es n = rx_work.run es n"
proof -
  have "node_run es n = fold node_step es n" by (induction es arbitrary: n) auto
  then show "node_run es n = dtor_work.run es n" "node_run es n = tx_work.run es n"
    "node_run es n = retry_work.run es n" "node_run es n = rx_work.run es n"
    by (simp_all add: dtor_work.run_def tx_work.run_def retry_work.run_def rx_work.run_def)
qed

lemma rx_buffer_bound:
  assumes "reads_fit es" and "length (rx_buffer n) \<le> 128"
  shows "length (rx_buffer (node_run es n)) \<le> 128"
  using assms
proof (induction es arbitrary: n)
  case (Cons e es)
  have "length (rx_buffer (node_step e n)) \<le> 128"
  proof (cases e)
    case (CommandMsg data)
    have "rx_buffer (callback_register data n) = rx_buffer n"
      by (auto simp: callback_register_def Let_def split: prod.splits)
    with CommandMsg Cons.prems show ?thesis by simp
  qed (use Cons.prems in \<open>auto simp: reads_fit_def callback_enqueue_def enqueue_uart_command_def callback_fail_def
      tx_take_def tx_transmit_def rx_read_def rx_step_def retry_poll_def retry_push_def dtor_step_def Let_def
      split: callback_pc.splits tx_pc.splits retry_pc.splits dtor_pc.splits read_result.splits list.splits option.splits
        prod.splits\<close>)
  with Cons show ?case by (simp add: reads_fit_def)
qed simp

text \<open>Four rounds for the destructor to get to the joins, one for each byte received and the test of the flag, one to close.\<close>

lemma rounds_end:
  assumes "ending n" and "list_all fair_round rounds" and "length (rx_buffer n) \<le> 128" and "129 \<le> length rounds"
  shows "ending (node_run (concat rounds) n)" "threads_done (node_run (concat rounds) n)"
proof -
  let ?n = "node_run (concat rounds) n"
  have fair: "list_all tx_work.fair rounds" "list_all retry_work.fair rounds" "list_all rx_work.fair rounds"
    using assms(2) fair_round_works by (auto simp: list_all_iff)
  show ending: "ending ?n" using tx_work.run_safe [OF assms(1)] by (simp add: node_run_work(2))
  have "tx_steps_left (tx n) \<le> 2" "retry_steps_left (retry n) \<le> 2" "rx_steps_left n \<le> 129"
    using assms(3) by (cases "tx n"; cases "retry n"; simp add: rx_steps_left_def)+
  with tx_work.rounds_reduce [OF assms(1) fair(1)] retry_work.rounds_reduce [OF assms(1) fair(2)]
    rx_work.rounds_reduce [OF assms(1) fair(3)] assms(4)
  have "tx_steps_left (tx ?n) = 0" "retry_steps_left (retry ?n) = 0" "rx_steps_left ?n = 0"
    by (simp_all flip: node_run_work)
  then show "threads_done ?n"
    by (cases "tx ?n"; cases "retry ?n") (auto simp: threads_done_def rx_steps_left_def split: if_splits)
qed

lemma threads_done_step: "ending n \<Longrightarrow> threads_done n \<Longrightarrow> threads_done (node_step e n)"
proof -
  assume ends: "ending n" and "threads_done n"
  then have "tx_steps_left (tx n) = 0" "retry_steps_left (retry n) = 0" "rx_steps_left n = 0"
    by (simp_all add: threads_done_def rx_steps_left_def)
  with tx_left_step(1) [OF ends, of e] retry_left_step(1) [OF ends, of e] rx_left_step(1) [OF ends, of e]
  show ?thesis by (cases "tx (node_step e n)"; cases "retry (node_step e n)")
    (auto simp: threads_done_def rx_steps_left_def simp del: node_step.simps split: if_splits)
qed

interpretation close_work: fair_work node_step "\<lambda>n. ending n \<and> threads_done n" "\<lambda>n. if dtor n = Closed then 0 else 1"
  "\<lambda>v e. e = Destroy"
proof unfold_locales
  fix n e
  assume ended: "ending n \<and> threads_done n"
  then show "ending (node_step e n) \<and> threads_done (node_step e n)" using ending_step threads_done_step by blast
  show "(if dtor (node_step e n) = Closed then 0 else 1) \<le> (if dtor n = Closed then 0 else (1 :: nat))"
    using closed_step [of n e] by simp
  assume "0 < (if dtor n = Closed then 0 else (1 :: nat))" and "e = Destroy"
  with ended ending_flags(7) [of n] joined_step [of n]
  show "(if dtor (node_step e n) = Closed then 0 else 1) < (if dtor n = Closed then 0 else (1 :: nat))"
    by (auto simp del: node_step.simps split: if_splits)
qed

lemma node_run_close: "node_run es n = close_work.run es n"
  by (simp add: node_run_work(2) tx_work.run_def close_work.run_def)

lemma reads_fit_append [simp]: "reads_fit (xs @ ys) \<longleftrightarrow> reads_fit xs \<and> reads_fit ys"
  by (auto simp: reads_fit_def)

lemma rounds_close:
  assumes "node_inv n" and "length (rx_buffer n) \<le> 128" and "reads_fit (concat rounds)"
    and "list_all fair_round rounds" and "134 \<le> length rounds"
  shows "dtor (node_run (concat rounds) n) = Closed"
proof -
  let ?first = "take 4 rounds" and ?middle = "take 129 (drop 4 rounds)" and ?final = "drop 133 rounds"
  have split: "rounds = ?first @ ?middle @ ?final"
    using append_take_drop_id [of 4 rounds] append_take_drop_id [of 129 "drop 4 rounds"] by simp
  have lengths: "length ?first = 4" "length ?middle = 129" "1 \<le> length ?final" using assms(5) by simp_all
  have fair: "list_all fair_round ?first" "list_all fair_round ?middle" "list_all fair_round ?final"
    using assms(4) by (auto simp: list_all_iff dest: in_set_takeD in_set_dropD)
  let ?n1 = "node_run (concat ?first) n"
  let ?n2 = "node_run (concat ?middle) ?n1"
  have "list_all dtor_work.fair ?first" "list_all close_work.fair ?final"
    using fair fair_round_works(1) by (auto simp: list_all_iff close_work.fair_def dtor_work.fair_def)
  note works = this
  have "dtor_left (dtor n) \<le> 4" by (cases "dtor n") simp_all
  with dtor_work.rounds_reduce [OF assms(1) works(1)] lengths(1)
  have n1: "ending ?n1" using node_inv_run [OF assms(1)] by (simp add: ending_def flip: node_run_work)
  have "reads_fit (concat ?first)" using assms(3) split by (metis reads_fit_append concat_append)
  then have "length (rx_buffer ?n1) \<le> 128" by (rule rx_buffer_bound [OF _ assms(2)])
  with rounds_end [OF n1 fair(2)] lengths(2) have n2: "ending ?n2 \<and> threads_done ?n2" by simp
  have "node_run (concat rounds) n = node_run (concat ?final) ?n2"
    by (subst split) (simp only: concat_append node_run_append)
  with close_work.rounds_reduce [OF n2 works(2)] lengths(3) show ?thesis
    by (simp split: if_splits flip: node_run_close)
qed

end
