(* ===== verification/Hand_Bridge_Properties.thy ===== *)
theory Hand_Bridge_Properties
  imports Hand_Bridge_Schedules
begin

text \<open>
  What the hand bridge guarantees over every interleaving of its threads: the refinement to the
  retry policy, the bound on transmissions, the effect of STOP, that no frame is lost and that the
  queue drains, what appears on the wire, what the status service may report, and the orderly end.
\<close>

declare node_step.simps [simp del]

section \<open>A sample node for the witnesses\<close>

lemma to_string_samples: "to_string (Suc 0) = ''1''" "to_string 2 = ''2''"
  by code_simp+

lemma valid_commands [simp]:
  "valid_command ''OPEN''" "valid_command ''GRAB''" "valid_command ''RELEASE''" "valid_command ''STOP''"
  by (simp_all add: valid_command_def)

definition sample_os :: uart_os where
  "sample_os = \<lparr>os_open = \<lambda>_. 3, os_tcgetattr = \<lambda>_. (0, \<lparr>c_cflag = 0, c_vmin = 1, c_vtime = 0\<rparr>),
     os_cfmakeraw = id, os_cfsetispeed = Pair 0, os_cfsetospeed = Pair 0, os_tcsetattr = \<lambda>_ _. 0\<rparr>"

definition sample_node :: HandBridgeNode where
  "sample_node = new_HandBridgeNode sample_os ''/dev/ttyUSB0'' 115200"

lemma sample_node_eq:
  "sample_node =
     \<lparr>uart_port = ''/dev/ttyUSB0'', baud_rate = 115200, uart_fd = 3, next_seq = 1,
      latest_requested_seq = 0, command_queue = [], stop_worker = False, rx_stop = False,
      retry_stop = False, retry_policy = new_RetryPolicy, callback = CbIdle, tx = TxWaiting,
      rx_running = True, rx_buffer = [], rx = new_rx_state, retry = RetryRunning [], dtor = Alive,
      uart_log = []\<rparr>"
  by (simp add: sample_node_def new_HandBridgeNode_def sample_os_def open_uart_def Let_def set_speeds_def)

lemma sample_run: "node_run es sample_node = node_run es (new_HandBridgeNode sample_os ''/dev/ttyUSB0'' 115200)"
  by (simp add: sample_node_def)

lemma sample_node_inv: "node_inv (node_run es sample_node)"
  unfolding sample_node_def by (rule node_inv_reachable)

text \<open>The request of the first command, and the state that command leaves.\<close>

abbreviation first_request :: "string \<Rightarrow> Request" where
  "first_request cmd \<equiv> default_Request\<lparr>rq_seq := 1, rq_frame := map_to_uart_command cmd 1,
     rq_is_stop := (cmd = ''STOP'')\<rparr>"

lemma sample_command:
  assumes "valid_command cmd"
  shows "node_run [CommandMsg cmd, CallbackEnqueue] sample_node =
    sample_node\<lparr>next_seq := 2, latest_requested_seq := 1,
      command_queue := [\<lparr>rf_seq = 1, rf_frame = map_to_uart_command cmd 1\<rparr>],
      retry_policy := \<lparr>requests = [(1, first_request cmd)]\<rparr>\<rparr>"
  using assms map_to_uart_command_nonempty [OF assms, of 1]
  by (simp add: node_step.simps sample_node_eq callback_register_def callback_enqueue_def enqueue_uart_command_def
      start_def std_emplace_def new_RetryPolicy_def cancel_non_stop_def std_for_each_def Let_def)

lemma sample_taken:
  assumes "valid_command cmd"
  shows "node_run [CommandMsg cmd, CallbackEnqueue, TxTake] sample_node =
    sample_node\<lparr>next_seq := 2, latest_requested_seq := 1,
      tx := TxHolding \<lparr>rf_seq = 1, rf_frame = map_to_uart_command cmd 1\<rparr>,
      retry_policy := \<lparr>requests = [(1, first_request cmd)]\<rparr>\<rparr>"
  using node_run_append [of "[CommandMsg cmd, CallbackEnqueue]" "[TxTake]" sample_node]
    sample_command [OF assms] by (simp add: node_step.simps tx_take_def sample_node_eq)

section \<open>Properties\<close>

text \<open>
  Claim C4. The concurrent node refines the sequential retry policy: over any interleaving of the
  threads, the policy object goes through the sequence of operations the events perform one after
  another, and the transmissions of a sequence number are at most the sends that this sequence of
  operations records.
\<close>

theorem node_refines_policy:
  "retry_policy (node_run es n) = policy_run (node_history es n) (retry_policy n) \<and>
   attempts k (node_run es n) \<le> attempts k n + policy_send_count (node_history es n) (retry_policy n) k"
proof -
  have append: "policy_send_count (xs @ ys) p k = policy_send_count xs p k + policy_send_count ys (policy_run xs p) k"
    for xs ys p by (induction xs arbitrary: p) auto
  have "attempts k (node_run es n) \<le> attempts k n + policy_send_count (node_history es n) (retry_policy n) k" for n
  proof (induction es arbitrary: n)
    case (Cons e es)
    from Cons.IH [of "node_step e n"] attempts_step [of k e n] show ?case
      by (simp add: append node_step_policy)
  qed simp
  with node_run_policy [of es n] show ?thesis by simp
qed

text \<open>
  Claim C1. At most three transmissions: from the construction of the node, over any interleaving,
  the frame of a sequence number is written to the UART at most 1 + \<^verbatim>\<open>MAX_RETRIES\<close> times, complete
  and failed writes both counted.
\<close>

theorem node_send_budget:
  "attempts k (node_run es (new_HandBridgeNode os port baud)) \<le> 1 + MAX_RETRIES"
proof -
  let ?n = "new_HandBridgeNode os port baud"
  have "retry_policy ?n = new_RetryPolicy" "uart_log ?n = []"
    by (simp_all add: new_HandBridgeNode_def split: prod.splits)
  then have "\<not> registered (retry_policy ?n) k" "attempts k ?n = 0"
    by (simp_all add: registered_def find_request_def new_RetryPolicy_def attempts_def)
  with node_ledger.total_le_budget [OF node_inv_new, of os port baud k es] show ?thesis
    by (simp add: attempts_run MAX_RETRIES_def)
qed

text \<open>
  Claim C2. STOP silences what came before: once a STOP message has been processed, no frame of an
  earlier command that is not itself a STOP is written to the UART any more, wherever that frame
  was at the time (in the queue, in the hand of the transmit or of the retry worker) and whatever
  events follow.
\<close>

theorem stop_silences:
  assumes "node_inv n" and "callback n = CbIdle" and "0 \<le> uart_fd n" and "next_seq n \<noteq> 0"
    and "find_request k (retry_policy n) = Some r" and "\<not> rq_is_stop r"
  shows "attempts k (node_run (CommandMsg ''STOP'' # es) n) = attempts k n"
proof -
  let ?p = "cancel_non_stop (retry_policy n)"
  let ?op = "Start (next_seq n) (map_to_uart_command ''STOP'' (next_seq n)) True"
  let ?n = "node_step (CommandMsg ''STOP'') n"
  have p: "policy_inv ?p" using assms(1) policy_inv_step [of _ CancelNonStop] by (simp add: node_inv_def)
  have found: "find_request k ?p = Some (cancel_request r)"
    using assms(5) by (simp add: find_request_def cancel_non_stop_def smap.find_for_each)
  have policy: "retry_policy ?n = policy_step ?op ?p"
    unfolding node_step_policy using assms(2-4) by simp
  have "policy_credit ?p k = 0"
    using found assms(6) by (cases "rq_state r")
      (simp_all add: policy_credit_def cancel_request_def request_credit_def)
  then have credit: "policy_credit (retry_policy ?n) k = 0"
    unfolding policy using policy_credit_step [OF p, of k ?op] found by (simp add: registered_def)
  have known: "registered (retry_policy ?n) k"
    unfolding policy using policy_registered_step [OF p, of k ?op] found by (simp add: registered_def)
  have "attempts k ?n = attempts k n"
    using uart_log_step [of "CommandMsg ''STOP''" n] by (auto simp: attempts_def)
  with node_ledger.no_credit_no_send [OF node_inv_step [OF assms(1)] known credit, of es]
  show ?thesis by (simp add: attempts_run)
qed

text \<open>An OPEN whose frame the transmit worker already holds when the STOP comes.\<close>

theorem stop_silences_witness:
  "attempts 1 (node_run [CommandMsg ''STOP'', TxTransmit [(20, EOTHER)] 5, CallbackEnqueue]
     (node_run [CommandMsg ''OPEN'', CallbackEnqueue, TxTake] sample_node)) = 0"
proof -
  let ?n = "node_run [CommandMsg ''OPEN'', CallbackEnqueue, TxTake] sample_node"
  have "callback ?n = CbIdle" "0 \<le> uart_fd ?n" "next_seq ?n \<noteq> 0" "attempts 1 ?n = 0"
    "find_request 1 (retry_policy ?n) = Some (first_request ''OPEN'')"
    unfolding sample_taken [OF valid_commands(1)]
    by (simp_all add: sample_node_eq attempts_def find_request_def)
  moreover have "\<not> rq_is_stop (first_request ''OPEN'')" by simp
  ultimately show ?thesis
    using stop_silences [OF sample_node_inv, where k = 1] by metis
qed

text \<open>
  Claim C12. STOP overtakes the queue, over every interleaving: from the moment a STOP is accepted until
  its own frame is first written, nothing is written to the UART but frames of STOP commands, whatever
  was queued or in a thread's hand before and whatever arrives after; and as long as it has not been
  written, its frame is on its way and still to be transmitted, unless the destructor has closed the queue.
\<close>

theorem stop_overtakes:
  assumes "node_inv n" and "accepts ''STOP'' n" and "callback n = CbIdle"
    and "n' = node_run (CommandMsg ''STOP'' # es) n" and "k = next_seq n"
  shows "\<exists>new. uart_log n' = uart_log n @ new \<and>
    (\<forall>(j, bytes) \<in> set (takeWhile (\<lambda>(j, bytes). j \<noteq> k) new).
       \<exists>r. find_request j (retry_policy n') = Some r \<and> rq_is_stop r) \<and>
    (k \<notin> fst ` set new \<longrightarrow>
       stop_worker n' \<or> should_transmit k (retry_policy n') \<and> k \<in> rf_seq ` set (in_flight n'))"
proof -
  let ?n = "node_step (CommandMsg ''STOP'') n"
  have "uart_log ?n = uart_log n" using uart_log_step [of "CommandMsg ''STOP''" n] by auto
  with stop_first_run [OF node_inv_step [OF assms(1)] stop_first_accepted [OF assms(1-3)], of es]
    stop_first_in_flight [of k n'] assms(4,5)
  show ?thesis by auto
qed

text \<open>
  An older STOP that the transmit worker takes between the registration of the new one and its way into
  the queue goes first; an OPEN in between is not written at all.
\<close>

theorem stop_overtakes_witness:
  "let n = node_run [CommandMsg ''STOP'', CallbackEnqueue, CommandMsg ''OPEN'', CallbackEnqueue] sample_node;
       n' = node_run [CommandMsg ''STOP'', TxTake, TxTransmit [(21, EOTHER)] 0, CallbackEnqueue, TxTake,
              TxTransmit [(21, EOTHER)] 1, TxTake, TxTransmit [(21, EOTHER)] 2] n
   in map fst (uart_log n') = [1, 3] \<and> (\<exists>r. find_request 1 (retry_policy n') = Some r \<and> rq_is_stop r)"
proof -
  let ?n = "node_run [CommandMsg ''STOP'', CallbackEnqueue, CommandMsg ''OPEN'', CallbackEnqueue] sample_node"
  let ?es = "[TxTake, TxTransmit [(21, EOTHER)] 0, CallbackEnqueue, TxTake,
              TxTransmit [(21, EOTHER)] 1, TxTake, TxTransmit [(21, EOTHER)] 2]"
  have log: "uart_log ?n = []" "next_seq ?n = 3" "map fst (uart_log (node_run (CommandMsg ''STOP'' # ?es) ?n)) = [1, 3]"
    by code_simp+
  have acc: "accepts ''STOP'' ?n \<and> callback ?n = CbIdle" unfolding accepts_def registered_def by code_simp
  obtain new where new: "uart_log (node_run (CommandMsg ''STOP'' # ?es) ?n) = uart_log ?n @ new"
      "\<forall>(j, bytes) \<in> set (takeWhile (\<lambda>(j, bytes). j \<noteq> 3) new).
         \<exists>r. find_request j (retry_policy (node_run (CommandMsg ''STOP'' # ?es) ?n)) = Some r \<and> rq_is_stop r"
    using stop_overtakes [OF sample_node_inv acc [THEN conjunct1] acc [THEN conjunct2] refl log(2) [symmetric]] by blast
  from new(1) log(1,3) have "map fst new = [1, 3]" by (simp only: append_Nil)
  then obtain b c where "new = [(1, b), (3, c)]" by (auto simp: map_eq_Cons_conv)
  with new(2) log(3) show ?thesis unfolding Let_def by simp
qed

text \<open>
  Claim C3. No frame is lost: in every state the node can reach while it is not being destroyed, a
  request that waits for its first transmission or for a retransmission has its frame in the queue
  or in the hand of one of the threads, and every frame there is the stored frame of a registered
  request.
\<close>

theorem no_frame_lost:
  assumes "n = node_run es (new_HandBridgeNode os port baud)" and "active n"
  shows "{k. should_transmit k (retry_policy n)} \<subseteq> rf_seq ` set (in_flight n) \<and>
    (\<forall>f \<in> set (in_flight n). \<exists>r. find_request (rf_seq f) (retry_policy n) = Some r \<and> rq_frame r = rf_frame f)"
  using node_inv_reachable [of es os port baud] assms
  by (auto simp: node_inv_def queued_inv_def flight_inv_def frame_known_def)

theorem no_frame_lost_witness:
  "1 \<in> rf_seq ` set (in_flight (node_run [CommandMsg ''GRAB'', CallbackEnqueue] sample_node))"
proof -
  let ?n = "node_run [CommandMsg ''GRAB'', CallbackEnqueue] sample_node"
  have "active ?n" "should_transmit 1 (retry_policy ?n)"
    unfolding sample_command [OF valid_commands(2)]
    by (simp_all add: sample_node_eq active_def should_transmit_def find_request_def default_Request_def)
  with no_frame_lost [OF sample_run] show ?thesis by blast
qed

text \<open>
  Claim C9. The transmit worker makes progress: when no other thread holds a frame, as many rounds of
  the worker as there are frames in the queue, with writes that return, leave no request to be
  transmitted, and every request that was to be transmitted has been attempted at least once. If
  moreover the writes are complete, then the whole frame of every such request has left on the wire.
\<close>

theorem queued_requests_sent:
  assumes "node_inv n" and "tx_ready n" and "length (command_queue n) \<le> length rounds"
    and "writes_return n rounds"
  shows "let n' = node_run (tx_rounds rounds) n in
    command_queue n' = [] \<and> \<not> should_transmit k (retry_policy n') \<and>
    (should_transmit k (retry_policy n) \<longrightarrow> attempts k n < attempts k n') \<and>
    (should_transmit k (retry_policy n) \<and> find_request k (retry_policy n) = Some r \<and> writes_complete n rounds \<longrightarrow>
       (\<exists>new. uart_log n' = uart_log n @ new \<and> (k, rq_frame r) \<in> set new))"
proof -
  let ?n = "node_run (tx_rounds rounds) n"
  from tx_rounds_drain [OF assms] obtain new where idle: "command_queue ?n = []" "tx_ready ?n"
    and new: "uart_log ?n = uart_log n @ new"
      "writes_complete n rounds \<Longrightarrow> set new \<subseteq> (\<lambda>f. (rf_seq f, rf_frame f)) ` set (command_queue n)" by blast
  then have "in_flight ?n = []" by (auto simp: in_flight_def tx_ready_def)
  moreover have "queued_inv ?n" "active ?n"
    using node_inv_run [OF assms(1)] idle(2) by (simp_all add: node_inv_def tx_ready_def)
  ultimately have not: "\<not> should_transmit k (retry_policy ?n)" by (simp add: queued_inv_def)
  have sent: "attempts k n < attempts k ?n" if "should_transmit k (retry_policy n)"
    using tx_events_send [OF assms(1) tx_rounds_events that, of rounds] not by simp
  have "(k, rq_frame r) \<in> set new" if k: "should_transmit k (retry_policy n)" "find_request k (retry_policy n) = Some r"
    and complete: "writes_complete n rounds"
  proof -
    from sent [OF k(1)] new(1) obtain bytes where bytes: "(k, bytes) \<in> set new"
      by (auto simp: attempts_def filter_empty_conv)
    with new(2) [OF complete] obtain f where f: "f \<in> set (command_queue n)" "rf_seq f = k" "rf_frame f = bytes" by auto
    then have "frame_known (retry_policy n) k bytes"
      using assms(1) by (auto simp: node_inv_def flight_inv_def in_flight_def)
    with k(2) bytes show ?thesis by (simp add: frame_known_def)
  qed
  with idle(1) not sent new(1) show ?thesis by (auto simp: Let_def)
qed

text \<open>One GRAB, written in two pieces with an interruption in between.\<close>

theorem queued_requests_sent_witness:
  "let n = node_run [CommandMsg ''GRAB'', CallbackEnqueue] sample_node;
       n' = node_run (tx_rounds [([(5, EOTHER), (-1, EINTR), (16, EOTHER)], 7)]) n
   in attempts 1 n < attempts 1 n' \<and> (1, map_to_uart_command ''GRAB'' 1) \<in> set (uart_log n')"
proof -
  let ?n = "node_run [CommandMsg ''GRAB'', CallbackEnqueue] sample_node"
  let ?rounds = "[([(5, EOTHER), (-1, EINTR), (16, EOTHER)], 7)] :: (io_result list \<times> TimePoint) list"
  have "length (map_to_uart_command ''GRAB'' 1) = 21"
    by (simp add: map_to_uart_command_def uart_frame_def to_string_samples)
  then have ready: "tx_ready ?n" "length (command_queue ?n) \<le> length ?rounds" "writes_return ?n ?rounds"
    "writes_complete ?n ?rounds" "should_transmit 1 (retry_policy ?n)"
    "find_request 1 (retry_policy ?n) = Some (first_request ''GRAB'')" "uart_log ?n = []"
    unfolding sample_command [OF valid_commands(2)]
    by (auto simp: sample_node_eq tx_ready_def active_def writes_return_def writes_complete_def write_uart_def
        write_loop_step write_loop_done Let_def should_transmit_def find_request_def default_Request_def)
  from queued_requests_sent [OF sample_node_inv ready(1-3), of 1 "first_request ''GRAB''"] ready(4-7) show ?thesis
    by (auto simp: Let_def)
qed

text \<open>
  A well-formed state of the node: the book is ordered by distinct keys; every request is filed under
  its own number, has retries left over or used up but never more, and carries the frame of one of the
  four commands with the stop flag of that command; and every frame in the queue or in a thread's hand
  is the frame of the request filed under its number.
\<close>

definition request_well_formed :: "u32 \<times> Request \<Rightarrow> bool" where
  "request_well_formed = (\<lambda>(k, r). k \<noteq> 0 \<and> rq_seq r = k \<and> rq_retries_used r \<le> MAX_RETRIES \<and>
     list_ex (\<lambda>cmd. rq_frame r = map_to_uart_command cmd k \<and> (rq_is_stop r \<longleftrightarrow> cmd = ''STOP''))
       [''OPEN'', ''GRAB'', ''RELEASE'', ''STOP''])"

definition node_well_formed :: "HandBridgeNode \<Rightarrow> bool" where
  "node_well_formed n \<longleftrightarrow>
     std_ordered (requests (retry_policy n)) \<and> list_all request_well_formed (requests (retry_policy n)) \<and>
     list_all (\<lambda>f. map_option rq_frame (find_request (rf_seq f) (retry_policy n)) = Some (rf_frame f)) (in_flight n)"

lemma node_inv_well_formed:
  assumes "node_inv n"
  shows "node_well_formed n"
proof -
  let ?p = "retry_policy n"
  have inv: "policy_inv ?p" "commands_inv ?p" "flight_inv n" using assms by (simp_all add: node_inv_def)
  then have ordered: "std_ordered (requests ?p)" by (simp add: policy_inv_def)
  have "request_well_formed (k, r)" if "(k, r) \<in> set (requests ?p)" for k r
  proof -
    have r: "std_find k (requests ?p) = Some r" using that by (simp add: std_find_member [OF ordered])
    then have "request_ok k r" "command_request k r"
      using inv policy_inv_find by (auto simp: commands_inv_def find_request_def)
    then show ?thesis by (auto simp: request_well_formed_def request_ok_def command_request_def valid_command_def)
  qed
  with ordered inv(3) show ?thesis
    by (auto simp: node_well_formed_def list_all_iff flight_inv_def frame_known_def)
qed

text \<open>
  Claim C11. The node keeps its state well-formed: in every state that any interleaving of the callbacks,
  the workers and the destructor can reach, the book and all frames under way are as above.
\<close>

theorem node_state_well_formed:
  "node_well_formed (node_run es (new_HandBridgeNode os port baud))"
  by (rule node_inv_well_formed [OF node_inv_reachable])

text \<open>
  What is on the wire: every transmission of a sequence number, first or repeated, writes
  the bytes of one and the same frame \<^verbatim>\<open>SEQ:<n> CMD:HAND_<...>\<close>, cut short only where the write
  failed; the frame is that of one valid command and of that sequence number.
\<close>

theorem wire_frames:
  assumes "n = node_run es (new_HandBridgeNode os port baud)" and "k \<in> fst ` set (uart_log n)"
  shows "\<exists>cmd. valid_command cmd \<and> (\<forall>bytes. (k, bytes) \<in> set (uart_log n) \<longrightarrow>
    (\<exists>written. bytes = take written (map_to_uart_command cmd k)))"
proof -
  have inv: "log_inv n" "commands_inv (retry_policy n)"
    using node_inv_reachable [of es os port baud] assms(1) by (simp_all add: node_inv_def)
  from inv(1) assms(2) obtain r where r: "find_request k (retry_policy n) = Some r"
    by (auto simp: log_inv_def frame_known_def)
  with inv(2) obtain cmd where "valid_command cmd" "rq_frame r = map_to_uart_command cmd k"
    by (auto simp: commands_inv_def command_request_def)
  moreover have "\<exists>written. bytes = take written (rq_frame r)" if "(k, bytes) \<in> set (uart_log n)" for bytes
    using that inv(1) r by (fastforce simp: log_inv_def frame_known_def)
  ultimately show ?thesis by auto
qed

text \<open>A transmission that fails after four bytes.\<close>

theorem wire_frames_witness:
  "let n = node_run [CommandMsg ''OPEN'', CallbackEnqueue, TxTake, TxTransmit [(4, EOTHER), (0, EOTHER)] 9] sample_node in
   uart_log n = [(1, ''SEQ:'')] \<and> (\<exists>cmd written. valid_command cmd \<and> ''SEQ:'' = take written (map_to_uart_command cmd 1))"
proof -
  let ?es = "[CommandMsg ''OPEN'', CallbackEnqueue, TxTake, TxTransmit [(4, EOTHER), (0, EOTHER)] 9]"
  let ?n = "node_run ?es sample_node"
  have "map_to_uart_command ''OPEN'' 1 = ''SEQ:1 CMD:HAND_OPEN'' @ [CR, LF]"
    by (simp add: map_to_uart_command_def uart_frame_def to_string_samples)
  then have log: "uart_log ?n = [(1, ''SEQ:'')]"
    using node_run_append [of "[CommandMsg ''OPEN'', CallbackEnqueue, TxTake]"
        "[TxTransmit [(4, EOTHER), (0, EOTHER)] 9]" sample_node] sample_taken [OF valid_commands(1)]
    by (simp add: node_step.simps tx_transmit_def should_transmit_def find_request_def default_Request_def
        write_uart_def write_loop_step call_bytes_def sample_node_eq)
  have "\<exists>cmd. valid_command cmd \<and> (\<forall>bytes. (1, bytes) \<in> set (uart_log ?n) \<longrightarrow>
      (\<exists>written. bytes = take written (map_to_uart_command cmd 1)))"
    by (rule wire_frames [OF sample_run]) (use log in simp)
  with log show ?thesis by auto
qed

text \<open>
  Claim C10. The status service never reports success without evidence: if it answers \<^verbatim>\<open>success\<close>, then
  among the lines received so far on the UART there is one that parses as the acknowledgement
  \<^verbatim>\<open>OK\<close> of the sequence number of the latest accepted command; and the message names that number
  and the state \<^verbatim>\<open>SUCCEEDED\<close>.
\<close>

theorem status_success_evidence:
  assumes "n = node_run es (new_HandBridgeNode os port baud)" and "fst (status_callback n)"
  shows "(\<exists>line \<in> set (fst (split_lines (rx_consumed es (new_HandBridgeNode os port baud)))).
      line_kept line \<and> rx_ack line = Some (latest_requested_seq n, ACK_OK)) \<and>
    snd (status_callback n) = ''SEQ:'' @ to_string (unat (latest_requested_seq n)) @ '' STATUS:SUCCEEDED''"
proof -
  let ?n0 = "new_HandBridgeNode os port baud"
  have new: "retry_policy ?n0 = new_RetryPolicy" "rx ?n0 = rx_at []"
    by (simp_all add: new_HandBridgeNode_def new_rx_state_at split: prod.splits)
  from assms(2) obtain r where r: "find_request (latest_requested_seq n) (retry_policy n) = Some r"
    "rq_state r = SUCCEEDED" "snd (status_callback n) =
      ''SEQ:'' @ to_string (unat (latest_requested_seq n)) @ '' STATUS:SUCCEEDED''"
    by (auto simp: status_callback_def Let_def split: if_splits option.splits)
  have "\<exists>t. OnAck (latest_requested_seq n) ACK_OK t \<in> set (node_history es ?n0)"
    by (rule succeeded_needs_ok [OF policy_inv_new])
      (use r assms(1) in \<open>simp_all add: node_run_policy new find_request_def new_RetryPolicy_def\<close>)
  then obtain line where "line \<in> set (fst (rx_feed (rx_consumed es ?n0) (rx_at [])))"
    "rx_ack line = Some (latest_requested_seq n, ACK_OK)"
    using node_history_ack [of "latest_requested_seq n" ACK_OK _ es ?n0] new by auto
  moreover have "fst (rx_feed cs (rx_at [])) = filter line_kept (fst (split_lines cs))" for cs
    using rx_feed_reference [of cs "[]"]
    by (cases "split_lines cs") (auto simp: prefix_first_def split: list.splits)
  ultimately show ?thesis using r(3) by auto
qed

text \<open>An OPEN that is sent and acknowledged.\<close>

theorem status_success_evidence_witness:
  "let es = [CommandMsg ''OPEN'', CallbackEnqueue, TxTake, TxTransmit [(21, EOTHER)] 9,
             RxRead (ReadBytes (''ACK:1 OK'' @ [LF]))] @ replicate 9 (RxChar 10) in
   fst (status_callback (node_run es sample_node)) \<and>
   snd (status_callback (node_run es sample_node)) = ''SEQ:1 STATUS:SUCCEEDED''"
proof -
  let ?es = "[CommandMsg ''OPEN'', CallbackEnqueue, TxTake, TxTransmit [(21, EOTHER)] 9,
      RxRead (ReadBytes (''ACK:1 OK'' @ [LF]))] @ replicate 9 (RxChar 10)"
  have ok: "fst (status_callback (node_run ?es sample_node))"
    by code_simp
  have "latest_requested_seq (node_run ?es sample_node) = 1"
    by code_simp
  then show ?thesis
    using status_success_evidence [OF sample_run ok] ok
    by (simp add: to_string_samples)
qed

text \<open>
  Orderly end, safety part: after the destructor's section under \<^verbatim>\<open>queue_mutex_\<close> at most one
  more frame is written, and only one that the transmit worker had already taken.
\<close>

theorem destruction_quiesces:
  assumes "stop_worker n"
  shows "length (uart_log (node_run es n)) \<le> length (uart_log n) + (case tx n of TxHolding f \<Rightarrow> 1 | _ \<Rightarrow> 0)"
  using stopped_run [OF assms, of es] by (cases "tx n") (simp_all add: tx_left_def)

theorem destruction_quiesces_witness:
  "let n = node_run [CommandMsg ''OPEN'', CallbackEnqueue, Destroy, Destroy, Destroy] sample_node in
   uart_log (node_run [TxTake, TxTransmit [(21, EOTHER)] 0, RetryPoll 3, CommandMsg ''STOP'', TxTake] n) = []"
proof -
  let ?n = "node_run [CommandMsg ''OPEN'', CallbackEnqueue, Destroy, Destroy, Destroy] sample_node"
  have "stop_worker ?n" and "uart_log ?n = []" and "tx ?n = TxWaiting" by code_simp+
  with destruction_quiesces [of ?n "[TxTake, TxTransmit [(21, EOTHER)] 0, RetryPoll 3, CommandMsg ''STOP'', TxTake]"]
  show ?thesis by simp
qed

text \<open>
  Claim C13. Orderly end, progress part: under every fair schedule the destructor ends. From every state
  the node can reach, wherever the threads are, a transmit worker asleep on the condition variable
  included, after 134 rounds in each of which every thread gets to each of its steps at least once, in
  any order and among any other events (messages, spurious wake-ups, repeated steps), the joins have
  succeeded, the descriptor is closed and all threads have ended. It is assumed that in each round a
  write the transmit worker may be in comes to an end, with success or failure, and that no read returns
  more than the 128 bytes of the buffer.
\<close>

theorem destruction_completes:
  assumes "n = node_run es (new_HandBridgeNode os port baud)" and "list_all fair_round rounds"
    and "134 \<le> length rounds" and "reads_fit (es @ concat rounds)"
  shows "let n' = node_run (concat rounds) n in dtor n' = Closed \<and> uart_fd n' < 0 \<and> threads_done n'"
proof -
  have "rx_buffer (new_HandBridgeNode os port baud) = []" by (simp add: new_HandBridgeNode_def split: prod.splits)
  then have "length (rx_buffer n) \<le> 128" using rx_buffer_bound [of es] assms(1,4) by simp
  moreover have inv: "node_inv n" using assms(1) node_inv_reachable by simp
  ultimately have "dtor (node_run (concat rounds) n) = Closed" using rounds_close assms(2-4) by simp
  moreover have "shutdown_inv (node_run (concat rounds) n)" using node_inv_run [OF inv] by (simp add: node_inv_def)
  ultimately show ?thesis by (simp add: shutdown_inv_def Let_def)
qed

text \<open>The transmit worker has gone to sleep and three bytes are to be processed when the destructor starts.\<close>

theorem destruction_completes_witness:
  "let n = node_run [TxTake, RxRead (ReadBytes ''ACK'')] sample_node;
       round = [RxRead (ReadBytes []), Destroy, TxTake, RetryPush, TxTransmit [(-1, EOTHER)] 5, RxChar 5, RetryPoll 5]
   in tx n = TxSleeping \<and> uart_fd n = 3 \<and> uart_fd (node_run (concat (replicate 134 round)) n) < 0"
proof -
  let ?es = "[TxTake, RxRead (ReadBytes ''ACK'')]"
  let ?round = "[RxRead (ReadBytes []), Destroy, TxTake, RetryPush, TxTransmit [(-1, EOTHER)] 5, RxChar 5, RetryPoll 5]"
  have "write_ends [(-1, EOTHER)]"
    using map_to_uart_command_nonempty by (auto simp: write_ends_def write_loop_step)
  then have "list_all fair_round (replicate 134 ?round)" by (auto simp: list_all_iff fair_round_def)
  moreover have "reads_fit (?es @ concat (replicate 134 ?round))"
    by (auto simp: reads_fit_def)
  ultimately have "uart_fd (node_run (concat (replicate 134 ?round)) (node_run ?es sample_node)) < 0"
    using destruction_completes [OF sample_run, of "replicate 134 ?round" ?es] unfolding Let_def by (metis length_replicate order_refl)
  moreover have "tx (node_run ?es sample_node) = TxSleeping" "uart_fd (node_run ?es sample_node) = 3" by code_simp+
  ultimately show ?thesis unfolding Let_def by blast
qed

text \<open>
  Exhausted sequence numbers: when the number the counter draws is still in the book (after
  the 32-bit counter has wrapped, since requests are never removed), the command is refused and
  nothing new is on its way; yet a refused STOP has by then superseded every unfinished request
  that is not a STOP, so that the hand receives neither those nor the STOP.
\<close>

theorem exhausted_stop:
  assumes "callback n = CbIdle" and "0 \<le> uart_fd n" and "next_seq n \<noteq> 0"
    and "registered (retry_policy n) (next_seq n)"
  shows "let n' = node_step (CommandMsg ''STOP'') n in
    callback n' = CbIdle \<and> in_flight n' = in_flight n \<and> latest_requested_seq n' = latest_requested_seq n \<and>
    (\<forall>k r. find_request k (retry_policy n) = Some r \<and> \<not> rq_is_stop r \<and>
       rq_state r \<in> {QUEUED, WAITING_ACK, EXECUTING, RETRY_QUEUED} \<longrightarrow>
       find_request k (retry_policy n') = Some (r\<lparr>rq_state := SUPERSEDED\<rparr>))"
proof -
  let ?n = "callback_register ''STOP'' n"
  have rejected: "\<not> accepts ''STOP'' n" using assms(4) by (simp add: accepts_def)
  have same: "callback ?n = callback n" "latest_requested_seq ?n = latest_requested_seq n"
    by (subst callback_register_rejected [OF rejected], simp)+
  have "\<not> fst (start k f True (cancel_non_stop (retry_policy n)))" if "k = next_seq n" for k f
    using that assms(4) by (simp add: start_result)
  moreover have "snd (start k f b p) = p" if "\<not> fst (start k f b p)" for k f b p
    using that by (auto simp: start_def Let_def std_emplace_def split: option.splits if_splits)
  ultimately have "retry_policy (node_step (CommandMsg ''STOP'') n) = cancel_non_stop (retry_policy n)"
    unfolding node_step_policy using assms(1-3) by simp
  with same assms(1) callback_register_rejected_frames [OF rejected] show ?thesis
    by (auto simp: node_step.simps find_request_def cancel_non_stop_def smap.find_for_each cancel_request_def)
qed

text \<open>The counter one full turn after the first command, which is still being executed.\<close>

theorem exhausted_stop_witness:
  "let n = (node_run [CommandMsg ''GRAB'', CallbackEnqueue, TxTake] sample_node)\<lparr>next_seq := 1\<rparr> in
   callback (node_step (CommandMsg ''STOP'') n) = CbIdle \<and>
   in_flight (node_step (CommandMsg ''STOP'') n) = in_flight n \<and>
   find_request 1 (retry_policy (node_step (CommandMsg ''STOP'') n)) =
     Some ((first_request ''GRAB'')\<lparr>rq_state := SUPERSEDED\<rparr>)"
proof -
  let ?n = "(node_run [CommandMsg ''GRAB'', CallbackEnqueue, TxTake] sample_node)\<lparr>next_seq := 1\<rparr>"
  have "callback ?n = CbIdle" "0 \<le> uart_fd ?n" "next_seq ?n \<noteq> 0"
    "registered (retry_policy ?n) (next_seq ?n)"
    "find_request 1 (retry_policy ?n) = Some (first_request ''GRAB'')"
    unfolding sample_taken [OF valid_commands(2)]
    by (simp_all add: sample_node_eq registered_def find_request_def)
  moreover have "\<not> rq_is_stop (first_request ''GRAB'')" "rq_state (first_request ''GRAB'') = QUEUED"
    by (simp_all add: default_Request_def)
  ultimately show ?thesis using exhausted_stop [of ?n] by (simp only: Let_def) blast
qed

end
