(* ===== verification/Pipeline.thy ===== *)
theory Pipeline
  imports Prelude
begin

text \<open>
  The producer and consumer that five programs of the repository share: a producer pushes items
  under a mutex and at last sets a flag; a consumer waits for an item or the flag, and leaves when
  the queue is empty and the flag is set. Each program is a list of producer actions and a handler
  of the consumer; what the threads do besides (counting, logging, printing) is a list of effects.
  A step is one critical section or one effect, so that a run is an interleaving of the two threads.

  The locale \<open>pipeline\<close> holds the contract of such a program and, proved once: a run cannot get
  stuck, every run ends, and at its end the effects are an interleaving of the producer's effects
  and of the consumer's effects for all items in the order they were pushed.
\<close>

section \<open>The machine\<close>

text \<open>Producer actions; the effects of a push or of the closing happen under the mutex.\<close>

datatype ('a, 'e) action =
  Push 'a "'e list"
  | Emit 'e
  | Close "'e list"

text \<open>
  The consumer waits, works off effects (and then waits again or, after the loop, ends), or is done.
\<close>

datatype 'e consumer_pc =
  Waiting
  | Working "'e list" bool
  | Done

record ('a, 'e) pipe =
  producer :: "('a, 'e) action list"
  pipe_queue :: "'a list"
  closed :: bool
  consumer :: "'e consumer_pc"
  trace :: "'e list"

definition new_pipe :: "('a, 'e) action list \<Rightarrow> ('a, 'e) pipe" where
  "new_pipe actions = \<lparr>producer = actions, pipe_queue = [], closed = False, consumer = Waiting, trace = []\<rparr>"

fun producer_step :: "('a, 'e) pipe \<Rightarrow> ('a, 'e) pipe option" where
  "producer_step s =
     (case producer s of
        [] \<Rightarrow> None
      | Push x es # rest \<Rightarrow>
          Some (s\<lparr>producer := rest, pipe_queue := pipe_queue s @ [x], trace := trace s @ es\<rparr>)
      | Emit e # rest \<Rightarrow> Some (s\<lparr>producer := rest, trace := trace s @ [e]\<rparr>)
      | Close es # rest \<Rightarrow> Some (s\<lparr>producer := rest, closed := True, trace := trace s @ es\<rparr>))"

text \<open>\<open>None\<close> while the consumer's wait does not return, and after its end.\<close>

fun consumer_step :: "('a \<Rightarrow> 'e list) \<Rightarrow> 'e list \<Rightarrow> ('a, 'e) pipe \<Rightarrow> ('a, 'e) pipe option" where
  "consumer_step handler exit s =
     (case consumer s of
        Waiting \<Rightarrow>
          (case pipe_queue s of
             [] \<Rightarrow> if closed s then Some (s\<lparr>consumer := Working exit True\<rparr>) else None
           | x # rest \<Rightarrow> Some (s\<lparr>pipe_queue := rest, consumer := Working (handler x) False\<rparr>))
      | Working [] ends \<Rightarrow> Some (s\<lparr>consumer := (if ends then Done else Waiting)\<rparr>)
      | Working (e # es) ends \<Rightarrow> Some (s\<lparr>consumer := Working es ends, trace := trace s @ [e]\<rparr>)
      | Done \<Rightarrow> None)"

declare producer_step.simps [simp del] consumer_step.simps [simp del]

inductive pipe_step :: "('a \<Rightarrow> 'e list) \<Rightarrow> 'e list \<Rightarrow> ('a, 'e) pipe \<Rightarrow> ('a, 'e) pipe \<Rightarrow> bool"
  for handler :: "'a \<Rightarrow> 'e list" and exit :: "'e list" where
  produce: "producer_step s = Some t \<Longrightarrow> pipe_step handler exit s t"
| consume: "consumer_step handler exit s = Some t \<Longrightarrow> pipe_step handler exit s t"

definition finished :: "('a, 'e) pipe \<Rightarrow> bool" where
  "finished s \<longleftrightarrow> producer s = [] \<and> consumer s = Done"

text \<open>A schedule: at each point the producer (\<open>True\<close>) or the consumer moves, if it can.\<close>

fun pipe_run :: "('a \<Rightarrow> 'e list) \<Rightarrow> 'e list \<Rightarrow> bool list \<Rightarrow> ('a, 'e) pipe \<Rightarrow> ('a, 'e) pipe" where
  "pipe_run handler exit [] s = s"
| "pipe_run handler exit (w # ws) s =
     (case (if w then producer_step s else consumer_step handler exit s) of
        None \<Rightarrow> pipe_run handler exit ws s
      | Some t \<Rightarrow> pipe_run handler exit ws t)"

section \<open>Programs\<close>

fun pushed :: "('a, 'e) action list \<Rightarrow> 'a list" where
  "pushed [] = []"
| "pushed (Push x es # as) = x # pushed as"
| "pushed (_ # as) = pushed as"

fun emitted :: "('a, 'e) action list \<Rightarrow> 'e list" where
  "emitted [] = []"
| "emitted (Push x es # as) = es @ emitted as"
| "emitted (Emit e # as) = e # emitted as"
| "emitted (Close es # as) = es @ emitted as"

text \<open>The producer closes the queue, and pushes nothing after that.\<close>

fun closes :: "('a, 'e) action list \<Rightarrow> bool" where
  "closes [] = False"
| "closes (Close es # as) = (pushed as = [])"
| "closes (_ # as) = closes as"

text \<open>The effects the consumer has still to perform.\<close>

definition pending_effects :: "('a \<Rightarrow> 'e list) \<Rightarrow> 'e list \<Rightarrow> ('a, 'e) pipe \<Rightarrow> 'e list" where
  "pending_effects handler exit s =
     (let later = concat (map handler (pipe_queue s @ pushed (producer s))) @ exit in
      case consumer s of
        Waiting \<Rightarrow> later
      | Working es False \<Rightarrow> es @ later
      | Working es True \<Rightarrow> es
      | Done \<Rightarrow> [])"

definition pipe_wf :: "('a, 'e) pipe \<Rightarrow> bool" where
  "pipe_wf s \<longleftrightarrow> (if closed s then pushed (producer s) = [] else closes (producer s)) \<and>
     (case consumer s of Working es True \<Rightarrow> closed s \<and> pipe_queue s = []
      | Done \<Rightarrow> closed s \<and> pipe_queue s = [] | _ \<Rightarrow> True)"

text \<open>The invariant: the effects so far interleave what each thread has done of its own sequence.\<close>

definition pipe_inv :: "('a \<Rightarrow> 'e list) \<Rightarrow> 'e list \<Rightarrow> ('a, 'e) action list \<Rightarrow> ('a, 'e) pipe \<Rightarrow> bool" where
  "pipe_inv handler exit actions s \<longleftrightarrow> pipe_wf s \<and>
     (\<exists>p c. trace s \<in> shuffles p c \<and> p @ emitted (producer s) = emitted actions \<and>
        c @ pending_effects handler exit s = concat (map handler (pushed actions)) @ exit)"

text \<open>How many steps are left at most.\<close>

definition pipe_measure :: "('a \<Rightarrow> 'e list) \<Rightarrow> 'e list \<Rightarrow> ('a, 'e) pipe \<Rightarrow> nat" where
  "pipe_measure handler exit s =
     length (producer s) +
     sum_list (map (\<lambda>x. length (handler x) + 2) (pipe_queue s @ pushed (producer s))) +
     (case consumer s of
        Waiting \<Rightarrow> length exit + 2
      | Working es False \<Rightarrow> length es + 1 + length exit + 2
      | Working es True \<Rightarrow> length es + 1
      | Done \<Rightarrow> 0)"

section \<open>Lemmas on the machine\<close>

lemma shuffles_append_left: "zs \<in> shuffles xs ys \<Longrightarrow> zs @ es \<in> shuffles (xs @ es) ys"
proof (induction zs arbitrary: xs ys)
  case (Cons z zs)
  then consider xs' where "xs = z # xs'" "zs \<in> shuffles xs' ys" | ys' where "ys = z # ys'" "zs \<in> shuffles xs ys'"
    unfolding Cons_in_shuffles_iff by (metis list.collapse)
  then show ?case
    using Cons.IH by cases (auto intro: Cons_in_shuffles_leftI Cons_in_shuffles_rightI)
qed simp

lemma shuffles_append_right: "zs \<in> shuffles xs ys \<Longrightarrow> zs @ es \<in> shuffles xs (ys @ es)"
  using shuffles_append_left [of zs ys xs es] by (simp add: shuffles_commutes)

lemma pushed_closes: "closes as \<Longrightarrow> as \<noteq> []"
  by auto

text \<open>The two kinds of step, written out.\<close>

lemma producer_step_cases:
  assumes "producer_step s = Some t"
  obtains (move) a as es where "producer s = a # as" "emitted (a # as) = es @ emitted as"
    "producer t = as" "consumer t = consumer s" "trace t = trace s @ es"
    "pipe_queue t @ pushed as = pipe_queue s @ pushed (a # as)"
    "closed t \<longleftrightarrow> closed s \<or> (\<exists>es. a = Close es)"
    "pipe_queue t = pipe_queue s \<or> (\<exists>x es. a = Push x es)"
  using assms by (auto simp: producer_step.simps split: list.splits action.splits)

lemma consumer_step_cases:
  assumes "consumer_step handler exit s = Some t"
  obtains (take) x rest where "consumer s = Waiting" "pipe_queue s = x # rest"
      "t = s\<lparr>pipe_queue := rest, consumer := Working (handler x) False\<rparr>"
  | (leave) "consumer s = Waiting" "pipe_queue s = []" "closed s" "t = s\<lparr>consumer := Working exit True\<rparr>"
  | (loop) ends where "consumer s = Working [] ends" "t = s\<lparr>consumer := (if ends then Done else Waiting)\<rparr>"
  | (work) e es ends where "consumer s = Working (e # es) ends"
      "t = s\<lparr>consumer := Working es ends, trace := trace s @ [e]\<rparr>"
  using assms by (auto simp: consumer_step.simps split: consumer_pc.splits list.splits if_splits)

lemma pipe_wf_step:
  assumes "pipe_step handler exit s t" and "pipe_wf s"
  shows "pipe_wf t"
  using assms(1)
proof cases
  case produce
  then show ?thesis
  proof (cases rule: producer_step_cases)
    case (move a as es)
    with assms(2) show ?thesis
      by (cases a) (auto simp: pipe_wf_def split: if_splits consumer_pc.splits bool.splits)
  qed
next
  case consume
  then show ?thesis
    by (cases rule: consumer_step_cases)
      (use assms(2) in \<open>auto simp: pipe_wf_def split: if_splits consumer_pc.splits bool.splits\<close>)
qed

lemma pending_producer:
  assumes "producer_step s = Some t"
  shows "pending_effects handler exit t = pending_effects handler exit s"
  using assms
proof (cases rule: producer_step_cases)
  case (move a as es)
  then have "pipe_queue t @ pushed (producer t) = pipe_queue s @ pushed (producer s)" by simp
  with move show ?thesis by (simp add: pending_effects_def Let_def del: map_append)
qed

lemma pending_consumer:
  assumes "consumer_step handler exit s = Some t" and "pipe_wf s"
  shows "\<exists>es. trace t = trace s @ es \<and> pending_effects handler exit s = es @ pending_effects handler exit t \<and>
    producer t = producer s"
  using assms(1)
  by (cases rule: consumer_step_cases)
    (use assms(2) in \<open>auto simp: pending_effects_def Let_def pipe_wf_def split: bool.splits\<close>)

lemma pipe_inv_step:
  assumes "pipe_step handler exit s t" and "pipe_inv handler exit actions s"
  shows "pipe_inv handler exit actions t"
proof -
  from assms(2) obtain p c where pc: "trace s \<in> shuffles p c" "p @ emitted (producer s) = emitted actions"
    "c @ pending_effects handler exit s = concat (map handler (pushed actions)) @ exit"
    and wf: "pipe_wf s" by (auto simp: pipe_inv_def)
  have wf': "pipe_wf t" by (rule pipe_wf_step [OF assms(1) wf])
  from assms(1) show ?thesis
  proof cases
    case produce
    from pending_producer [OF produce, where handler = handler and exit = exit] have pend:
      "pending_effects handler exit t = pending_effects handler exit s" .
    from produce show ?thesis
    proof (cases rule: producer_step_cases)
      case (move a as es)
      then have "trace t \<in> shuffles (p @ es) c" "(p @ es) @ emitted (producer t) = emitted actions"
        using pc shuffles_append_left by simp_all
      with wf' pc(3) pend show ?thesis unfolding pipe_inv_def by metis
    qed
  next
    case consume
    from pending_consumer [OF consume wf] obtain es where es: "trace t = trace s @ es"
      "pending_effects handler exit s = es @ pending_effects handler exit t" "producer t = producer s" by blast
    then have "trace t \<in> shuffles p (c @ es)"
      "(c @ es) @ pending_effects handler exit t = concat (map handler (pushed actions)) @ exit"
      using pc shuffles_append_right by simp_all
    with wf' pc(2) es(3) show ?thesis unfolding pipe_inv_def by metis
  qed
qed

lemma pipe_measure_step:
  assumes "pipe_step handler exit s t"
  shows "pipe_measure handler exit t < pipe_measure handler exit s"
  using assms
proof cases
  case produce
  then show ?thesis
  proof (cases rule: producer_step_cases)
    case (move a as es)
    then have "pipe_queue t @ pushed (producer t) = pipe_queue s @ pushed (producer s)" by simp
    with move show ?thesis by (simp add: pipe_measure_def del: map_append)
  qed
next
  case consume
  then show ?thesis
    by (cases rule: consumer_step_cases) (auto simp: pipe_measure_def split: bool.splits)
qed

lemma pipe_progress:
  assumes "pipe_wf s" and "\<not> finished s"
  shows "\<exists>t. pipe_step handler exit s t"
proof (cases "producer s")
  case Nil
  with assms(1) have "closed s" by (auto simp: pipe_wf_def split: if_splits)
  with Nil assms(2) have "consumer_step handler exit s \<noteq> None"
    by (auto simp: finished_def consumer_step.simps split: consumer_pc.splits list.splits)
  then show ?thesis by (blast intro: pipe_step.consume)
next
  case (Cons a as)
  then obtain t where "producer_step s = Some t" by (cases a) (auto simp: producer_step.simps)
  then show ?thesis by (blast intro: pipe_step.produce)
qed

section \<open>The contract of a program\<close>

locale pipeline =
  fixes handler :: "'a \<Rightarrow> 'e list"
    and exit :: "'e list"
    and actions :: "('a, 'e) action list"
  assumes closes_actions: "closes actions"
begin

lemma pipe_inv_new: "pipe_inv handler exit actions (new_pipe actions)"
proof -
  have "trace (new_pipe actions) \<in> shuffles [] []" by (simp add: new_pipe_def)
  with closes_actions show ?thesis
    unfolding pipe_inv_def
    by (intro conjI exI [of _ "[]"]) (simp_all add: pipe_wf_def pending_effects_def new_pipe_def Let_def)
qed

end

sublocale pipeline \<subseteq> run: terminating_system "\<lambda>s. s = new_pipe actions" "pipe_step handler exit"
  "pipe_inv handler exit actions" finished "pipe_measure handler exit"
proof unfold_locales
  show "pipe_inv handler exit actions s" if "s = new_pipe actions" for s using that pipe_inv_new by simp
  show "pipe_inv handler exit actions t" if "pipe_step handler exit s t" "pipe_inv handler exit actions s" for s t
    using that by (rule pipe_inv_step)
  show "pipe_measure handler exit t < pipe_measure handler exit s" if "pipe_step handler exit s t" for s t
    using that by (rule pipe_measure_step)
  show "\<exists>t. pipe_step handler exit s t" if "pipe_inv handler exit actions s" "\<not> finished s" for s
    using that by (intro pipe_progress) (simp_all add: pipe_inv_def)
qed

context pipeline
begin

lemma outcome:
  assumes "(pipe_step handler exit)\<^sup>*\<^sup>* (new_pipe actions) s" and "finished s"
  shows "trace s \<in> shuffles (emitted actions) (concat (map handler (pushed actions)) @ exit)"
  using run.inv_reachable [OF refl assms(1)] assms(2)
  by (auto simp: pipe_inv_def finished_def pending_effects_def)

lemmas not_stuck = run.not_stuck [OF _ pipe_inv_new]
  and bounded = run.bounded [OF _ pipe_inv_new]
  and completes = run.completes [OF run.inv_run [OF _ pipe_inv_new]]

text \<open>Whatever can be counted in the effects is counted alike at the end of every run.\<close>

lemma outcome_count:
  assumes "(pipe_step handler exit)\<^sup>*\<^sup>* (new_pipe actions) s" and "finished s"
  shows "length (filter P (trace s)) =
    length (filter P (emitted actions)) + length (filter P (concat (map handler (pushed actions)) @ exit))"
proof -
  have "filter P (trace s) \<in>
      shuffles (filter P (emitted actions)) (filter P (concat (map handler (pushed actions)) @ exit))"
    using outcome [OF assms] filter_shuffles [of P] by blast
  then show ?thesis by (rule length_shuffles)
qed

end

lemma pipe_run_reaches: "(pipe_step handler exit)\<^sup>*\<^sup>* s (pipe_run handler exit ws s)"
proof (induction ws arbitrary: s)
  case (Cons w ws)
  then show ?case
    by (auto split: option.splits intro: converse_rtranclp_into_rtranclp pipe_step.intros)
qed simp

end
