(* ===== verification/Protocol_Parser.thy ===== *)
theory Protocol_Parser
  imports Std_Map "HOL-Library.Char_ord" "HOL-Library.List_Lexorder"
begin

text \<open>
  The text commands of the gateway (\<^verbatim>\<open>protocol_parser/src/protocol_parser.cpp\<close>) and the second version
  of the same parser in \<^verbatim>\<open>interview_practice/day28_protocol_parser.cpp\<close>: trimming, conversion to upper
  case and the look-up of the command in a map from names. The main result says which inputs are
  which command, and that the two versions agree.
\<close>

section \<open>The string functions used\<close>

text \<open>\<^verbatim>\<open>find_first_not_of\<close> and \<^verbatim>\<open>find_last_not_of\<close>; \<open>None\<close> is \<^verbatim>\<open>npos\<close>.\<close>

fun find_first_not_of :: "string \<Rightarrow> string \<Rightarrow> nat option" where
  "find_first_not_of chars [] = None"
| "find_first_not_of chars (c # s) =
     (if c \<notin> set chars then Some 0 else map_option Suc (find_first_not_of chars s))"

definition find_last_not_of :: "string \<Rightarrow> string \<Rightarrow> nat option" where
  "find_last_not_of chars s =
     map_option (\<lambda>i. length s - 1 - i) (find_first_not_of chars (rev s))"

definition substr :: "string \<Rightarrow> nat \<Rightarrow> nat \<Rightarrow> string" where
  "substr s pos count = take count (drop pos s)"

text \<open>\<^verbatim>\<open>toupper\<close> in the C locale.\<close>

definition toupper :: "char \<Rightarrow> char" where
  "toupper c = (if 97 \<le> (of_char c :: nat) \<and> (of_char c :: nat) \<le> 122 then char_of ((of_char c :: nat) - 32) else c)"

definition whitespace :: string where
  "whitespace = [CHR '' '', CHR 0x09, CHR 0x0D, CHR 0x0A]"

section \<open>ProtocolParser\<close>

datatype Command = Open | Grab | Release | Stop | Unknown

record ProtocolParser =
  commandMap :: "(string, Command) std_map"

definition new_ProtocolParser :: ProtocolParser where
  "new_ProtocolParser =
     \<lparr>commandMap = fold (\<lambda>(name, command). std_put name command)
        [(''OPEN'', Open), (''GRAB'', Grab), (''RELEASE'', Release), (''STOP'', Stop)] []\<rparr>"

definition normalizeInput :: "string \<Rightarrow> string" where
  "normalizeInput rawInput =
     (case find_first_not_of whitespace rawInput of
        None \<Rightarrow> ''''
      | Some first \<Rightarrow>
          (case find_last_not_of whitespace rawInput of
             None \<Rightarrow> ''''
           | Some lastPos \<Rightarrow> map toupper (substr rawInput first (lastPos - first + 1))))"

definition parse :: "ProtocolParser \<Rightarrow> string \<Rightarrow> Command" where
  "parse parser rawInput =
     (let normalizedInput = normalizeInput rawInput in
      if normalizedInput = [] then Unknown
      else case std_find normalizedInput (commandMap parser) of
             None \<Rightarrow> Unknown
           | Some command \<Rightarrow> command)"

definition isValid :: "Command \<Rightarrow> bool" where
  "isValid command \<longleftrightarrow> command \<noteq> Unknown"

fun parserCommandToString :: "Command \<Rightarrow> string" where
  "parserCommandToString Open = ''OPEN''"
| "parserCommandToString Grab = ''GRAB''"
| "parserCommandToString Release = ''RELEASE''"
| "parserCommandToString Stop = ''STOP''"
| "parserCommandToString Unknown = ''UNKNOWN''"

fun toExecutorCommand :: "Command \<Rightarrow> string" where
  "toExecutorCommand Open = ''HAND_OPEN''"
| "toExecutorCommand Grab = ''HAND_GRAB''"
| "toExecutorCommand Release = ''HAND_RELEASE''"
| "toExecutorCommand Stop = ''HAND_STOP''"
| "toExecutorCommand Unknown = ''HAND_NONE''"

text \<open>The lines the demonstration prints.\<close>

definition parser_demo_line :: "ProtocolParser \<Rightarrow> string \<Rightarrow> string" where
  "parser_demo_line parser rawInput =
     (let command = parse parser rawInput in
      ''input:'' @ [CHR 0x22] @ rawInput @ [CHR 0x22] @ ''|command:'' @ parserCommandToString command @
      ''|executor:'' @ toExecutorCommand command @ ''|valid:'' @ (if isValid command then ''true'' else ''false''))"

definition parser_demo_main :: "string list" where
  "parser_demo_main =
     map (parser_demo_line new_ProtocolParser)
       [''OPEN'', ''grab'', ''release'', [CHR 0x09] @ ''Stop'' @ [CHR 0x09], ''JUMP'', '''']"

section \<open>The second version\<close>

definition day28_commandMap :: "(string, Command) std_map" where
  "day28_commandMap = fold (\<lambda>(name, command). std_put name command)
     [(''OPEN'', Open), (''GRAB'', Grab), (''RELEASE'', Release), (''STOP'', Stop)] []"

definition day28_normalizeInput :: "string \<Rightarrow> string" where
  "day28_normalizeInput rawInput =
     (let whitespace = [CHR '' '', CHR 0x09, CHR 0x0D, CHR 0x0A] in
      case find_first_not_of whitespace rawInput of
        None \<Rightarrow> ''''
      | Some first \<Rightarrow>
          (case find_last_not_of whitespace rawInput of
             None \<Rightarrow> ''''
           | Some lastPos \<Rightarrow> map toupper (substr rawInput first (lastPos - first + 1))))"

definition day28_parseCommand :: "string \<Rightarrow> Command" where
  "day28_parseCommand rawInput =
     (case std_find (day28_normalizeInput rawInput) day28_commandMap of
        None \<Rightarrow> Unknown
      | Some command \<Rightarrow> command)"

fun day28_commandToString :: "Command \<Rightarrow> string" where
  "day28_commandToString Open = ''OPEN''"
| "day28_commandToString Grab = ''GRAB''"
| "day28_commandToString Release = ''RELEASE''"
| "day28_commandToString Stop = ''STOP''"
| "day28_commandToString Unknown = ''UNKNOWN''"

fun day28_toExecutorCommand :: "Command \<Rightarrow> string" where
  "day28_toExecutorCommand Open = ''HAND_OPEN''"
| "day28_toExecutorCommand Grab = ''HAND_GRAB''"
| "day28_toExecutorCommand Release = ''HAND_RELEASE''"
| "day28_toExecutorCommand Stop = ''HAND_STOP''"
| "day28_toExecutorCommand Unknown = ''HAND_NONE''"

definition day28_main :: "string list" where
  "day28_main =
     map (\<lambda>input. let command = day28_parseCommand input in
        ''raw='' @ [CHR 0x22] @ input @ [CHR 0x22] @ '' -> command='' @ day28_commandToString command @
        '' -> executor='' @ day28_toExecutorCommand command)
       [''OPEN'', '' grab '', [CHR 0x09] @ ''STOP'' @ [CHR 0x0D, CHR 0x0A], ''release'', ''JUMP'', ''   '']"

section \<open>Trimming\<close>

lemma find_first_not_of_eq:
  "find_first_not_of chars s =
     (if set s \<subseteq> set chars then None else Some (length (takeWhile (\<lambda>c. c \<in> set chars) s)))"
  by (induction s) auto

text \<open>The input without the whitespace at either end.\<close>

definition trimmed :: "string \<Rightarrow> string" where
  "trimmed s = rev (dropWhile (\<lambda>c. c \<in> set whitespace) (rev (dropWhile (\<lambda>c. c \<in> set whitespace) s)))"

lemma trimmed_decompose:
  "\<exists>pre post. s = pre @ trimmed s @ post \<and> set pre \<subseteq> set whitespace \<and> set post \<subseteq> set whitespace"
proof -
  let ?w = "\<lambda>c. c \<in> set whitespace"
  let ?d = "dropWhile ?w s"
  have "s = takeWhile ?w s @ ?d" by simp
  moreover have "?d = rev (dropWhile ?w (rev ?d)) @ rev (takeWhile ?w (rev ?d))"
    by (metis rev_append rev_rev_ident takeWhile_dropWhile_id)
  moreover have "set (takeWhile ?w xs) \<subseteq> set whitespace" for xs by (auto dest: set_takeWhileD)
  ultimately show ?thesis unfolding trimmed_def by (metis set_rev)
qed

lemma trimmed_core:
  assumes "set pre \<subseteq> set whitespace" and "set post \<subseteq> set whitespace"
    and "core \<noteq> []" and "hd core \<notin> set whitespace" and "last core \<notin> set whitespace"
  shows "trimmed (pre @ core @ post) = core"
proof -
  let ?w = "\<lambda>c. c \<in> set whitespace"
  have "dropWhile ?w (pre @ core @ post) = core @ post"
    using assms by (subst dropWhile_append2) (auto simp: dropWhile_append neq_Nil_conv)
  moreover have "dropWhile ?w (rev (core @ post)) = rev core"
    using assms by (simp, subst dropWhile_append2) (auto simp: hd_rev dropWhile_eq_self_iff)
  ultimately show ?thesis by (simp add: trimmed_def)
qed
lemma rev_dropWhile_rev: "rev (dropWhile P (rev xs)) = take (length xs - length (takeWhile P (rev xs))) xs"
proof -
  have "dropWhile P (rev xs) = drop (length (takeWhile P (rev xs))) (rev xs)"
    by (metis append_eq_conv_conj takeWhile_dropWhile_id)
  then show ?thesis by (simp add: rev_drop)
qed

lemma normalizeInput_trimmed: "normalizeInput s = map toupper (trimmed s)"
proof (cases "set s \<subseteq> set whitespace")
  case True
  then have "trimmed s = []" by (auto simp: trimmed_def dest: set_dropWhileD)
  with True show ?thesis by (simp add: normalizeInput_def find_first_not_of_eq)
next
  case False
  let ?w = "\<lambda>c. c \<in> set whitespace"
  let ?a = "takeWhile ?w s" and ?d = "dropWhile ?w s"
  have s: "s = ?a @ ?d" by simp
  from False obtain c where c: "c \<in> set ?d" "\<not> ?w c"
    by (metis dropWhile_eq_Nil_conv hd_dropWhile hd_in_set subsetI)
  then have tw: "takeWhile ?w (rev s) = takeWhile ?w (rev ?d)"
    by (subst s, simp only: rev_append) (rule takeWhile_append1 [of c], auto)
  have less: "length (takeWhile ?w (rev ?d)) < length ?d"
  proof -
    have "takeWhile ?w (rev ?d) \<noteq> rev ?d" using c by (metis set_rev takeWhile_eq_all_conv)
    then show ?thesis by (metis length_rev length_takeWhile_le le_neq_implies_less takeWhile_eq_take take_all_iff nle_le)
  qed
  have "length s = length ?a + length ?d" using s by (metis length_append)
  with less have "length s - 1 - length (takeWhile ?w (rev ?d)) - length ?a + 1 =
      length ?d - length (takeWhile ?w (rev ?d))" by linarith
  moreover have "drop (length ?a) s = ?d" by (metis append_eq_conv_conj s)
  ultimately show ?thesis
    using False by (simp add: normalizeInput_def find_last_not_of_def find_first_not_of_eq substr_def
        trimmed_def rev_dropWhile_rev tw)
qed

section \<open>The table of names\<close>

lemma std_find_table:
  "std_find s (fold (\<lambda>(name, command). std_put name command)
     [(''OPEN'', Open), (''GRAB'', Grab), (''RELEASE'', Release), (''STOP'', Stop)] []) =
   (if s = ''OPEN'' then Some Open else if s = ''GRAB'' then Some Grab
    else if s = ''RELEASE'' then Some Release else if s = ''STOP'' then Some Stop else None)"
  by (simp add: std_find_put)

lemma all_Command: "(\<forall>c. P c) \<longleftrightarrow> P Open \<and> P Grab \<and> P Release \<and> P Stop \<and> P Unknown"
  by (metis Command.exhaust)

lemma parse_eq:
  "parse new_ProtocolParser s = c \<longleftrightarrow>
     (if c = Unknown then \<forall>c'. isValid c' \<longrightarrow> normalizeInput s \<noteq> parserCommandToString c'
      else normalizeInput s = parserCommandToString c)"
proof -
  have "parse new_ProtocolParser s =
      (if normalizeInput s = ''OPEN'' then Open else if normalizeInput s = ''GRAB'' then Grab
       else if normalizeInput s = ''RELEASE'' then Release else if normalizeInput s = ''STOP'' then Stop
       else Unknown)"
    by (simp add: parse_def new_ProtocolParser_def Let_def std_find_table)
  moreover have "(\<forall>c'. isValid c' \<longrightarrow> x \<noteq> parserCommandToString c') \<longleftrightarrow>
      x \<noteq> ''OPEN'' \<and> x \<noteq> ''GRAB'' \<and> x \<noteq> ''RELEASE'' \<and> x \<noteq> ''STOP''" for x
    by (simp add: all_Command isValid_def)
  ultimately show ?thesis by (cases c) simp_all
qed

lemma whitespace_codes: "c \<in> set whitespace \<Longrightarrow> (of_char c :: nat) \<in> {32, 9, 13, 10}"
  by (auto simp: whitespace_def)

lemma toupper_whitespace: "toupper c \<in> set whitespace \<longleftrightarrow> c \<in> set whitespace"
proof (cases "97 \<le> (of_char c :: nat) \<and> (of_char c :: nat) \<le> 122")
  case True
  then have "((of_char c :: nat) - 32) mod 256 = of_char c - 32" by (intro mod_less) linarith
  with True have up: "(of_char (toupper c) :: nat) = of_char c - 32" by (simp add: toupper_def)
  show ?thesis using whitespace_codes [of c] whitespace_codes [of "toupper c"] True up by auto
qed (auto simp: toupper_def)

lemma name_ends:
  "isValid c \<Longrightarrow> parserCommandToString c \<noteq> [] \<and> hd (parserCommandToString c) \<notin> set whitespace \<and>
     last (parserCommandToString c) \<notin> set whitespace"
  by (cases c) (auto simp: isValid_def whitespace_def)

section \<open>Properties\<close>

text \<open>
  Claim C38. The language of text commands: the parser answers a command other than \<^verbatim>\<open>Unknown\<close> exactly
  on the inputs that consist of that command's name in any mixture of upper and lower case, with
  any amount of blanks, tabs and line ends before and after it and nowhere else; every other input
  is \<^verbatim>\<open>Unknown\<close>. In particular a name parses back to its command.
\<close>

theorem parse_language:
  "(isValid (parse new_ProtocolParser s) \<longleftrightarrow>
      (\<exists>c pre core post. isValid c \<and> s = pre @ core @ post \<and> set pre \<subseteq> set whitespace \<and>
         set post \<subseteq> set whitespace \<and> map toupper core = parserCommandToString c)) \<and>
   (isValid c \<and> set pre \<subseteq> set whitespace \<and> set post \<subseteq> set whitespace \<and>
      map toupper core = parserCommandToString c \<longrightarrow> parse new_ProtocolParser (pre @ core @ post) = c)"
proof (intro conjI impI)
  have parses: "parse new_ProtocolParser (pre @ core @ post) = c"
    if "isValid c" "set pre \<subseteq> set whitespace" "set post \<subseteq> set whitespace"
      "map toupper core = parserCommandToString c" for c pre core post
  proof -
    have ne: "core \<noteq> []" using name_ends [OF that(1)] that(4) by auto
    then have "hd core \<notin> set whitespace" "last core \<notin> set whitespace"
      using name_ends [OF that(1)] that(4) toupper_whitespace by (metis hd_map, metis last_map)
    from trimmed_core [OF that(2,3) ne this] that(1,4) show ?thesis
      by (simp add: parse_eq normalizeInput_trimmed isValid_def)
  qed
  show "isValid (parse new_ProtocolParser s) \<longleftrightarrow> (\<exists>c pre core post. isValid c \<and> s = pre @ core @ post \<and>
      set pre \<subseteq> set whitespace \<and> set post \<subseteq> set whitespace \<and> map toupper core = parserCommandToString c)"
  proof
    assume valid: "isValid (parse new_ProtocolParser s)"
    then have "map toupper (trimmed s) = parserCommandToString (parse new_ProtocolParser s)"
      using parse_eq [of s "parse new_ProtocolParser s"] by (simp add: isValid_def normalizeInput_trimmed)
    with valid trimmed_decompose [of s] show "\<exists>c pre core post. isValid c \<and> s = pre @ core @ post \<and>
      set pre \<subseteq> set whitespace \<and> set post \<subseteq> set whitespace \<and> map toupper core = parserCommandToString c"
      by blast
  qed (use parses in auto)
  show "parse new_ProtocolParser (pre @ core @ post) = c"
    if "isValid c \<and> set pre \<subseteq> set whitespace \<and> set post \<subseteq> set whitespace \<and>
      map toupper core = parserCommandToString c"
    using that parses by blast
qed

theorem parse_language_witness:
  "parse new_ProtocolParser ([CHR 0x09] @ ''sToP'' @ [CHR 0x0D, CHR 0x0A]) = Stop"
proof -
  have "isValid Stop" "set [CHR 0x09] \<subseteq> set whitespace" "set [CHR 0x0D, CHR 0x0A] \<subseteq> set whitespace"
    "map toupper ''sToP'' = parserCommandToString Stop" by code_simp+
  with parse_language [of _ Stop "[CHR 0x09]" "[CHR 0x0D, CHR 0x0A]" "''sToP''"] show ?thesis by blast
qed

text \<open>
  The two parsers agree: the interview version answers every input like the gateway's
  parser, although it has no test for the empty string, and its two tables of names are the same;
  the gateway's demonstration prints the table below.
\<close>

theorem day28_agrees:
  "day28_parseCommand s = parse new_ProtocolParser s \<and>
   day28_commandToString c = parserCommandToString c \<and> day28_toExecutorCommand c = toExecutorCommand c \<and>
   parser_demo_main =
     [''input:\"OPEN\"|command:OPEN|executor:HAND_OPEN|valid:true'',
      ''input:\"grab\"|command:GRAB|executor:HAND_GRAB|valid:true'',
      ''input:\"release\"|command:RELEASE|executor:HAND_RELEASE|valid:true'',
      ''input:\"'' @ [CHR 0x09] @ ''Stop'' @ [CHR 0x09] @ ''\"|command:STOP|executor:HAND_STOP|valid:true'',
      ''input:\"JUMP\"|command:UNKNOWN|executor:HAND_NONE|valid:false'',
      ''input:\"\"|command:UNKNOWN|executor:HAND_NONE|valid:false'']"
proof (intro conjI)
  have "day28_normalizeInput s = normalizeInput s"
    by (simp only: day28_normalizeInput_def normalizeInput_def whitespace_def Let_def)
  moreover have "commandMap new_ProtocolParser = day28_commandMap"
    by (simp only: new_ProtocolParser_def day28_commandMap_def ProtocolParser.simps)
  moreover have "std_find [] day28_commandMap = None"
    unfolding day28_commandMap_def std_find_table by simp
  ultimately show "day28_parseCommand s = parse new_ProtocolParser s"
    by (simp add: day28_parseCommand_def parse_def Let_def)
  show "day28_commandToString c = parserCommandToString c" by (cases c) simp_all
  show "day28_toExecutorCommand c = toExecutorCommand c" by (cases c) simp_all
qed code_simp

end
