(* ===== verification/Log_Manager.thy ===== *)
theory Log_Manager
  imports Std_Map "HOL-Library.Sublist"
begin

text \<open>
  The logger (\<^verbatim>\<open>log_manager/include/log_manager.h\<close>, \<^verbatim>\<open>log_manager/src/log_manager.cpp\<close>) and the program
  that uses it from two threads (\<^verbatim>\<open>thread_safe_log_demo/main.cpp\<close>). Every operation holds the mutex
  from its first to its last access to the members, so an execution of several threads is a
  sequence of whole operations. A log file is its lines on disk and its lines still buffered; the
  terminal, to which \<^verbatim>\<open>cout\<close> and \<^verbatim>\<open>cerr\<close> both go, is the list of lines shown.
\<close>

section \<open>Data\<close>

datatype LogLevel = Info | Warning | Error

text \<open>The order of the enumerators, which is the order of the keys of the map of counts.\<close>

fun level_rank :: "LogLevel \<Rightarrow> nat" where
  "level_rank Info = 0"
| "level_rank Warning = 1"
| "level_rank Error = 2"

instantiation LogLevel :: linorder
begin

definition less_eq_LogLevel :: "LogLevel \<Rightarrow> LogLevel \<Rightarrow> bool" where
  "less_eq_LogLevel a b \<longleftrightarrow> level_rank a \<le> level_rank b"

definition less_LogLevel :: "LogLevel \<Rightarrow> LogLevel \<Rightarrow> bool" where
  "less_LogLevel a b \<longleftrightarrow> level_rank a < level_rank b"

instance
proof
  fix a b c :: LogLevel
  have inj: "level_rank a = level_rank b \<Longrightarrow> a = b" for a b by (cases a; cases b) simp_all
  show "a < b \<longleftrightarrow> a \<le> b \<and> \<not> b \<le> a" by (auto simp: less_LogLevel_def less_eq_LogLevel_def)
  show "a \<le> a" by (simp add: less_eq_LogLevel_def)
  show "a \<le> b \<Longrightarrow> b \<le> c \<Longrightarrow> a \<le> c" by (simp add: less_eq_LogLevel_def)
  show "a \<le> b \<Longrightarrow> b \<le> a \<Longrightarrow> a = b" by (simp add: less_eq_LogLevel_def inj)
  show "a \<le> b \<or> b \<le> a" by (auto simp: less_eq_LogLevel_def)
qed

end

record LogManager =
  filePath :: string
  file_open :: bool
  file_disk :: "string list"
  file_buffer :: "string list"
  consoleEnabled :: bool
  autoFlush :: bool
  maxCachedLogs :: nat
  recentLogs :: "string list"
  logCounts :: "(LogLevel, u64) std_map"
  console :: "string list"

text \<open>The file opens or not, as the argument says; it is opened for appending to what it holds.\<close>

definition new_LogManager :: "string \<Rightarrow> bool \<Rightarrow> string list \<Rightarrow> LogManager" where
  "new_LogManager path opens disk =
     \<lparr>filePath = path, file_open = opens, file_disk = disk, file_buffer = [], consoleEnabled = True,
      autoFlush = True, maxCachedLogs = 10, recentLogs = [],
      logCounts = fold (\<lambda>(level, count). std_put level count) [(Info, 0), (Warning, 0), (Error, 0)] [],
      console = [if opens then ''[INFO] Log file opened: '' @ path
                 else ''[ERROR] Failed to open log file: '' @ path]\<rparr>"

section \<open>Operations\<close>

definition flush_file :: "LogManager \<Rightarrow> LogManager" where
  "flush_file m = m\<lparr>file_disk := file_disk m @ file_buffer m, file_buffer := []\<rparr>"

text \<open>The destructor; \<^verbatim>\<open>close\<close> writes out what is still buffered.\<close>

definition delete_LogManager :: "LogManager \<Rightarrow> LogManager" where
  "delete_LogManager m =
     (let m1 = (if file_open m
                then (flush_file (if autoFlush m then flush_file m else m))\<lparr>file_open := False\<rparr>
                else m)
      in if consoleEnabled m1 then m1\<lparr>console := console m1 @ [''[INFO] Log file closed: '' @ filePath m1]\<rparr>
         else m1)"

definition setConsoleEnabled :: "bool \<Rightarrow> LogManager \<Rightarrow> LogManager" where
  "setConsoleEnabled enabled m = m\<lparr>consoleEnabled := enabled\<rparr>"

definition setAutoFlush :: "bool \<Rightarrow> LogManager \<Rightarrow> LogManager" where
  "setAutoFlush enabled m = m\<lparr>autoFlush := enabled\<rparr>"

text \<open>The loop that erases the oldest line while there are too many.\<close>

fun trim_front :: "nat \<Rightarrow> string list \<Rightarrow> string list" where
  "trim_front maxCount [] = []"
| "trim_front maxCount (l # ls) =
     (if length (l # ls) > maxCount then trim_front maxCount ls else l # ls)"

definition setMaxCachedLogs :: "nat \<Rightarrow> LogManager \<Rightarrow> LogManager" where
  "setMaxCachedLogs maxCount m =
     (let m1 = m\<lparr>maxCachedLogs := maxCount\<rparr> in
      if maxCachedLogs m1 = 0 then m1\<lparr>recentLogs := []\<rparr>
      else m1\<lparr>recentLogs := trim_front (maxCachedLogs m1) (recentLogs m1)\<rparr>)"

fun levelToString :: "LogLevel \<Rightarrow> string" where
  "levelToString Info = ''INFO''"
| "levelToString Warning = ''WARNING''"
| "levelToString Error = ''ERROR''"

definition cacheLogLine :: "string \<Rightarrow> LogManager \<Rightarrow> LogManager" where
  "cacheLogLine line m =
     (if maxCachedLogs m = 0 then m
      else m\<lparr>recentLogs := trim_front (maxCachedLogs m) (recentLogs m @ [line])\<rparr>)"

text \<open>\<^verbatim>\<open>++logCounts_[level]\<close>: a missing entry is created with count zero.\<close>

definition count_up :: "LogLevel \<Rightarrow> (LogLevel, u64) std_map \<Rightarrow> (LogLevel, u64) std_map" where
  "count_up level m =
     std_put level ((case std_find level m of None \<Rightarrow> 0 | Some count \<Rightarrow> count) + 1) m"

definition log_line :: "LogLevel \<Rightarrow> string \<Rightarrow> string" where
  "log_line level message = ''['' @ levelToString level @ ''] '' @ message"

definition log :: "LogLevel \<Rightarrow> string \<Rightarrow> LogManager \<Rightarrow> LogManager" where
  "log level message m =
     (let line = log_line level message;
          m1 = (if consoleEnabled m then m\<lparr>console := console m @ [line]\<rparr> else m);
          m2 = (if file_open m1
                then (let m2 = m1\<lparr>file_buffer := file_buffer m1 @ [line]\<rparr>
                      in if autoFlush m2 then flush_file m2 else m2)
                else m1);
          m3 = cacheLogLine line m2
      in m3\<lparr>logCounts := count_up level (logCounts m3)\<rparr>)"

definition isFileOpen :: "LogManager \<Rightarrow> bool" where
  "isFileOpen m = file_open m"

definition getFilePath :: "LogManager \<Rightarrow> string" where
  "getFilePath m = filePath m"

definition getRecentLogs :: "LogManager \<Rightarrow> string list" where
  "getRecentLogs m = recentLogs m"

definition clearRecentLogs :: "LogManager \<Rightarrow> LogManager" where
  "clearRecentLogs m = m\<lparr>recentLogs := []\<rparr>"

definition getLogCount :: "LogLevel \<Rightarrow> LogManager \<Rightarrow> u64" where
  "getLogCount level m = (case std_find level (logCounts m) of None \<Rightarrow> 0 | Some count \<Rightarrow> count)"

definition getAllLogCounts :: "LogManager \<Rightarrow> (LogLevel, u64) std_map" where
  "getAllLogCounts m = logCounts m"

definition resetLogCounts :: "LogManager \<Rightarrow> LogManager" where
  "resetLogCounts m = m\<lparr>logCounts := std_for_each (\<lambda>_. 0) (logCounts m)\<rparr>"

section \<open>Sequences of operations\<close>

datatype log_op =
  Log LogLevel string
  | SetConsoleEnabled bool
  | SetAutoFlush bool
  | SetMaxCachedLogs nat
  | ClearRecentLogs
  | ResetLogCounts

fun log_step :: "log_op \<Rightarrow> LogManager \<Rightarrow> LogManager" where
  "log_step (Log level message) m = log level message m"
| "log_step (SetConsoleEnabled b) m = setConsoleEnabled b m"
| "log_step (SetAutoFlush b) m = setAutoFlush b m"
| "log_step (SetMaxCachedLogs k) m = setMaxCachedLogs k m"
| "log_step ClearRecentLogs m = clearRecentLogs m"
| "log_step ResetLogCounts m = resetLogCounts m"

definition log_run :: "log_op list \<Rightarrow> LogManager \<Rightarrow> LogManager" where
  "log_run ops m = fold log_step ops m"

section \<open>The program with two threads\<close>

definition kLogsPerWorker :: nat where "kLogsPerWorker = 5"

text \<open>The calls of \<^verbatim>\<open>log\<close> of one worker; the text of the thread's id is an argument.\<close>

definition writeLogs :: "LogLevel \<Rightarrow> string \<Rightarrow> string \<Rightarrow> log_op list" where
  "writeLogs level workerName thread_id =
     map (\<lambda>index. Log level (''worker='' @ workerName @ ''thread'' @ thread_id @ ''sequence='' @ to_string index))
       [1..<Suc kLogsPerWorker]"

text \<open>A line that \<^verbatim>\<open>main\<close> itself prints, on the terminal it shares with the logger.\<close>

definition print :: "string \<Rightarrow> LogManager \<Rightarrow> LogManager" where
  "print line m = m\<lparr>console := console m @ [line]\<rparr>"

text \<open>
  \<^verbatim>\<open>main\<close> for one interleaving of the calls of the two workers: the value it returns and the
  terminal, after the logger is destroyed.
\<close>

definition thread_safe_log_main :: "bool \<Rightarrow> log_op list \<Rightarrow> int \<times> string list" where
  "thread_safe_log_main opens interleaving =
     (let logger = setMaxCachedLogs 20 (setAutoFlush True (setConsoleEnabled True
            (new_LogManager ''thread_safe_log_demo.log'' opens []))) in
      if \<not> isFileOpen logger
      then (1, console (delete_LogManager (print ''[ERROR] Logger initialization failed'' logger)))
      else
        let logger = log_run interleaving logger;
            results = [''[RESULT] INFO='' @ to_string (unat (getLogCount Info logger)),
              ''[RESULT] WARNING='' @ to_string (unat (getLogCount Warning logger)),
              ''[RESULT] ERROR='' @ to_string (unat (getLogCount Error logger)),
              ''[RESULT] cahced_logs='' @ to_string (length (getRecentLogs logger)),
              ''[MAIN]all worker threads joined'']
        in (0, console (delete_LogManager (fold print results logger))))"

text \<open>The first demonstration, \<^verbatim>\<open>log_manager/demo/main.cpp\<close>.\<close>

definition print_counts :: "string \<Rightarrow> LogManager \<Rightarrow> LogManager" where
  "print_counts suffix_text logger =
     fold print
       (map (\<lambda>level. ''[INFO] '' @ levelToString level @ '' count'' @ suffix_text @ '': '' @
               to_string (unat (getLogCount level logger))) [Info, Warning, Error]) logger"

definition log_manager_main :: "bool \<Rightarrow> int \<times> string list" where
  "log_manager_main opens =
     (let logger = setMaxCachedLogs 3 (setAutoFlush True (setConsoleEnabled True
            (new_LogManager ''log_manager_demo.log'' opens []))) in
      if \<not> isFileOpen logger
      then (1, console (delete_LogManager (print ''[ERROR] Logger initialization failed'' logger)))
      else
        let logger = log_run
              [Log Info ''Linux IoT Gateway started'', Log Info ''Sensor data received'',
               Log Warning ''MQTT Broker is not connected'', Log Error ''Failed to parse sensor data'',
               Log Info ''Gateway is retrying''] logger;
            logger = print_counts [] logger;
            logger = print ''[INFO] All log statistics:'' logger;
            logger = fold (\<lambda>(level, count). print (''  '' @ levelToString level @ '': '' @ to_string (unat count)))
              (getAllLogCounts logger) logger;
            logger = print_counts '' after reset'' (resetLogCounts logger)
        in (0, console (delete_LogManager logger)))"

section \<open>Lemmas\<close>

definition ordered_counts :: "LogManager \<Rightarrow> bool" where
  "ordered_counts m \<longleftrightarrow> std_ordered (logCounts m)"

lemma trim_front_drop: "trim_front k ls = drop (length ls - k) ls"
  by (induction k ls rule: trim_front.induct) (auto simp: Suc_diff_le)

text \<open>The effect of \<^verbatim>\<open>log\<close>, member by member.\<close>

lemma log_members [simp]:
  "recentLogs (log level msg m) =
     (let ls = recentLogs m @ [log_line level msg]
      in if maxCachedLogs m = 0 then recentLogs m else drop (length ls - maxCachedLogs m) ls)"
  "maxCachedLogs (log level msg m) = maxCachedLogs m"
  "logCounts (log level msg m) = count_up level (logCounts m)"
  "file_open (log level msg m) = file_open m"
  "file_disk (log level msg m) @ file_buffer (log level msg m) =
     file_disk m @ file_buffer m @ (if file_open m then [log_line level msg] else [])"
  "file_open m \<Longrightarrow> autoFlush m \<Longrightarrow> file_buffer (log level msg m) = []"
  "autoFlush (log level msg m) = autoFlush m"
  "consoleEnabled (log level msg m) = consoleEnabled m"
  "console (log level msg m) = console m @ (if consoleEnabled m then [log_line level msg] else [])"
  "filePath (log level msg m) = filePath m"
  by (simp_all add: log_def cacheLogLine_def flush_file_def Let_def trim_front_drop)

fun logged_lines :: "log_op list \<Rightarrow> string list" where
  "logged_lines [] = []"
| "logged_lines (Log level msg # ops) = log_line level msg # logged_lines ops"
| "logged_lines (_ # ops) = logged_lines ops"

lemma log_run_simps [simp]:
  "log_run [] m = m" "log_run (op # ops) m = log_run ops (log_step op m)"
  "log_run (xs @ ys) m = log_run ys (log_run xs m)"
  by (simp_all add: log_run_def)

lemma logged_lines_append: "logged_lines (xs @ ys) = logged_lines xs @ logged_lines ys"
  by (induction xs rule: logged_lines.induct) simp_all

lemmas other_ops = setConsoleEnabled_def setAutoFlush_def setMaxCachedLogs_def clearRecentLogs_def
  resetLogCounts_def

lemma cache_step:
  assumes "suffix (recentLogs m) ls" and "length (recentLogs m) \<le> maxCachedLogs m"
  shows "suffix (recentLogs (log_step op m)) (ls @ logged_lines [op]) \<and>
    length (recentLogs (log_step op m)) \<le> maxCachedLogs (log_step op m)"
proof (cases op)
  case (Log level msg)
  with assms show ?thesis
    by (auto simp: Let_def intro: suffix_order.trans [OF suffix_drop])
qed (use assms in \<open>auto simp: other_ops Let_def trim_front_drop intro: suffix_order.trans [OF suffix_drop]\<close>)

lemma cache_run:
  assumes "suffix (recentLogs m) ls" and "length (recentLogs m) \<le> maxCachedLogs m"
  shows "suffix (recentLogs (log_run ops m)) (ls @ logged_lines ops) \<and>
    length (recentLogs (log_run ops m)) \<le> maxCachedLogs (log_run ops m)"
  using assms
proof (induction ops arbitrary: m ls)
  case (Cons op ops)
  note step = cache_step [OF Cons.prems, of op]
  from Cons.IH [of "log_step op m" "ls @ logged_lines [op]"] step show ?case
    using logged_lines_append [of "[op]" ops] by simp
qed simp

lemma window_step:
  assumes "0 < k"
  shows "drop (length (drop (length ls - k) ls @ [l]) - k) (drop (length ls - k) ls @ [l]) =
    drop (length (ls @ [l]) - k) (ls @ [l])"
  using assms by (cases "length ls \<le> k") (auto simp: Suc_diff_le)

lemma window_run:
  assumes "maxCachedLogs m = k" and "0 < k" and "length (recentLogs m) \<le> k"
  defines "run \<equiv> \<lambda>logs. log_run (map (\<lambda>(level, msg). Log level msg) logs) m"
  shows "maxCachedLogs (run logs) = k \<and> recentLogs (run logs) =
    (let ls = recentLogs m @ map (\<lambda>(level, msg). log_line level msg) logs in drop (length ls - k) ls)"
proof (induction logs rule: rev_induct)
  case Nil
  with assms show ?case by simp
next
  case (snoc e logs)
  obtain level msg where e: "e = (level, msg)" by (cases e)
  let ?ls = "recentLogs m @ map (\<lambda>(level, msg). log_line level msg) logs"
  have "run (logs @ [e]) = log level msg (run logs)" by (simp add: run_def e)
  moreover have "maxCachedLogs (run logs) = k" "recentLogs (run logs) = drop (length ?ls - k) ?ls"
    using snoc by (simp_all add: Let_def)
  ultimately show ?case
    using window_step [OF assms(2), of ?ls "log_line level msg"] assms(2) e by (simp only: log_members Let_def) simp
qed

text \<open>How often a level was logged since the counts were last reset.\<close>

fun is_log :: "LogLevel \<Rightarrow> log_op \<Rightarrow> bool" where
  "is_log level (Log level' msg) = (level' = level)"
| "is_log level _ = False"

definition logged_since_reset :: "LogLevel \<Rightarrow> log_op list \<Rightarrow> nat" where
  "logged_since_reset level ops =
     length (filter (is_log level) (takeWhile (\<lambda>op. op \<noteq> ResetLogCounts) (rev ops)))"

lemma ordered_counts_run: "std_ordered (logCounts m) \<Longrightarrow> std_ordered (logCounts (log_run ops m))"
proof (induction ops arbitrary: m)
  case (Cons op ops)
  have "std_ordered (logCounts (log_step op m))"
    using Cons.prems by (cases op) (auto simp: other_ops Let_def count_up_def smap_simps)
  with Cons.IH show ?case by simp
qed simp

lemma count_step:
  assumes "std_ordered (logCounts m)"
  shows "getLogCount level (log_step op m) =
    (if op = ResetLogCounts then 0 else getLogCount level m + (if is_log level op then 1 else 0))"
  using assms by (cases op)
    (auto simp: getLogCount_def other_ops Let_def count_up_def smap_simps split: option.splits)

lemma count_run:
  assumes "std_ordered (logCounts m)" and "getLogCount level m = 0"
  shows "getLogCount level (log_run ops m) = of_nat (logged_since_reset level ops)"
proof (induction ops rule: rev_induct)
  case Nil
  then show ?case using assms(2) by (simp add: logged_since_reset_def)
next
  case (snoc op ops)
  with count_step [OF ordered_counts_run [OF assms(1), of ops], where op = op and level = level] show ?case
    by (auto simp: logged_since_reset_def)
qed

lemma file_step:
  "file_open (log_step op m) = file_open m"
  "file_open m \<Longrightarrow> file_disk (log_step op m) @ file_buffer (log_step op m) =
     file_disk m @ file_buffer m @ logged_lines [op]"
  by (cases op; simp add: other_ops Let_def)+

lemma file_run:
  "file_open m \<Longrightarrow> file_open (log_run ops m) \<and>
     file_disk (log_run ops m) @ file_buffer (log_run ops m) = file_disk m @ file_buffer m @ logged_lines ops"
proof (induction ops arbitrary: m)
  case (Cons op ops)
  with Cons.IH [of "log_step op m"] file_step [where op = op and m = m] logged_lines_append [of "[op]" ops] show ?case
    by simp
qed simp

lemma new_LogManager_counts:
  "std_ordered (logCounts (new_LogManager path opens disk))"
  "getLogCount level (new_LogManager path opens disk) = 0"
  by (simp_all add: new_LogManager_def getLogCount_def less_LogLevel_def)

section \<open>Properties\<close>

text \<open>
  The cache of recent lines: after any sequence of operations on a new logger, the cached
  lines are the last lines logged (a suffix of all of them, in order) and no more than the current
  limit; and a run of logs without other operations leaves exactly the last \<open>k\<close> of the lines cached
  before it and its own, where \<open>k\<close> is the limit.
\<close>

theorem recent_logs_window:
  "let m = log_run ops (new_LogManager path opens disk);
       k = maxCachedLogs m;
       lines = getRecentLogs m @ map (\<lambda>(level, msg). log_line level msg) logs
   in suffix (getRecentLogs m) (logged_lines ops) \<and> length (getRecentLogs m) \<le> k \<and>
      getRecentLogs (log_run (map (\<lambda>(level, msg). Log level msg) logs) m) =
        (if k = 0 then [] else drop (length lines - k) lines)"
proof -
  let ?fresh = "new_LogManager path opens disk"
  let ?m = "log_run ops ?fresh"
  have "recentLogs ?fresh = []" by (simp add: new_LogManager_def)
  then have run: "suffix (recentLogs ?m) (logged_lines ops) \<and> length (recentLogs ?m) \<le> maxCachedLogs ?m"
    using cache_run [of ?fresh "[]" ops] by simp
  have none: "maxCachedLogs m' = 0 \<Longrightarrow> recentLogs m' = [] \<Longrightarrow>
      recentLogs (log_run (map (\<lambda>(level, msg). Log level msg) logs) m') = []" for m'
    by (induction logs arbitrary: m') (auto simp: Let_def)
  show ?thesis
    using run none [of ?m] window_run [of ?m "maxCachedLogs ?m" logs]
    by (cases "maxCachedLogs ?m = 0") (auto simp: Let_def getRecentLogs_def)
qed

text \<open>
  The counts: after any sequence of operations, the count of a level is the number of lines
  logged at that level since the last reset (modulo 2^64, the range of \<^verbatim>\<open>size_t\<close>).
\<close>

theorem log_counts_exact:
  "getLogCount level (log_run ops (new_LogManager path opens disk)) = of_nat (logged_since_reset level ops)"
  by (rule count_run) (rule new_LogManager_counts)+

text \<open>
  No line is lost: if the file is open, everything logged is, in order, on disk or in the
  buffer of the stream after any sequence of operations, and all of it is on disk once the logger
  has been destroyed; with automatic flushing nothing stays in the buffer after a log.
\<close>

theorem log_file_complete:
  assumes "file_open m"
  shows "file_disk (log_run ops m) @ file_buffer (log_run ops m) = file_disk m @ file_buffer m @ logged_lines ops \<and>
    file_disk (delete_LogManager (log_run ops m)) = file_disk m @ file_buffer m @ logged_lines ops \<and>
    (autoFlush (log_run ops m) \<longrightarrow> file_buffer (log_run (ops @ [Log level msg]) m) = [])"
proof -
  have run: "file_open (log_run ops m)"
    "file_disk (log_run ops m) @ file_buffer (log_run ops m) = file_disk m @ file_buffer m @ logged_lines ops"
    using file_run [OF assms, of ops] by simp_all
  then have "file_disk (delete_LogManager (log_run ops m)) = file_disk m @ file_buffer m @ logged_lines ops"
    by (simp add: delete_LogManager_def flush_file_def Let_def)
  with run show ?thesis by simp
qed

theorem log_file_complete_witness:
  "file_disk (delete_LogManager (log_run [SetAutoFlush False, Log Info ''a'', Log Error ''b'']
     (new_LogManager ''x.log'' True [''old'']))) = [''old'', ''[INFO] a'', ''[ERROR] b'']"
proof -
  have "file_open (new_LogManager ''x.log'' True [''old''])" by (simp add: new_LogManager_def)
  from log_file_complete [OF this, of "[SetAutoFlush False, Log Info ''a'', Log Error ''b'']"]
  show ?thesis by (simp add: new_LogManager_def log_line_def)
qed

text \<open>The two workers' calls in any interleaving: what is logged, and how often.\<close>

lemma worker_ops:
  "op \<in> set (writeLogs level name tid) \<Longrightarrow> \<exists>msg. op = Log level msg"
  by (auto simp: writeLogs_def)

lemma length_writeLogs [simp]: "length (writeLogs level name tid) = 5"
  by (simp add: writeLogs_def kLogsPerWorker_def)

lemma filter_is_log_writeLogs:
  "length (filter (is_log l) (writeLogs level name tid)) = (if l = level then 5 else 0)"
proof (cases "l = level")
  case True
  then have "filter (is_log l) (writeLogs level name tid) = writeLogs level name tid"
    by (auto simp: filter_id_conv dest!: worker_ops)
  with True show ?thesis by simp
next
  case False
  then have "filter (is_log l) (writeLogs level name tid) = []"
    by (auto simp: filter_empty_conv dest!: worker_ops)
  with False show ?thesis by simp
qed

lemma logs_of_ops:
  assumes "\<forall>op \<in> set ops. \<exists>level msg. op = Log level msg"
  obtains logs where "ops = map (\<lambda>(level, msg). Log level msg) logs"
proof -
  have "\<exists>logs. ops = map (\<lambda>(level, msg). Log level msg) logs"
    unfolding ex_map_conv using assms by (metis case_prod_conv)
  then show ?thesis using that by blast
qed

lemma logged_lines_logs:
  "logged_lines (map (\<lambda>(level, msg). Log level msg) logs) = map (\<lambda>(level, msg). log_line level msg) logs"
  by (induction logs) auto

lemma console_logs:
  "consoleEnabled m \<Longrightarrow> consoleEnabled (log_run (map (\<lambda>(level, msg). Log level msg) logs) m) \<and>
     filePath (log_run (map (\<lambda>(level, msg). Log level msg) logs) m) = filePath m \<and>
     console (log_run (map (\<lambda>(level, msg). Log level msg) logs) m) =
       console m @ map (\<lambda>(level, msg). log_line level msg) logs"
  by (induction logs arbitrary: m) auto

lemma print_members [simp]:
  "consoleEnabled (print l m) = consoleEnabled m" "filePath (print l m) = filePath m"
  "console (print l m) = console m @ [l]"
  by (simp_all add: print_def)

lemma console_delete [simp]:
  "console (delete_LogManager m) =
     console m @ (if consoleEnabled m then [''[INFO] Log file closed: '' @ filePath m] else [])"
  by (simp add: delete_LogManager_def flush_file_def Let_def)

lemma append_in_shuffles: "xs @ ys \<in> shuffles xs ys"
  by (induction xs) (auto intro: Cons_in_shuffles_leftI)

lemma interleaving_counts:
  assumes "ops \<in> shuffles (writeLogs Info n1 tid1) (writeLogs Warning n2 tid2)"
  shows "logged_since_reset level ops = (if level = Error then 0 else 5)"
proof -
  have "set ops = set (writeLogs Info n1 tid1) \<union> set (writeLogs Warning n2 tid2)"
    using assms by (rule set_shuffles)
  then have "\<forall>op \<in> set (rev ops). op \<noteq> ResetLogCounts" by (auto dest!: worker_ops)
  then have "takeWhile (\<lambda>op. op \<noteq> ResetLogCounts) (rev ops) = rev ops"
    unfolding takeWhile_eq_all_conv .
  then have "logged_since_reset level ops = length (filter (is_log level) ops)"
    unfolding logged_since_reset_def by (simp only: rev_filter [symmetric] length_rev)
  moreover have "filter (is_log level) ops \<in>
      shuffles (filter (is_log level) (writeLogs Info n1 tid1)) (filter (is_log level) (writeLogs Warning n2 tid2))"
    using assms filter_shuffles [of "is_log level"] by blast
  then have "length (filter (is_log level) ops) = (if level = Error then 0 else 5)"
    by (cases level) (auto dest!: length_shuffles simp: filter_is_log_writeLogs)
  ultimately show ?thesis by simp
qed

lemma to_string_demo: "to_string 5 = ''5''" "to_string 0 = ''0''" "to_string 10 = ''10''"
  by code_simp+

text \<open>
  The demonstration with two threads: for every interleaving of the calls of the two
  workers, and whatever their thread ids, the program reports five lines at each of the two levels,
  none at the third and ten cached lines, which are the ten lines logged in the order they were
  logged, and returns 0; where the file cannot be opened it returns 1 without starting a worker.
\<close>

theorem thread_safe_log_result:
  assumes "ops \<in> shuffles (writeLogs Info ''collector'' tid1) (writeLogs Warning ''processor'' tid2)"
  shows "thread_safe_log_main True ops =
    (0, [''[INFO] Log file opened: thread_safe_log_demo.log''] @ logged_lines ops @
        [''[RESULT] INFO=5'', ''[RESULT] WARNING=5'', ''[RESULT] ERROR=0'', ''[RESULT] cahced_logs=10'',
         ''[MAIN]all worker threads joined'', ''[INFO] Log file closed: thread_safe_log_demo.log'']) \<and>
    length (logged_lines ops) = 10 \<and> fst (thread_safe_log_main False ops) = 1"
proof -
  let ?fresh = "setMaxCachedLogs 20 (setAutoFlush True (setConsoleEnabled True
      (new_LogManager ''thread_safe_log_demo.log'' True [])))"
  have m0: "consoleEnabled ?fresh" "file_open ?fresh" "maxCachedLogs ?fresh = 20" "recentLogs ?fresh = []"
    "filePath ?fresh = ''thread_safe_log_demo.log''"
    "console ?fresh = [''[INFO] Log file opened: thread_safe_log_demo.log'']"
    by (simp_all add: other_ops new_LogManager_def)
  have "logCounts ?fresh = logCounts (new_LogManager [] True [])" by (simp add: other_ops new_LogManager_def)
  then have counts: "getLogCount level (log_run ops ?fresh) = of_nat (logged_since_reset level ops)" for level
    using count_run [of ?fresh level ops] new_LogManager_counts [where path = "[]" and opens = True and disk = "[]"]
    by (simp add: getLogCount_def)
  have "set ops = set (writeLogs Info ''collector'' tid1) \<union> set (writeLogs Warning ''processor'' tid2)"
    using assms by (rule set_shuffles)
  then have "\<forall>op \<in> set ops. \<exists>level msg. op = Log level msg" by (auto dest!: worker_ops)
  then obtain logs where logs: "ops = map (\<lambda>(level, msg). Log level msg) logs" by (rule logs_of_ops)
  have "length ops = 10" using length_shuffles [OF assms] by simp
  then have len: "length logs = 10" using logs by simp
  then have cached: "length (recentLogs (log_run ops ?fresh)) = 10"
    using window_run [of ?fresh 20 logs] m0 logs by (simp add: Let_def)
  have "snd (thread_safe_log_main True ops) = console ?fresh @ logged_lines ops @
      [''[RESULT] INFO=5'', ''[RESULT] WARNING=5'', ''[RESULT] ERROR=0'', ''[RESULT] cahced_logs=10'',
       ''[MAIN]all worker threads joined'', ''[INFO] Log file closed: thread_safe_log_demo.log'']"
    using m0 console_logs [of ?fresh logs] cached counts
    by (simp add: thread_safe_log_main_def isFileOpen_def getRecentLogs_def interleaving_counts [OF assms]
        to_string_demo logged_lines_logs logs [symmetric])
      (simp add: logs logged_lines_logs)
  moreover have "fst (thread_safe_log_main True ops) = 0" "fst (thread_safe_log_main False ops) = 1"
    by (simp_all add: thread_safe_log_main_def isFileOpen_def other_ops new_LogManager_def Let_def)
  ultimately show ?thesis using m0 len logs by (simp add: logged_lines_logs prod_eq_iff)
qed

text \<open>One worker after the other.\<close>

theorem thread_safe_log_result_witness:
  "fst (thread_safe_log_main True (writeLogs Info ''collector'' ''1'' @ writeLogs Warning ''processor'' ''2'')) = 0"
  using thread_safe_log_result [OF append_in_shuffles, of "''1''" "''2''"] by simp

text \<open>The terminal of the first demonstration.\<close>

lemma log_manager_demo_output:
  "log_manager_main True =
     (0, [''[INFO] Log file opened: log_manager_demo.log'',
          ''[INFO] Linux IoT Gateway started'', ''[INFO] Sensor data received'',
          ''[WARNING] MQTT Broker is not connected'', ''[ERROR] Failed to parse sensor data'',
          ''[INFO] Gateway is retrying'', ''[INFO] INFO count: 3'', ''[INFO] WARNING count: 1'',
          ''[INFO] ERROR count: 1'', ''[INFO] All log statistics:'', ''  INFO: 3'', ''  WARNING: 1'',
          ''  ERROR: 1'', ''[INFO] INFO count after reset: 0'', ''[INFO] WARNING count after reset: 0'',
          ''[INFO] ERROR count after reset: 0'', ''[INFO] Log file closed: log_manager_demo.log''])"
  by code_simp

end
