(* ===== verification/Gateway_Demos.thy ===== *)
theory Gateway_Demos
  imports Pipeline Protocol_Parser Log_Manager
begin

text \<open>
  The five programs built on a producer, a consumer and a queue: \<^verbatim>\<open>practice/day01/thread_safe_queue.cpp\<close>,
  \<^verbatim>\<open>producer_consumer_demo/main.cpp\<close>, \<^verbatim>\<open>interview_practice/day28_producer_consumer.cpp\<close>,
  \<^verbatim>\<open>gateway_pipeline_demo/main.cpp\<close> and \<^verbatim>\<open>gateway_ack_demo/main.cpp\<close>. Each interprets the locale
  \<open>pipeline\<close> and gets from it what its output is for every interleaving of its two threads.
\<close>

section \<open>The queue class\<close>

record 'a ThreadSafeQueue =
  tsq_queue :: "'a list"
  tsq_stopped :: bool

definition new_ThreadSafeQueue :: "'a ThreadSafeQueue" where
  "new_ThreadSafeQueue = \<lparr>tsq_queue = [], tsq_stopped = False\<rparr>"

definition tsq_push :: "'a \<Rightarrow> 'a ThreadSafeQueue \<Rightarrow> 'a ThreadSafeQueue" where
  "tsq_push v q = q\<lparr>tsq_queue := tsq_queue q @ [v]\<rparr>"

text \<open>
  \<open>None\<close> while the wait does not return; otherwise the result, the caller's variable and the queue.
\<close>

definition wait_and_pop :: "'a \<Rightarrow> 'a ThreadSafeQueue \<Rightarrow> (bool \<times> 'a \<times> 'a ThreadSafeQueue) option" where
  "wait_and_pop value q =
     (if tsq_queue q = [] \<and> \<not> tsq_stopped q then None
      else if tsq_stopped q \<and> tsq_queue q = [] then Some (False, value, q)
      else Some (True, hd (tsq_queue q), q\<lparr>tsq_queue := tl (tsq_queue q)\<rparr>))"

definition tsq_stop :: "'a ThreadSafeQueue \<Rightarrow> 'a ThreadSafeQueue" where
  "tsq_stop q = q\<lparr>tsq_stopped := True\<rparr>"

text \<open>Its \<^verbatim>\<open>main\<close>: five integers, with the lines both threads print.\<close>

definition tsq_producer :: "(nat, string) action list" where
  "tsq_producer = concat (map (\<lambda>i. [Push i [], Emit (''produce: '' @ to_string i)]) [1..<6]) @ [Close []]"

definition tsq_consume :: "nat \<Rightarrow> string list" where
  "tsq_consume v = [''consume: '' @ to_string v]"

definition tsq_exit :: "string list" where
  "tsq_exit = [''consumer exit'']"

section \<open>producer consumer demo\<close>

definition kTotalSamples :: nat where "kTotalSamples = 5"

record SensorSample =
  sample_sequence :: nat
  sample_temperature :: nat
  sample_humidity :: nat

definition collectTask :: "(SensorSample, SensorSample) action list" where
  "collectTask =
     map (\<lambda>index. Push \<lparr>sample_sequence = index, sample_temperature = 20 + index, sample_humidity = 50 + index\<rparr> [])
       [1..<Suc kTotalSamples] @ [Close []]"

text \<open>The processing of a sample is its effect; the counter and the printing follow from the trace.\<close>

definition processTask :: "SensorSample \<Rightarrow> SensorSample list" where
  "processTask sample = [sample]"

fun process_lines :: "nat \<Rightarrow> SensorSample list \<Rightarrow> nat \<times> string list" where
  "process_lines processCount [] = (processCount, [])"
| "process_lines processCount (sample # samples) =
     (let processCount = processCount + 1;
          line = ''[PROCESS]sequence='' @ to_string (sample_sequence sample) @
            ''temperature='' @ to_string (sample_temperature sample) @
            ''humidity='' @ to_string (sample_humidity sample) @
            ''processed_count='' @ to_string processCount
      in case process_lines processCount samples of (n, ls) \<Rightarrow> (n, line # ls))"

definition producer_consumer_main :: "SensorSample list \<Rightarrow> string list" where
  "producer_consumer_main processed =
     (case process_lines 0 processed of (processedCount, ls) \<Rightarrow>
       [''[MAIN] start producer_consumer demo''] @ ls @
       [''[RESULT] processed_count='' @ to_string processedCount, ''[MAIN] all worker threads joined''])"

section \<open>day 28 producer consumer\<close>

definition day28_commandProducer :: "(string, string) action list" where
  "day28_commandProducer =
     map (\<lambda>command. Push command [''[PRODUCER] push: '' @ command])
       [''OPEN'', ''GRAB'', ''RELEASE'', ''STOP'', ''OPEN''] @
     [Close [], Emit ''[PRODUCER] finished'']"

definition day28_commandConsumer :: "string \<Rightarrow> string list" where
  "day28_commandConsumer command = [''[CONSUMER] process: '' @ command]"

definition day28_consumer_exit :: "string list" where
  "day28_consumer_exit = [''[CONSUMER] exit'']"

section \<open>gateway pipeline demo\<close>

record PipelineStats =
  st_accepted :: nat
  st_rejected :: nat

datatype pipeline_effect =
  PlLog LogLevel string
  | PlAccepted
  | PlRejected

definition pipeline_inputs :: "string list" where
  "pipeline_inputs = [''OPEN'', ''grab'' @ [CHR 0x0D, CHR 0x0A], ''JUMP'',
     [CHR 0x09] @ ''STOP'' @ [CHR 0x09], ''release'' @ [CHR 0x0A]]"

definition pl_inputProducer :: "(string, pipeline_effect) action list" where
  "pl_inputProducer =
     concat (map (\<lambda>(sequence, rawInput).
         [Push rawInput [], Emit (PlLog Info (''Input producer queued command #'' @ to_string sequence))])
       (zip [1..<6] pipeline_inputs)) @
     [Close [], Emit (PlLog Info ''Input producer finished '')]"

definition pl_commandConsumer :: "ProtocolParser \<Rightarrow> string \<Rightarrow> pipeline_effect list" where
  "pl_commandConsumer parser rawInput =
     (let command = parse parser rawInput in
      if \<not> isValid command
      then [PlRejected, PlLog Warning ''Rejected invalid gateway command'']
      else [PlAccepted, PlLog Info (''Gateway command: '' @ parserCommandToString command @ '' -> '' @
              toExecutorCommand command)])"

definition pl_consumer_exit :: "pipeline_effect list" where
  "pl_consumer_exit = [PlLog Info ''Command consumer finished'']"

fun pl_apply :: "pipeline_effect \<Rightarrow> LogManager \<times> PipelineStats \<Rightarrow> LogManager \<times> PipelineStats" where
  "pl_apply (PlLog level message) (logger, stats) = (log level message logger, stats)"
| "pl_apply PlAccepted (logger, stats) = (logger, stats\<lparr>st_accepted := st_accepted stats + 1\<rparr>)"
| "pl_apply PlRejected (logger, stats) = (logger, stats\<lparr>st_rejected := st_rejected stats + 1\<rparr>)"

text \<open>\<^verbatim>\<open>main\<close> for one interleaving of the effects of the two threads.\<close>

definition gateway_pipeline_main :: "bool \<Rightarrow> pipeline_effect list \<Rightarrow> int \<times> string list" where
  "gateway_pipeline_main opens effects =
     (let logger = setMaxCachedLogs 50 (setAutoFlush True (setConsoleEnabled True
            (new_LogManager ''gateway_pipeline_demo.log'' opens []))) in
      if \<not> isFileOpen logger
      then (1, console (delete_LogManager (print ''[ERROR] Logger initialization failed'' logger)))
      else
        let logger = print ''[MAIN] start gateway pipeline demo'' logger in
        case fold pl_apply effects (logger, \<lparr>st_accepted = 0, st_rejected = 0\<rparr>) of (logger, stats) \<Rightarrow>
          let results = [''[RESULT] accepted='' @ to_string (st_accepted stats),
                ''[RESULT] rejected='' @ to_string (st_rejected stats),
                ''[RESULT] INFO logs='' @ to_string (unat (getLogCount Info logger)),
                ''[RESULT] WARNING logs='' @ to_string (unat (getLogCount Warning logger)),
                ''[MAIN] all worker threads joined'']
          in (0, console (delete_LogManager (fold print results logger))))"

section \<open>gateway ack demo\<close>

record RawCommand =
  raw_sequence :: u32
  raw_source :: string
  raw_payload :: string

datatype AckResultCode = Ok | InvalidCommand | ExecutionFailed

record CommandResult =
  res_sequence :: u32
  res_code :: AckResultCode
  res_command :: string
  res_executorCommand :: string
  res_message :: string

record AckStats =
  as_received :: nat
  as_accepted :: nat
  as_rejected :: nat
  as_ackCount :: nat

fun resultCodeToInt :: "AckResultCode \<Rightarrow> int" where
  "resultCodeToInt Ok = 0"
| "resultCodeToInt InvalidCommand = 1001"
| "resultCodeToInt ExecutionFailed = 1002"

fun resultCodeToString :: "AckResultCode \<Rightarrow> string" where
  "resultCodeToString Ok = ''OK''"
| "resultCodeToString InvalidCommand = ''INVALID_COMMAND''"
| "resultCodeToString ExecutionFailed = ''EXECUTION_FAILED''"

definition printResult :: "CommandResult \<Rightarrow> string" where
  "printResult result =
     (if res_code result = Ok
      then ''[ACK] seq='' @ to_string (unat (res_sequence result)) @
           '' code='' @ to_string (nat (resultCodeToInt (res_code result))) @
           '' result='' @ resultCodeToString (res_code result) @
           '' command='' @ res_command result @ '' executor='' @ res_executorCommand result
      else ''[ERROR] seq='' @ to_string (unat (res_sequence result)) @
           '' code='' @ to_string (nat (resultCodeToInt (res_code result))) @
           '' result='' @ resultCodeToString (res_code result) @
           '' message='' @ res_message result)"

datatype ack_effect =
  AckLog LogLevel string
  | AckReceived
  | AckAccepted
  | AckRejected
  | AckCounted
  | AckPrint CommandResult

definition ack_inputs :: "string list" where
  "ack_inputs = [''OPEN'', '' grab'' @ [CHR 0x0D, CHR 0x0A], ''JUMP'',
     [CHR 0x09] @ ''STOP'' @ [CHR 0x09], ''release'' @ [CHR 0x0A]]"

definition ack_inputProducer :: "(RawCommand, ack_effect) action list" where
  "ack_inputProducer =
     concat (map (\<lambda>(sequence, payload).
         [Push \<lparr>raw_sequence = of_nat sequence, raw_source = ''SIMULATED_UART'', raw_payload = payload\<rparr> [AckReceived],
          Emit (AckLog Info (''Queued command seq='' @ to_string sequence))])
       (zip [1..<6] ack_inputs)) @
     [Close [], Emit (AckLog Info ''Input producer finished'')]"

definition ack_commandConsumer :: "ProtocolParser \<Rightarrow> RawCommand \<Rightarrow> ack_effect list" where
  "ack_commandConsumer parser rawCommand =
     (let command = parse parser (raw_payload rawCommand); seq = to_string (unat (raw_sequence rawCommand)) in
      if \<not> isValid command
      then [AckRejected, AckCounted, AckLog Warning (''Rejected command seq='' @ seq),
            AckPrint \<lparr>res_sequence = raw_sequence rawCommand, res_code = InvalidCommand, res_command = ''UNKNOWN'',
              res_executorCommand = ''HAND_NONE'', res_message = ''invalid gateway command''\<rparr>]
      else
        let commandName = parserCommandToString command; executorCommand = toExecutorCommand command in
        [AckAccepted, AckCounted,
         AckLog Info (''Command seq='' @ seq @ '' '' @ commandName @ '' -> '' @ executorCommand),
         AckPrint \<lparr>res_sequence = raw_sequence rawCommand, res_code = Ok, res_command = commandName,
           res_executorCommand = executorCommand, res_message = ''command accepted''\<rparr>])"

definition ack_consumer_exit :: "ack_effect list" where
  "ack_consumer_exit = [AckLog Info ''Command consumer finished'']"

fun ack_apply :: "ack_effect \<Rightarrow> LogManager \<times> AckStats \<Rightarrow> LogManager \<times> AckStats" where
  "ack_apply (AckLog level message) (logger, stats) = (log level message logger, stats)"
| "ack_apply AckReceived (logger, stats) = (logger, stats\<lparr>as_received := as_received stats + 1\<rparr>)"
| "ack_apply AckAccepted (logger, stats) = (logger, stats\<lparr>as_accepted := as_accepted stats + 1\<rparr>)"
| "ack_apply AckRejected (logger, stats) = (logger, stats\<lparr>as_rejected := as_rejected stats + 1\<rparr>)"
| "ack_apply AckCounted (logger, stats) = (logger, stats\<lparr>as_ackCount := as_ackCount stats + 1\<rparr>)"
| "ack_apply (AckPrint result) (logger, stats) = (print (printResult result) logger, stats)"

definition gateway_ack_main :: "bool \<Rightarrow> ack_effect list \<Rightarrow> int \<times> string list" where
  "gateway_ack_main opens effects =
     (let logger = setMaxCachedLogs 50 (setAutoFlush True (setConsoleEnabled True
            (new_LogManager ''gateway_ack_demo.log'' opens []))) in
      if \<not> isFileOpen logger
      then (1, console (delete_LogManager (print ''[ERROR] Logger initialization failed'' logger)))
      else
        let logger = print ''[MAIN] start gateway ACK demo'' logger in
        case fold ack_apply effects (logger, \<lparr>as_received = 0, as_accepted = 0, as_rejected = 0, as_ackCount = 0\<rparr>) of
          (logger, stats) \<Rightarrow>
            let results = [''[RESULT] received='' @ to_string (as_received stats),
                  ''[RESULT] accepted='' @ to_string (as_accepted stats),
                  ''[RESULT] rejected='' @ to_string (as_rejected stats),
                  ''[RESULT] responses='' @ to_string (as_ackCount stats),
                  ''[MAIN] all worker threads joined'']
            in (0, console (delete_LogManager (fold print results logger))))"

section \<open>The programs keep the contract\<close>

interpretation tsq: pipeline tsq_consume tsq_exit tsq_producer
  by unfold_locales code_simp

interpretation samples: pipeline processTask "[]" collectTask
  by unfold_locales code_simp

interpretation day28: pipeline day28_commandConsumer day28_consumer_exit day28_commandProducer
  by unfold_locales code_simp

interpretation pl: pipeline "pl_commandConsumer new_ProtocolParser" pl_consumer_exit pl_inputProducer
  by unfold_locales code_simp

interpretation ack: pipeline "ack_commandConsumer new_ProtocolParser" ack_consumer_exit ack_inputProducer
  by unfold_locales code_simp

section \<open>The effects on the shared objects\<close>

lemma logged_since_reset_logs:
  assumes "\<forall>op \<in> set ops. \<exists>level msg. op = Log level msg"
  shows "logged_since_reset level ops = length (filter (is_log level) ops)"
proof -
  have "takeWhile (\<lambda>op. op \<noteq> ResetLogCounts) (rev ops) = rev ops"
    unfolding takeWhile_eq_all_conv using assms by auto
  then show ?thesis
    unfolding logged_since_reset_def by (simp only: rev_filter [symmetric] length_rev)
qed

lemma console_log_run:
  "consoleEnabled m \<Longrightarrow> (\<forall>op \<in> set ops. \<exists>level msg. op = Log level msg) \<Longrightarrow>
     consoleEnabled (log_run ops m) \<and> filePath (log_run ops m) = filePath m \<and>
     console (log_run ops m) = console m @ logged_lines ops"
  by (induction ops arbitrary: m) auto

text \<open>The logger as the two programs set it up, and the counts of a run of logs on it.\<close>

definition demo_logger :: "string \<Rightarrow> LogManager" where
  "demo_logger path = setMaxCachedLogs 50 (setAutoFlush True (setConsoleEnabled True (new_LogManager path True [])))"

lemma demo_logger_members:
  "consoleEnabled (demo_logger path)" "file_open (demo_logger path)" "filePath (demo_logger path) = path"
  "console (demo_logger path) = [''[INFO] Log file opened: '' @ path]"
  "std_ordered (logCounts (demo_logger path))" "getLogCount level (demo_logger path) = 0"
proof -
  have "logCounts (demo_logger path) = logCounts (new_LogManager path True [])"
    by (simp add: demo_logger_def other_ops)
  then show "std_ordered (logCounts (demo_logger path))" "getLogCount level (demo_logger path) = 0"
    using new_LogManager_counts(1) [of path True "[]"] new_LogManager_counts(2) [of level path True "[]"]
    by (simp_all add: getLogCount_def)
qed (simp_all add: demo_logger_def other_ops new_LogManager_def)

lemma print_counts_unchanged [simp]:
  "logCounts (print l m) = logCounts m" "getLogCount level (print l m) = getLogCount level m"
  by (simp_all add: print_def getLogCount_def)

fun pl_log :: "pipeline_effect \<Rightarrow> log_op list" where
  "pl_log (PlLog level message) = [Log level message]"
| "pl_log _ = []"

lemma pl_log_ops: "\<forall>op \<in> set (concat (map pl_log effects)). \<exists>level msg. op = Log level msg"
proof (induction effects)
  case (Cons e es)
  then show ?case by (cases e) auto
qed simp

lemma pl_apply_fold:
  "fold pl_apply effects (logger, stats) =
     (log_run (concat (map pl_log effects)) logger,
      stats\<lparr>st_accepted := st_accepted stats + length (filter ((=) PlAccepted) effects),
            st_rejected := st_rejected stats + length (filter ((=) PlRejected) effects)\<rparr>)"
proof (induction effects arbitrary: logger stats)
  case (Cons e es)
  then show ?case by (cases e) simp_all
qed simp

lemma pl_logged:
  "logged_since_reset level (concat (map pl_log effects)) =
     length (filter (\<lambda>e. list_ex (is_log level) (pl_log e)) effects)"
  unfolding logged_since_reset_logs [OF pl_log_ops]
proof (induction effects)
  case (Cons e es)
  then show ?case by (cases e) simp_all
qed simp

lemma to_string_results:
  "to_string (Suc 0) = ''1''" "to_string 4 = ''4''" "to_string 5 = ''5''" "to_string 11 = ''11''"
  by code_simp+

section \<open>Properties\<close>

text \<open>The queue a pipeline works on, as an object of the class.\<close>

definition pipe_tsq :: "('a, 'e) pipe \<Rightarrow> 'a ThreadSafeQueue" where
  "pipe_tsq s = \<lparr>tsq_queue = pipe_queue s, tsq_stopped = closed s\<rparr>"

lemma producer_uses_tsq:
  "producer_step s = Some t \<Longrightarrow> pipe_tsq t =
     (case hd (producer s) of Push x es \<Rightarrow> tsq_push x (pipe_tsq s) | Emit e \<Rightarrow> pipe_tsq s
      | Close es \<Rightarrow> tsq_stop (pipe_tsq s))"
  by (auto simp: producer_step.simps pipe_tsq_def tsq_push_def tsq_stop_def split: list.splits action.splits)

lemma consumer_uses_tsq:
  "consumer s = Waiting \<Longrightarrow>
     (case wait_and_pop v (pipe_tsq s) of
        None \<Rightarrow> consumer_step handler exit s = None
      | Some (ok, x, q) \<Rightarrow> \<exists>t. consumer_step handler exit s = Some t \<and> pipe_tsq t = q \<and>
          consumer t = (if ok then Working (handler x) False else Working exit True))"
  by (auto simp: consumer_step.simps wait_and_pop_def pipe_tsq_def split: list.splits)

text \<open>
  The queue class under concurrency: what the two threads do to the queue are the
  operations of \<^verbatim>\<open>ThreadSafeQueue\<close>; and in its program, whatever the interleaving, the threads never
  get stuck, every run ends within 29 steps, and at the end the consumer has printed the five
  values in the order they were pushed, and its farewell, interleaved with the producer's lines.
\<close>

theorem thread_safe_queue_program:
  fixes s :: "(nat, string) pipe"
  assumes "(pipe_step tsq_consume tsq_exit ^^ n) (new_pipe tsq_producer) s"
  shows "n \<le> 29 \<and> (\<not> finished s \<longrightarrow> (\<exists>t. pipe_step tsq_consume tsq_exit s t)) \<and>
    (finished s \<longrightarrow> trace s \<in> shuffles
       [''produce: 1'', ''produce: 2'', ''produce: 3'', ''produce: 4'', ''produce: 5'']
       [''consume: 1'', ''consume: 2'', ''consume: 3'', ''consume: 4'', ''consume: 5'', ''consumer exit'']) \<and>
    (\<forall>t. producer_step s = Some t \<longrightarrow> pipe_tsq t =
       (case hd (producer s) of Push x es \<Rightarrow> tsq_push x (pipe_tsq s) | Emit e \<Rightarrow> pipe_tsq s
        | Close es \<Rightarrow> tsq_stop (pipe_tsq s))) \<and>
    (consumer s = Waiting \<longrightarrow>
       (case wait_and_pop v (pipe_tsq s) of
          None \<Rightarrow> consumer_step tsq_consume tsq_exit s = None
        | Some (ok, x, q) \<Rightarrow> \<exists>t. consumer_step tsq_consume tsq_exit s = Some t \<and> pipe_tsq t = q \<and>
            consumer t = (if ok then Working (tsq_consume x) False else Working tsq_exit True)))"
proof -
  have reach: "(pipe_step tsq_consume tsq_exit)\<^sup>*\<^sup>* (new_pipe tsq_producer) s"
    using assms by (rule relpowp_imp_rtranclp)
  have "pipe_measure tsq_consume tsq_exit (new_pipe tsq_producer) = 29" by code_simp
  with tsq.bounded [OF assms] have bound: "n \<le> 29" by simp
  have lines: "emitted tsq_producer = [''produce: 1'', ''produce: 2'', ''produce: 3'', ''produce: 4'', ''produce: 5'']"
    "concat (map tsq_consume (pushed tsq_producer)) @ tsq_exit =
      [''consume: 1'', ''consume: 2'', ''consume: 3'', ''consume: 4'', ''consume: 5'', ''consumer exit'']"
    by code_simp+
  note result = tsq.outcome [OF reach, unfolded lines]
  show ?thesis
    by (intro conjI impI allI bound tsq.not_stuck [OF reach] result producer_uses_tsq consumer_uses_tsq)
qed

text \<open>The producer runs to its end before the consumer starts.\<close>

theorem thread_safe_queue_program_witness:
  "\<exists>n s. (pipe_step tsq_consume tsq_exit ^^ n) (new_pipe tsq_producer) s \<and> finished s \<and> n \<le> 29 \<and>
     last (trace s) = ''consumer exit''"
proof -
  let ?s = "pipe_run tsq_consume tsq_exit (replicate 11 True @ replicate 20 False) (new_pipe tsq_producer)"
  have "finished ?s" "last (trace ?s) = ''consumer exit''" by code_simp+
  moreover obtain n where n: "(pipe_step tsq_consume tsq_exit ^^ n) (new_pipe tsq_producer) ?s"
    using pipe_run_reaches [of tsq_consume tsq_exit "new_pipe tsq_producer"] rtranclp_imp_relpowp by metis
  moreover have "n \<le> 29" using thread_safe_queue_program [OF n] by blast
  ultimately show ?thesis by blast
qed

text \<open>
  The gateway pipeline: for every interleaving of the input thread and the command thread,
  once both have ended the program has accepted four of its five inputs and rejected one, written
  eleven information lines and one warning, shown every line logged on the terminal in the order
  of logging, and returns 0.
\<close>

theorem gateway_pipeline_result:
  assumes "(pipe_step (pl_commandConsumer new_ProtocolParser) pl_consumer_exit)\<^sup>*\<^sup>* (new_pipe pl_inputProducer) s"
    and "finished s"
  shows "gateway_pipeline_main True (trace s) =
    (0, [''[INFO] Log file opened: gateway_pipeline_demo.log'', ''[MAIN] start gateway pipeline demo''] @
        logged_lines (concat (map pl_log (trace s))) @
        [''[RESULT] accepted=4'', ''[RESULT] rejected=1'', ''[RESULT] INFO logs=11'', ''[RESULT] WARNING logs=1'',
         ''[MAIN] all worker threads joined'', ''[INFO] Log file closed: gateway_pipeline_demo.log''])"
proof -
  let ?path = "''gateway_pipeline_demo.log''"
  let ?logger = "print ''[MAIN] start gateway pipeline demo'' (demo_logger ?path)"
  let ?ops = "concat (map pl_log (trace s))"
  note count = pl.outcome_count [OF assms]
  have "length (filter ((=) PlAccepted) (trace s)) = 4" "length (filter ((=) PlRejected) (trace s)) = 1"
    unfolding count by code_simp+
  moreover have "logged_since_reset Info ?ops = 11" "logged_since_reset Warning ?ops = 1"
    unfolding pl_logged count by code_simp+
  then have "getLogCount Info (log_run ?ops ?logger) = 11" "getLogCount Warning (log_run ?ops ?logger) = 1"
    using count_run [of ?logger _ ?ops] demo_logger_members by simp_all
  moreover have "consoleEnabled (log_run ?ops ?logger)" "filePath (log_run ?ops ?logger) = ?path"
    "console (log_run ?ops ?logger) = console ?logger @ logged_lines ?ops"
    using console_log_run [OF _ pl_log_ops, of ?logger "trace s"] demo_logger_members by simp_all
  ultimately show ?thesis
    using demo_logger_members(2) [of ?path]
    by (simp add: gateway_pipeline_main_def demo_logger_def [symmetric] isFileOpen_def pl_apply_fold
        demo_logger_members to_string_results)
qed

text \<open>The two threads in turn.\<close>

theorem gateway_pipeline_result_witness:
  "let s = pipe_run (pl_commandConsumer new_ProtocolParser) pl_consumer_exit
         (concat (replicate 40 [True, False])) (new_pipe pl_inputProducer)
   in finished s \<and> fst (gateway_pipeline_main True (trace s)) = 0"
proof -
  let ?s = "pipe_run (pl_commandConsumer new_ProtocolParser) pl_consumer_exit
      (concat (replicate 40 [True, False])) (new_pipe pl_inputProducer)"
  have "finished ?s" by code_simp
  with gateway_pipeline_result [OF pipe_run_reaches, of "concat (replicate 40 [True, False])"]
  show ?thesis by (simp only: Let_def fst_conv simp_thms)
qed

text \<open>The acknowledgement demonstration: what its effects do to the logger and the terminal.\<close>

fun ack_line :: "ack_effect \<Rightarrow> string list" where
  "ack_line (AckLog level message) = [log_line level message]"
| "ack_line (AckPrint result) = [printResult result]"
| "ack_line _ = []"

fun is_response :: "ack_effect \<Rightarrow> bool" where
  "is_response (AckPrint result) = True"
| "is_response _ = False"

lemma ack_apply_stats:
  "snd (fold ack_apply effects (logger, stats)) =
     stats\<lparr>as_received := as_received stats + length (filter ((=) AckReceived) effects),
           as_accepted := as_accepted stats + length (filter ((=) AckAccepted) effects),
           as_rejected := as_rejected stats + length (filter ((=) AckRejected) effects),
           as_ackCount := as_ackCount stats + length (filter ((=) AckCounted) effects)\<rparr>"
proof (induction effects arbitrary: logger stats)
  case (Cons e es)
  then show ?case by (cases e) simp_all
qed simp

lemma ack_apply_console:
  "consoleEnabled logger \<Longrightarrow>
     consoleEnabled (fst (fold ack_apply effects (logger, stats))) \<and>
     filePath (fst (fold ack_apply effects (logger, stats))) = filePath logger \<and>
     console (fst (fold ack_apply effects (logger, stats))) = console logger @ concat (map ack_line effects)"
proof (induction effects arbitrary: logger stats)
  case (Cons e es)
  then show ?case by (cases e) simp_all
qed simp

text \<open>
  Claim C37. The acknowledgement demonstration: for every interleaving of its two threads, once both
  have ended every input has been received and answered, four accepted and one rejected, and the
  answers appear on the terminal in the order of the sequence numbers, each with its own number,
  code and command; the program returns 0.
\<close>

theorem gateway_ack_result:
  assumes "(pipe_step (ack_commandConsumer new_ProtocolParser) ack_consumer_exit)\<^sup>*\<^sup>* (new_pipe ack_inputProducer) s"
    and "finished s"
  shows "gateway_ack_main True (trace s) =
    (0, [''[INFO] Log file opened: gateway_ack_demo.log'', ''[MAIN] start gateway ACK demo''] @
        concat (map ack_line (trace s)) @
        [''[RESULT] received=5'', ''[RESULT] accepted=4'', ''[RESULT] rejected=1'', ''[RESULT] responses=5'',
         ''[MAIN] all worker threads joined'', ''[INFO] Log file closed: gateway_ack_demo.log'']) \<and>
    concat (map ack_line (filter is_response (trace s))) =
      [''[ACK] seq=1 code=0 result=OK command=OPEN executor=HAND_OPEN'',
       ''[ACK] seq=2 code=0 result=OK command=GRAB executor=HAND_GRAB'',
       ''[ERROR] seq=3 code=1001 result=INVALID_COMMAND message=invalid gateway command'',
       ''[ACK] seq=4 code=0 result=OK command=STOP executor=HAND_STOP'',
       ''[ACK] seq=5 code=0 result=OK command=RELEASE executor=HAND_RELEASE'']"
proof
  let ?path = "''gateway_ack_demo.log''"
  let ?logger = "print ''[MAIN] start gateway ACK demo'' (demo_logger ?path)"
  let ?stats = "\<lparr>as_received = 0, as_accepted = 0, as_rejected = 0, as_ackCount = 0\<rparr>"
  let ?world = "fold ack_apply (trace s) (?logger, ?stats)"
  note count = ack.outcome_count [OF assms]
  have "length (filter ((=) AckReceived) (trace s)) = 5" "length (filter ((=) AckAccepted) (trace s)) = 4"
    "length (filter ((=) AckRejected) (trace s)) = 1" "length (filter ((=) AckCounted) (trace s)) = 5"
    unfolding count by code_simp+
  then have stats: "snd ?world = \<lparr>as_received = 5, as_accepted = 4, as_rejected = 1, as_ackCount = 5\<rparr>"
    by (simp add: ack_apply_stats)
  have "consoleEnabled ?logger" by (simp add: demo_logger_members)
  from ack_apply_console [OF this, of "trace s" ?stats]
  have "consoleEnabled (fst ?world)" "filePath (fst ?world) = ?path"
    "console (fst ?world) = console ?logger @ concat (map ack_line (trace s))"
    by (simp_all add: demo_logger_members)
  with stats show "gateway_ack_main True (trace s) =
    (0, [''[INFO] Log file opened: gateway_ack_demo.log'', ''[MAIN] start gateway ACK demo''] @
        concat (map ack_line (trace s)) @
        [''[RESULT] received=5'', ''[RESULT] accepted=4'', ''[RESULT] rejected=1'', ''[RESULT] responses=5'',
         ''[MAIN] all worker threads joined'', ''[INFO] Log file closed: gateway_ack_demo.log''])"
    using demo_logger_members(2) [of ?path]
    by (cases ?world) (simp add: gateway_ack_main_def demo_logger_def [symmetric] isFileOpen_def
        demo_logger_members to_string_results)
  have "filter is_response (trace s) \<in>
      shuffles (filter is_response (emitted ack_inputProducer))
        (filter is_response (concat (map (ack_commandConsumer new_ProtocolParser) (pushed ack_inputProducer)) @ ack_consumer_exit))"
    using ack.outcome [OF assms] filter_shuffles [of is_response] by blast
  moreover have "filter is_response (emitted ack_inputProducer) = []" by code_simp
  ultimately have "filter is_response (trace s) =
      filter is_response (concat (map (ack_commandConsumer new_ProtocolParser) (pushed ack_inputProducer)) @ ack_consumer_exit)"
    by simp
  then show "concat (map ack_line (filter is_response (trace s))) =
      [''[ACK] seq=1 code=0 result=OK command=OPEN executor=HAND_OPEN'',
       ''[ACK] seq=2 code=0 result=OK command=GRAB executor=HAND_GRAB'',
       ''[ERROR] seq=3 code=1001 result=INVALID_COMMAND message=invalid gateway command'',
       ''[ACK] seq=4 code=0 result=OK command=STOP executor=HAND_STOP'',
       ''[ACK] seq=5 code=0 result=OK command=RELEASE executor=HAND_RELEASE'']"
    by (simp only:) code_simp
qed

theorem gateway_ack_result_witness:
  "let s = pipe_run (ack_commandConsumer new_ProtocolParser) ack_consumer_exit
         (concat (replicate 50 [True, False])) (new_pipe ack_inputProducer)
   in finished s \<and> fst (gateway_ack_main True (trace s)) = 0"
proof -
  let ?s = "pipe_run (ack_commandConsumer new_ProtocolParser) ack_consumer_exit
      (concat (replicate 50 [True, False])) (new_pipe ack_inputProducer)"
  have fin: "finished ?s" by code_simp
  from gateway_ack_result [OF pipe_run_reaches fin] have "fst (gateway_ack_main True (trace ?s)) = 0" by simp
  with fin show ?thesis by (simp only: Let_def simp_thms)
qed

text \<open>The other two programs, whose output does not depend on the interleaving or only in its order.\<close>

lemma producer_consumer_result:
  assumes "(pipe_step processTask [])\<^sup>*\<^sup>* (new_pipe collectTask) s" and "finished s"
  shows "producer_consumer_main (trace s) =
    [''[MAIN] start producer_consumer demo'',
     ''[PROCESS]sequence=1temperature=21humidity=51processed_count=1'',
     ''[PROCESS]sequence=2temperature=22humidity=52processed_count=2'',
     ''[PROCESS]sequence=3temperature=23humidity=53processed_count=3'',
     ''[PROCESS]sequence=4temperature=24humidity=54processed_count=4'',
     ''[PROCESS]sequence=5temperature=25humidity=55processed_count=5'',
     ''[RESULT] processed_count=5'', ''[MAIN] all worker threads joined'']"
proof -
  have "emitted collectTask = []" by code_simp
  with samples.outcome [OF assms] have "trace s = concat (map processTask (pushed collectTask)) @ []" by simp
  then show ?thesis by (simp only:) code_simp
qed

lemma day28_producer_consumer_result:
  assumes "(pipe_step day28_commandConsumer day28_consumer_exit)\<^sup>*\<^sup>* (new_pipe day28_commandProducer) s"
    and "finished s"
  shows "trace s \<in> shuffles
    [''[PRODUCER] push: OPEN'', ''[PRODUCER] push: GRAB'', ''[PRODUCER] push: RELEASE'',
     ''[PRODUCER] push: STOP'', ''[PRODUCER] push: OPEN'', ''[PRODUCER] finished'']
    [''[CONSUMER] process: OPEN'', ''[CONSUMER] process: GRAB'', ''[CONSUMER] process: RELEASE'',
     ''[CONSUMER] process: STOP'', ''[CONSUMER] process: OPEN'', ''[CONSUMER] exit'']"
proof -
  have "emitted day28_commandProducer = [''[PRODUCER] push: OPEN'', ''[PRODUCER] push: GRAB'',
      ''[PRODUCER] push: RELEASE'', ''[PRODUCER] push: STOP'', ''[PRODUCER] push: OPEN'', ''[PRODUCER] finished'']"
    and "concat (map day28_commandConsumer (pushed day28_commandProducer)) @ day28_consumer_exit =
      [''[CONSUMER] process: OPEN'', ''[CONSUMER] process: GRAB'', ''[CONSUMER] process: RELEASE'',
       ''[CONSUMER] process: STOP'', ''[CONSUMER] process: OPEN'', ''[CONSUMER] exit'']"
    by code_simp+
  with day28.outcome [OF assms] show ?thesis by (simp only:)
qed

end
