(* ===== verification/Timeout_Demo.thy ===== *)
theory Timeout_Demo
  imports Gateway_Demos
begin

text \<open>
  The program \<^verbatim>\<open>gateway_timeout_demo/main.cpp\<close>: a sender that waits for the acknowledgement of each
  request with a time limit and repeats the request once, and a device on another thread that loses
  the first acknowledgement of request 3. The threads share a queue of requests, a map of
  acknowledgements and the logger. A step is one critical section or one line of output; when the
  time limit of a wait expires is a choice of the run, so the theorems hold for every timing. Runs
  in which a wait does not expire while the device is still working on the request are the
  \<^emph>\<open>punctual\<close> ones; the delays of the program are chosen to make its run one of them.
\<close>

section \<open>Data\<close>

definition kMaxRetries :: nat where "kMaxRetries = 1"

record PendingRequest =
  req_sequence :: u32
  req_payload :: string
  req_attempt :: nat

record TdAckFrame =
  ack_sequence :: u32
  ack_success :: bool
  ack_message :: string

record RetryStats =
  sentFrames :: nat
  acked :: nat
  timeouts :: nat
  retries :: nat
  failed :: nat

text \<open>A line of the log or of the terminal, each written in a step of its own.\<close>

datatype td_effect =
  TdLog LogLevel string
  | TdPrint string

fun td_apply :: "td_effect \<Rightarrow> LogManager \<Rightarrow> LogManager" where
  "td_apply (TdLog level message) m = log level message m"
| "td_apply (TdPrint line) m = print line m"

text \<open>
  Where the sender is: at the head of its loop over the commands, at the head of the loop over the
  attempts, in the wait for the acknowledgement, writing lines before it goes on, or past the loop.
\<close>

datatype sender_pc =
  NextCommand
  | Attempt nat
  | AwaitAck nat
  | Perform "td_effect list" sender_pc
  | CloseQueue
  | SenderDone

datatype device_pc =
  DeviceWait
  | DeviceHandle PendingRequest
  | DevicePerform "td_effect list" device_pc
  | DeviceDone

record timeout_demo =
  txQueue :: "PendingRequest list"
  transmissionFinished :: bool
  ackMap :: "(u32, TdAckFrame) std_map"
  td_logger :: LogManager
  td_stats :: RetryStats
  commands_left :: "string list"
  td_sequence :: u32
  td_payload :: string
  sender :: sender_pc
  device :: device_pc

definition td_commands :: "string list" where
  "td_commands = [''OPEN'', ''GRAB'', ''STOP'', ''RELEASE'']"

section \<open>The two threads\<close>

text \<open>\<open>None\<close> while the wait for a request does not return, and after the end of the thread.\<close>

fun simulatedDevice :: "timeout_demo \<Rightarrow> timeout_demo option" where
  "simulatedDevice s =
     (case device s of
        DeviceWait \<Rightarrow>
          (case txQueue s of
             [] \<Rightarrow>
               if transmissionFinished s
               then Some (s\<lparr>device := DevicePerform [TdLog Info ''Simulated device finished''] DeviceDone\<rparr>)
               else None
           | request # rest \<Rightarrow>
               Some (s\<lparr>txQueue := rest,
                 device := DevicePerform
                   [TdLog Info (''Device received seq='' @ to_string (unat (req_sequence request)) @
                      ''attempt='' @ to_string (req_attempt request))]
                   (DeviceHandle request)\<rparr>))
      | DeviceHandle request \<Rightarrow>
          if req_sequence request = 3 \<and> req_attempt request = 1
          then Some (s\<lparr>device := DevicePerform [TdLog Warning ''Simulated ACK loss for seq=3''] DeviceWait\<rparr>)
          else
            let ack = \<lparr>ack_sequence = req_sequence request, ack_success = True, ack_message = ''OK''\<rparr>
            in Some (s\<lparr>ackMap := std_put (ack_sequence ack) ack (ackMap s), device := DeviceWait\<rparr>)
      | DevicePerform [] pc \<Rightarrow> Some (s\<lparr>device := pc\<rparr>)
      | DevicePerform (e # es) pc \<Rightarrow>
          Some (s\<lparr>td_logger := td_apply e (td_logger s), device := DevicePerform es pc\<rparr>)
      | DeviceDone \<Rightarrow> None)"

text \<open>
  The sender; the argument says whether the time limit of the wait has expired. \<^verbatim>\<open>wait_for\<close> gives the
  value of its predicate, so that an acknowledgement that is there is taken even then.
\<close>

fun commandSender :: "bool \<Rightarrow> timeout_demo \<Rightarrow> timeout_demo option" where
  "commandSender expired s =
     (let stats = td_stats s; sequence = td_sequence s; seq = to_string (unat sequence) in
      case sender s of
        NextCommand \<Rightarrow>
          (case commands_left s of
             [] \<Rightarrow> Some (s\<lparr>sender := CloseQueue\<rparr>)
           | payload # rest \<Rightarrow>
               Some (s\<lparr>commands_left := rest, td_sequence := sequence + 1, td_payload := payload,
                 sender := (if \<not> isValid (parse new_ProtocolParser payload) then NextCommand else Attempt 1)\<rparr>))
      | Attempt attempt \<Rightarrow>
          if attempt \<le> kMaxRetries + 1
          then Some (s\<lparr>
                 txQueue := txQueue s @ [\<lparr>req_sequence = sequence, req_payload = td_payload s, req_attempt = attempt\<rparr>],
                 td_stats := stats\<lparr>sentFrames := sentFrames stats + 1\<rparr>,
                 sender := Perform
                   [TdLog Info (''Send seq='' @ seq @ '' attempt='' @ to_string attempt)] (AwaitAck attempt)\<rparr>)
          else Some (s\<lparr>sender := Perform [TdPrint (''[FAILED] seq='' @ seq)] NextCommand\<rparr>)
      | AwaitAck attempt \<Rightarrow>
          (case std_find sequence (ackMap s) of
             Some ack \<Rightarrow>
               Some (s\<lparr>ackMap := std_erase sequence (ackMap s),
                 td_stats := stats\<lparr>acked := acked stats + 1\<rparr>,
                 sender := Perform
                   [TdLog Info (''ACK received seq='' @ to_string (unat (ack_sequence ack))),
                    TdPrint (''[ACK] seq='' @ to_string (unat (ack_sequence ack)) @ '' message='' @ ack_message ack)]
                   NextCommand\<rparr>)
           | None \<Rightarrow>
               if \<not> expired then None
               else
                 let stats = stats\<lparr>timeouts := timeouts stats + 1\<rparr>;
                     line = TdPrint (''[TIMEOUT] seq='' @ seq @ '' attempt='' @ to_string attempt)
                 in if attempt \<le> kMaxRetries
                    then Some (s\<lparr>td_stats := stats\<lparr>retries := retries stats + 1\<rparr>,
                           sender := Perform [line, TdPrint (''[RETRY] seq='' @ seq)] (Attempt (attempt + 1))\<rparr>)
                    else Some (s\<lparr>td_stats := stats\<lparr>failed := failed stats + 1\<rparr>,
                           sender := Perform [line, TdLog Error (''Request failed seq='' @ seq)]
                             (Attempt (attempt + 1))\<rparr>))
      | Perform [] pc \<Rightarrow> Some (s\<lparr>sender := pc\<rparr>)
      | Perform (e # es) pc \<Rightarrow> Some (s\<lparr>td_logger := td_apply e (td_logger s), sender := Perform es pc\<rparr>)
      | CloseQueue \<Rightarrow>
          Some (s\<lparr>transmissionFinished := True,
            sender := Perform [TdLog Info ''Command sender finished''] SenderDone\<rparr>)
      | SenderDone \<Rightarrow> None)"

declare simulatedDevice.simps [simp del] commandSender.simps [simp del]

section \<open>Runs and the program\<close>

datatype td_choice = SenderMoves | AckTimeout | DeviceMoves

fun td_move :: "td_choice \<Rightarrow> timeout_demo \<Rightarrow> timeout_demo option" where
  "td_move SenderMoves s = commandSender False s"
| "td_move AckTimeout s = commandSender True s"
| "td_move DeviceMoves s = simulatedDevice s"

definition td_start :: "LogManager \<Rightarrow> timeout_demo" where
  "td_start logger =
     \<lparr>txQueue = [], transmissionFinished = False, ackMap = [], td_logger = logger,
      td_stats = \<lparr>sentFrames = 0, acked = 0, timeouts = 0, retries = 0, failed = 0\<rparr>,
      commands_left = td_commands, td_sequence = 0, td_payload = [], sender = NextCommand, device = DeviceWait\<rparr>"

definition td_finished :: "timeout_demo \<Rightarrow> bool" where
  "td_finished s \<longleftrightarrow> sender s = SenderDone \<and> device s = DeviceDone"

inductive td_step :: "timeout_demo \<Rightarrow> timeout_demo \<Rightarrow> bool" where
  send: "commandSender expired s = Some t \<Longrightarrow> td_step s t"
| receive: "simulatedDevice s = Some t \<Longrightarrow> td_step s t"

text \<open>A run in which the time limit expires only when the device has nothing left to work on.\<close>

definition device_idle :: "timeout_demo \<Rightarrow> bool" where
  "device_idle s \<longleftrightarrow> txQueue s = [] \<and> device s = DeviceWait"

inductive td_punctual :: "timeout_demo \<Rightarrow> timeout_demo \<Rightarrow> bool" where
  send: "commandSender expired s = Some t \<Longrightarrow> expired \<longrightarrow> device_idle s \<Longrightarrow> td_punctual s t"
| receive: "simulatedDevice s = Some t \<Longrightarrow> td_punctual s t"

text \<open>A schedule; a choice that is not enabled is passed over.\<close>

fun td_run :: "td_choice list \<Rightarrow> timeout_demo \<Rightarrow> timeout_demo" where
  "td_run [] s = s"
| "td_run (c # cs) s = td_run cs (case td_move c s of None \<Rightarrow> s | Some t \<Rightarrow> t)"

definition td_results :: "RetryStats \<Rightarrow> string list" where
  "td_results stats =
     [''[RESULT] sent_frames='' @ to_string (sentFrames stats), ''[RESULT] acked='' @ to_string (acked stats),
      ''[RESULT] timeouts='' @ to_string (timeouts stats), ''[RESULT] retries='' @ to_string (retries stats),
      ''[RESULT] failed='' @ to_string (failed stats)]"

text \<open>
  \<^verbatim>\<open>main\<close> under a schedule: its result and the terminal after the logger is destroyed, and \<open>None\<close>
  when the schedule is over before both threads can be joined.
\<close>

definition gateway_timeout_main :: "bool \<Rightarrow> td_choice list \<Rightarrow> (int \<times> string list) option" where
  "gateway_timeout_main opens schedule =
     (let logger = setMaxCachedLogs 50 (setAutoFlush True (setConsoleEnabled True
            (new_LogManager ''gateway_timeout_demo.log'' opens []))) in
      if \<not> isFileOpen logger
      then Some (1, console (delete_LogManager (print ''[ERROR] Logger initialization failed'' logger)))
      else
        let s = td_run schedule (td_start (print ''[MAIN] start timeout retry demo'' logger)) in
        if td_finished s
        then Some (0, console (delete_LogManager (fold print (td_results (td_stats s)) (td_logger s))))
        else None)"

section \<open>The steps, case by case\<close>

lemma td_commands_valid: "list_all (\<lambda>payload. isValid (parse new_ProtocolParser payload)) td_commands"
  by code_simp

lemma commandSender_cases:
  assumes "commandSender expired s = Some t"
  obtains (no_command) "sender s = NextCommand" "commands_left s = []" "t = s\<lparr>sender := CloseQueue\<rparr>"
  | (command) payload rest where "sender s = NextCommand" "commands_left s = payload # rest"
      "t = s\<lparr>commands_left := rest, td_sequence := td_sequence s + 1, td_payload := payload,
         sender := (if \<not> isValid (parse new_ProtocolParser payload) then NextCommand else Attempt 1)\<rparr>"
  | (push) attempt line where "sender s = Attempt attempt" "attempt \<le> 2"
      "t = s\<lparr>txQueue := txQueue s @ [\<lparr>req_sequence = td_sequence s, req_payload = td_payload s, req_attempt = attempt\<rparr>],
         td_stats := (td_stats s)\<lparr>sentFrames := sentFrames (td_stats s) + 1\<rparr>,
         sender := Perform [line] (AwaitAck attempt)\<rparr>"
  | (give_up) attempt line where "sender s = Attempt attempt" "2 < attempt"
      "t = s\<lparr>sender := Perform [line] NextCommand\<rparr>"
  | (acknowledged) attempt ack line1 line2 where "sender s = AwaitAck attempt"
      "std_find (td_sequence s) (ackMap s) = Some ack"
      "t = s\<lparr>ackMap := std_erase (td_sequence s) (ackMap s),
         td_stats := (td_stats s)\<lparr>acked := acked (td_stats s) + 1\<rparr>, sender := Perform [line1, line2] NextCommand\<rparr>"
  | (retry) attempt line1 line2 where "sender s = AwaitAck attempt" "std_find (td_sequence s) (ackMap s) = None"
      "expired" "attempt \<le> 1"
      "t = s\<lparr>td_stats := (td_stats s)\<lparr>timeouts := timeouts (td_stats s) + 1, retries := retries (td_stats s) + 1\<rparr>,
         sender := Perform [line1, line2] (Attempt (attempt + 1))\<rparr>"
  | (fail) attempt line1 line2 where "sender s = AwaitAck attempt" "std_find (td_sequence s) (ackMap s) = None"
      "expired" "1 < attempt"
      "t = s\<lparr>td_stats := (td_stats s)\<lparr>timeouts := timeouts (td_stats s) + 1, failed := failed (td_stats s) + 1\<rparr>,
         sender := Perform [line1, line2] (Attempt (attempt + 1))\<rparr>"
  | (go_on) pc where "sender s = Perform [] pc" "t = s\<lparr>sender := pc\<rparr>"
  | (write_line) e es pc where "sender s = Perform (e # es) pc"
      "t = s\<lparr>td_logger := td_apply e (td_logger s), sender := Perform es pc\<rparr>"
  | (shut) line where "sender s = CloseQueue"
      "t = s\<lparr>transmissionFinished := True, sender := Perform [line] SenderDone\<rparr>"
proof (cases "sender s")
  case NextCommand
  with assms that(1,2) show thesis by (cases "commands_left s") (simp_all add: commandSender.simps Let_def)
next
  case (Attempt a)
  with assms show thesis
    by (cases "a \<le> 2") (auto simp: commandSender.simps Let_def kMaxRetries_def intro: that(3,4))
next
  case (AwaitAck a)
  show thesis
  proof (cases "std_find (td_sequence s) (ackMap s)")
    case None
    with AwaitAck assms show thesis
      by (cases "expired"; cases "a \<le> 1") (auto simp: commandSender.simps Let_def kMaxRetries_def intro: that(6,7))
  next
    case (Some ack)
    with AwaitAck assms show thesis by (auto simp: commandSender.simps Let_def intro: that(5))
  qed
next
  case (Perform es pc)
  with assms that(8,9) show thesis by (cases es) (simp_all add: commandSender.simps Let_def)
qed (use assms in \<open>auto simp: commandSender.simps Let_def intro: that(10)\<close>)

lemma simulatedDevice_cases:
  assumes "simulatedDevice s = Some t"
  obtains (leave) line where "device s = DeviceWait" "txQueue s = []" "transmissionFinished s"
      "t = s\<lparr>device := DevicePerform [line] DeviceDone\<rparr>"
  | (take) request rest where "device s = DeviceWait" "txQueue s = request # rest"
      "t = s\<lparr>txQueue := rest,
         device := DevicePerform
           [TdLog Info (''Device received seq='' @ to_string (unat (req_sequence request)) @
              ''attempt='' @ to_string (req_attempt request))]
           (DeviceHandle request)\<rparr>"
  | (lose) request line where "device s = DeviceHandle request" "req_sequence request = 3" "req_attempt request = 1"
      "t = s\<lparr>device := DevicePerform [line] DeviceWait\<rparr>"
  | (answer) request where "device s = DeviceHandle request"
      "\<not> (req_sequence request = 3 \<and> req_attempt request = 1)"
      "t = s\<lparr>ackMap := std_put (req_sequence request)
           \<lparr>ack_sequence = req_sequence request, ack_success = True, ack_message = ''OK''\<rparr> (ackMap s),
         device := DeviceWait\<rparr>"
  | (go_on) pc where "device s = DevicePerform [] pc" "t = s\<lparr>device := pc\<rparr>"
  | (write_line) e es pc where "device s = DevicePerform (e # es) pc"
      "t = s\<lparr>td_logger := td_apply e (td_logger s), device := DevicePerform es pc\<rparr>"
proof (cases "device s")
  case DeviceWait
  with assms show thesis
    by (cases "txQueue s"; cases "transmissionFinished s") (auto simp: simulatedDevice.simps intro: that(1,2))
next
  case (DeviceHandle request)
  with assms show thesis
    by (cases "req_sequence request = 3 \<and> req_attempt request = 1")
      (auto simp: simulatedDevice.simps Let_def intro: that(3,4))
next
  case (DevicePerform es pc)
  with assms that(5,6) show thesis by (cases es) (simp_all add: simulatedDevice.simps)
qed (use assms in \<open>simp add: simulatedDevice.simps\<close>)

section \<open>What every run keeps\<close>

text \<open>Where a thread goes once its pending lines are written.\<close>

fun sender_after :: "sender_pc \<Rightarrow> sender_pc" where
  "sender_after (Perform es pc) = sender_after pc"
| "sender_after pc = pc"

fun device_after :: "device_pc \<Rightarrow> device_pc" where
  "device_after (DevicePerform es pc) = device_after pc"
| "device_after pc = pc"

text \<open>
  The accounting: the commands that have ended were acknowledged or failed, every frame beyond the
  first of a command is a retry, and every expired wait is a retry or a failure.
\<close>

definition accounts :: "nat \<Rightarrow> nat \<Rightarrow> nat \<Rightarrow> RetryStats \<Rightarrow> bool" where
  "accounts ended first_sends most_retries st \<longleftrightarrow>
     acked st + failed st = ended \<and> timeouts st = retries st + failed st \<and>
     sentFrames st = first_sends + retries st \<and> retries st \<le> most_retries"

fun sender_accounts :: "sender_pc \<Rightarrow> nat \<Rightarrow> RetryStats \<Rightarrow> bool" where
  "sender_accounts (Perform es pc) begun st = sender_accounts pc begun st"
| "sender_accounts NextCommand begun st = accounts begun begun begun st"
| "sender_accounts (Attempt a) begun st =
     (1 \<le> a \<and> a \<le> 3 \<and> 1 \<le> begun \<and>
      (if a = 3 then accounts begun begun begun st else accounts (begun - 1) (begun - 1) (begun - 1 + (a - 1)) st))"
| "sender_accounts (AwaitAck a) begun st =
     (1 \<le> a \<and> a \<le> 2 \<and> 1 \<le> begun \<and> accounts (begun - 1) begun (begun - 1 + (a - 1)) st)"
| "sender_accounts CloseQueue begun st = (begun = 4 \<and> accounts begun begun begun st)"
| "sender_accounts SenderDone begun st = (begun = 4 \<and> accounts begun begun begun st)"

definition td_accounted :: "timeout_demo \<Rightarrow> bool" where
  "td_accounted s \<longleftrightarrow> (\<exists>begun \<le> 4. commands_left s = drop begun td_commands \<and> td_sequence s = of_nat begun \<and>
      sender_accounts (sender s) begun (td_stats s)) \<and>
     (transmissionFinished s \<longleftrightarrow> sender_after (sender s) = SenderDone) \<and>
     (device_after (device s) = DeviceDone \<longrightarrow> transmissionFinished s \<and> txQueue s = [])"

text \<open>The device has logged that it received a request with this number, among the lines given.\<close>

definition device_saw :: "u32 \<Rightarrow> string set \<Rightarrow> bool" where
  "device_saw seq ls \<longleftrightarrow> (\<exists>attempt. log_line Info (''Device received seq='' @ to_string (unat seq) @
      ''attempt='' @ to_string attempt) \<in> ls)"

fun td_line :: "td_effect \<Rightarrow> string" where
  "td_line (TdLog level message) = log_line level message"
| "td_line (TdPrint line) = line"

fun device_evidence :: "device_pc \<Rightarrow> string set \<Rightarrow> bool" where
  "device_evidence (DevicePerform es pc) ls = device_evidence pc (ls \<union> td_line ` set es)"
| "device_evidence (DeviceHandle request) ls = device_saw (req_sequence request) ls"
| "device_evidence _ ls = True"

definition td_witnessed :: "timeout_demo \<Rightarrow> bool" where
  "td_witnessed s \<longleftrightarrow> consoleEnabled (td_logger s) \<and> std_ordered (ackMap s) \<and>
     device_evidence (device s) (set (console (td_logger s))) \<and>
     (\<forall>seq ack. std_find seq (ackMap s) = Some ack \<longrightarrow>
        ack = \<lparr>ack_sequence = seq, ack_success = True, ack_message = ''OK''\<rparr> \<and>
        device_saw seq (set (console (td_logger s))))"

lemma td_commands_drop:
  assumes "drop b td_commands = payload # rest" and "b \<le> 4"
  shows "b < 4" "rest = drop (Suc b) td_commands" "isValid (parse new_ProtocolParser payload)"
proof -
  have len: "length td_commands = 4" by (simp add: td_commands_def)
  show "b < 4" using assms len by (cases "b = 4") auto
  show "rest = drop (Suc b) td_commands" using assms(1) by (metis drop_Suc list.sel(3) tl_drop)
  have "payload \<in> set td_commands" using assms(1) by (metis in_set_dropD list.set_intros(1))
  with td_commands_valid show "isValid (parse new_ProtocolParser payload)" by (simp add: list_all_iff)
qed

lemma td_accounted_sender:
  assumes "commandSender expired s = Some t" and "td_accounted s"
  shows "td_accounted t"
proof -
  from assms(2) obtain b where b: "b \<le> 4" "commands_left s = drop b td_commands" "td_sequence s = of_nat b"
    "sender_accounts (sender s) b (td_stats s)"
    and closed: "transmissionFinished s \<longleftrightarrow> sender_after (sender s) = SenderDone"
      "device_after (device s) = DeviceDone \<longrightarrow> transmissionFinished s \<and> txQueue s = []"
    by (auto simp: td_accounted_def)
  from assms(1) show ?thesis
  proof (cases rule: commandSender_cases)
    case no_command
    with b have "b = 4" by (cases "b = 4") (auto simp: td_commands_def)
    with no_command b closed show ?thesis by (auto simp: td_accounted_def)
  next
    case (command payload rest)
    with td_commands_drop [of b payload rest] b have "Suc b \<le> 4" "rest = drop (Suc b) td_commands"
      "isValid (parse new_ProtocolParser payload)" by auto
    with command b closed show ?thesis
      by (auto simp: td_accounted_def accounts_def intro!: exI [of _ "Suc b"])
  qed (use b closed in \<open>auto simp: td_accounted_def accounts_def split: if_splits intro!: exI [of _ b]\<close>)
qed

lemma td_accounted_device:
  assumes "simulatedDevice s = Some t" and "td_accounted s"
  shows "td_accounted t"
  using assms(1) by (cases rule: simulatedDevice_cases) (use assms(2) in \<open>auto simp: td_accounted_def\<close>)

lemma td_apply_console [simp]:
  "consoleEnabled m \<Longrightarrow> console (td_apply e m) = console m @ [td_line e]"
  "consoleEnabled (td_apply e m) = consoleEnabled m"
  by (cases e; simp)+

lemma device_evidence_mono: "device_evidence pc ls \<Longrightarrow> ls \<subseteq> ls' \<Longrightarrow> device_evidence pc ls'"
proof (induction pc arbitrary: ls ls')
  case (DevicePerform es pc)
  from DevicePerform.prems show ?case
    using DevicePerform.IH [of "ls \<union> td_line ` set es" "ls' \<union> td_line ` set es"] by auto
qed (auto simp: device_saw_def)

lemma device_saw_mono: "device_saw seq ls \<Longrightarrow> ls \<subseteq> ls' \<Longrightarrow> device_saw seq ls'"
  by (auto simp: device_saw_def)

lemma td_witnessed_sender:
  assumes "commandSender expired s = Some t" and "td_witnessed s"
  shows "td_witnessed t"
  using assms(1)
proof (cases rule: commandSender_cases)
  case acknowledged
  with assms(2) show ?thesis
    by (auto simp: td_witnessed_def std_find_erase std_ordered_erase split: if_splits)
next
  case (write_line e es pc)
  with assms(2) show ?thesis by (auto simp: td_witnessed_def intro: device_evidence_mono device_saw_mono)
qed (use assms(2) in \<open>simp_all add: td_witnessed_def\<close>)

lemma td_witnessed_device:
  assumes "simulatedDevice s = Some t" and "td_witnessed s"
  shows "td_witnessed t"
  using assms(1)
proof (cases rule: simulatedDevice_cases)
  case (take request rest)
  have "device_saw (req_sequence request) (set (console (td_logger s)) \<union>
      {log_line Info (''Device received seq='' @ to_string (unat (req_sequence request)) @
        ''attempt='' @ to_string (req_attempt request))})"
    unfolding device_saw_def by blast
  with take assms(2) show ?thesis by (simp add: td_witnessed_def)
next
  case (answer request)
  with assms(2) show ?thesis
    by (auto simp: td_witnessed_def std_find_put std_ordered_put split: if_splits)
next
  case (write_line e es pc)
  with assms(2) show ?thesis by (auto simp: td_witnessed_def intro: device_saw_mono)
qed (use assms(2) in \<open>simp_all add: td_witnessed_def\<close>)

section \<open>Every run ends\<close>

fun sender_weight :: "sender_pc \<Rightarrow> nat" where
  "sender_weight SenderDone = 0"
| "sender_weight CloseQueue = 3"
| "sender_weight NextCommand = 4"
| "sender_weight (Attempt a) = 8 + 20 * (3 - a)"
| "sender_weight (AwaitAck a) = 20 * (3 - a) - 3"
| "sender_weight (Perform es pc) = length es + 1 + sender_weight pc"

fun device_weight :: "device_pc \<Rightarrow> nat" where
  "device_weight DeviceDone = 0"
| "device_weight DeviceWait = 3"
| "device_weight (DeviceHandle request) = 6"
| "device_weight (DevicePerform es pc) = length es + 1 + device_weight pc"

text \<open>An upper bound on the number of steps that are left.\<close>

definition td_weight :: "timeout_demo \<Rightarrow> nat" where
  "td_weight s = 45 * length (commands_left s) + sender_weight (sender s) +
     6 * length (txQueue s) + device_weight (device s)"

definition td_inv :: "timeout_demo \<Rightarrow> bool" where
  "td_inv s \<longleftrightarrow> td_accounted s \<and> td_witnessed s"

lemma td_weight_sender:
  assumes "commandSender expired s = Some t" and "td_accounted s"
  shows "td_weight t < td_weight s"
proof -
  from assms(2) obtain b where acc: "sender_accounts (sender s) b (td_stats s)" by (auto simp: td_accounted_def)
  from assms(1) show ?thesis
  proof (cases rule: commandSender_cases)
    case (acknowledged attempt)
    with acc have "attempt = 1 \<or> attempt = 2" by auto
    with acknowledged show ?thesis by (auto simp: td_weight_def)
  next
    case (push attempt)
    with acc have "attempt = 1 \<or> attempt = 2" by auto
    with push show ?thesis by (auto simp: td_weight_def)
  next
    case (retry attempt)
    with acc have "attempt = 1" by auto
    with retry show ?thesis by (auto simp: td_weight_def)
  next
    case (fail attempt)
    with acc have "attempt = 2" by auto
    with fail show ?thesis by (auto simp: td_weight_def)
  qed (auto simp: td_weight_def)
qed

lemma td_weight_device: "simulatedDevice s = Some t \<Longrightarrow> td_weight t < td_weight s"
  by (cases rule: simulatedDevice_cases) (auto simp: td_weight_def)

lemma td_progress:
  assumes "td_accounted s" and "\<not> td_finished s"
  shows "\<exists>t. td_step s t"
proof (cases "sender s = SenderDone")
  case True
  with assms have "device s \<noteq> DeviceDone" "transmissionFinished s" by (auto simp: td_finished_def td_accounted_def)
  then have "simulatedDevice s \<noteq> None"
    by (auto simp: simulatedDevice.simps Let_def split: device_pc.splits list.splits)
  then show ?thesis by (blast intro: td_step.receive)
next
  case False
  then have "commandSender True s \<noteq> None"
    by (auto simp: commandSender.simps Let_def split: sender_pc.splits list.splits option.splits)
  then show ?thesis by (blast intro: td_step.send)
qed

lemma td_inv_start: "consoleEnabled logger \<Longrightarrow> td_inv (td_start logger)"
  by (auto simp: td_inv_def td_accounted_def td_witnessed_def td_start_def accounts_def)

interpretation td: terminating_system "\<lambda>s. \<exists>logger. consoleEnabled logger \<and> s = td_start logger"
  td_step td_inv td_finished td_weight
proof unfold_locales
  show "td_inv s" if "\<exists>logger. consoleEnabled logger \<and> s = td_start logger" for s
    using that td_inv_start by blast
  show "td_inv t" if "td_step s t" "td_inv s" for s t
    using that
    by (cases rule: td_step.cases)
      (auto simp: td_inv_def intro: td_accounted_sender td_accounted_device td_witnessed_sender td_witnessed_device)
  show "td_weight t < td_weight s" if "td_inv s" "td_step s t" for s t
    using that(2) by cases (use that(1) in \<open>auto simp: td_inv_def intro: td_weight_sender td_weight_device\<close>)
  show "\<exists>t. td_step s t" if "td_inv s" "\<not> td_finished s" for s
    using that by (auto simp: td_inv_def intro: td_progress)
qed

section \<open>Punctual runs\<close>

text \<open>Before a request is sent and after it is settled nothing is under way.\<close>

definition quiet :: "timeout_demo \<Rightarrow> bool" where
  "quiet s \<longleftrightarrow> txQueue s = [] \<and> ackMap s = [] \<and> device_after (device s) \<in> {DeviceWait, DeviceDone}"

text \<open>
  While the sender waits, its request is queued, or with the device, or answered; the first attempt
  of request 3 ends without an answer.
\<close>

definition under_way :: "nat \<Rightarrow> nat \<Rightarrow> timeout_demo \<Rightarrow> bool" where
  "under_way b a s \<longleftrightarrow>
     (let request = \<lparr>req_sequence = td_sequence s, req_payload = td_payload s, req_attempt = a\<rparr>;
          ack = \<lparr>ack_sequence = td_sequence s, ack_success = True, ack_message = ''OK''\<rparr> in
      txQueue s = [request] \<and> device_after (device s) = DeviceWait \<and> ackMap s = [] \<or>
      txQueue s = [] \<and> device_after (device s) = DeviceHandle request \<and> ackMap s = [] \<or>
      txQueue s = [] \<and> device_after (device s) = DeviceWait \<and>
        ackMap s = (if b = 3 \<and> a = 1 then [] else [(td_sequence s, ack)]))"

definition on_time_stats :: "nat \<Rightarrow> nat \<Rightarrow> nat \<Rightarrow> RetryStats" where
  "on_time_stats sends acks lost =
     \<lparr>sentFrames = sends + lost, acked = acks, timeouts = lost, retries = lost, failed = 0\<rparr>"

fun on_time :: "sender_pc \<Rightarrow> nat \<Rightarrow> timeout_demo \<Rightarrow> bool" where
  "on_time (Perform es pc) b s = on_time pc b s"
| "on_time NextCommand b s = (quiet s \<and> td_stats s = on_time_stats b b (if 3 \<le> b then 1 else 0))"
| "on_time (Attempt a) b s =
     (1 \<le> b \<and> (a = 1 \<or> a = 2 \<and> b = 3) \<and> quiet s \<and>
      td_stats s = on_time_stats (b - 1) (b - 1) (if 3 < b \<or> a = 2 then 1 else 0))"
| "on_time (AwaitAck a) b s =
     (1 \<le> b \<and> (a = 1 \<or> a = 2 \<and> b = 3) \<and> under_way b a s \<and>
      td_stats s = on_time_stats b (b - 1) (if 3 < b \<or> a = 2 then 1 else 0))"
| "on_time CloseQueue b s = (b = 4 \<and> quiet s \<and> td_stats s = on_time_stats 4 4 1)"
| "on_time SenderDone b s = (b = 4 \<and> quiet s \<and> td_stats s = on_time_stats 4 4 1)"

definition td_on_time :: "timeout_demo \<Rightarrow> bool" where
  "td_on_time s \<longleftrightarrow> (\<exists>b \<le> 4. commands_left s = drop b td_commands \<and> td_sequence s = of_nat b \<and> on_time (sender s) b s) \<and>
     (transmissionFinished s \<longrightarrow> sender_after (sender s) = SenderDone) \<and>
     (device_after (device s) = DeviceDone \<longrightarrow> transmissionFinished s)"

lemma sequence_is_three: "b \<le> 4 \<Longrightarrow> (of_nat b :: u32) = 3 \<longleftrightarrow> b = 3"
proof -
  assume "b \<le> 4"
  then consider "b = 0" | "b = 1" | "b = 2" | "b = 3" | "b = 4" by linarith
  then show ?thesis by cases simp_all
qed

lemma on_time_members:
  "on_time pc b (s\<lparr>sender := x\<rparr>) = on_time pc b s"
  "on_time pc b (s\<lparr>td_logger := m\<rparr>) = on_time pc b s"
  by (induction pc) (simp_all add: quiet_def under_way_def)

lemma on_time_sender:
  assumes "commandSender expired s = Some t" and "expired \<longrightarrow> device_idle s" and "td_on_time s"
  shows "td_on_time t"
proof -
  from assms(3) obtain b where b: "b \<le> 4" "commands_left s = drop b td_commands" "td_sequence s = of_nat b"
    "on_time (sender s) b s"
    and fin: "transmissionFinished s \<longrightarrow> sender_after (sender s) = SenderDone"
      "device_after (device s) = DeviceDone \<longrightarrow> transmissionFinished s"
    by (auto simp: td_on_time_def)
  from assms(1) show ?thesis
  proof (cases rule: commandSender_cases)
    case no_command
    with b have "b = 4" by (cases "b = 4") (auto simp: td_commands_def)
    with no_command b fin show ?thesis by (auto simp: td_on_time_def on_time_members quiet_def)
  next
    case (command payload rest)
    with td_commands_drop [of b payload rest] b have "Suc b \<le> 4" "rest = drop (Suc b) td_commands"
      "isValid (parse new_ProtocolParser payload)" by auto
    with command b fin show ?thesis
      by (auto simp: td_on_time_def quiet_def intro!: exI [of _ "Suc b"])
  next
    case (push attempt line)
    with b fin show ?thesis
      by (auto simp: td_on_time_def quiet_def under_way_def on_time_stats_def Let_def intro!: exI [of _ b])
  next
    case (acknowledged attempt ack line1 line2)
    with b have "ackMap s = [(td_sequence s, ack)]" "txQueue s = []" "device_after (device s) = DeviceWait"
      "\<not> (b = 3 \<and> attempt = 1)"
      by (auto simp: under_way_def Let_def split: if_splits)
    with acknowledged b fin show ?thesis
      by (auto simp: td_on_time_def quiet_def on_time_stats_def intro!: exI [of _ b])
  next
    case (retry attempt line1 line2)
    with assms(2) b have "b = 3" "attempt = 1" "quiet s"
      by (auto simp: under_way_def Let_def device_idle_def quiet_def split: if_splits)
    with retry b fin show ?thesis
      by (auto simp: td_on_time_def quiet_def on_time_stats_def intro!: exI [of _ b])
  next
    case (fail attempt line1 line2)
    with assms(2) b have False
      by (auto simp: under_way_def Let_def device_idle_def split: if_splits)
    then show ?thesis ..
  next
    case (give_up attempt line)
    with b show ?thesis by auto
  qed (use b fin in \<open>auto simp: td_on_time_def on_time_members quiet_def intro!: exI [of _ b]\<close>)
qed

lemma on_time_after: "on_time pc b s = on_time (sender_after pc) b s"
  by (induction pc) simp_all

text \<open>A step of the device keeps the quiet, and moves a request under way one stage further.\<close>

lemma quiet_device:
  assumes "simulatedDevice s = Some t" and "quiet s"
  shows "quiet t"
  using assms(1) by (cases rule: simulatedDevice_cases) (use assms(2) in \<open>auto simp: quiet_def\<close>)

lemma under_way_device:
  assumes "simulatedDevice s = Some t" and "under_way b a s"
    and "b \<le> 4" "td_sequence s = of_nat b" "\<not> transmissionFinished s"
  shows "under_way b a t"
  using assms(1)
proof (cases rule: simulatedDevice_cases)
  case (lose request line)
  with assms have "b = 3" "a = 1" by (auto simp: under_way_def Let_def sequence_is_three)
  with lose assms(2) show ?thesis by (auto simp: under_way_def Let_def)
next
  case (answer request)
  with assms have "\<not> (b = 3 \<and> a = 1)" by (auto simp: under_way_def Let_def sequence_is_three)
  with answer assms(2) show ?thesis by (auto simp: under_way_def Let_def)
qed (use assms in \<open>auto simp: under_way_def Let_def\<close>)

lemma device_keeps:
  assumes "simulatedDevice s = Some t"
  shows "sender t = sender s" "td_stats t = td_stats s" "commands_left t = commands_left s"
    "td_sequence t = td_sequence s" "transmissionFinished t = transmissionFinished s"
    "device_after (device t) = DeviceDone \<Longrightarrow> device_after (device s) = DeviceDone \<or> transmissionFinished s"
proof -
  have "sender t = sender s \<and> td_stats t = td_stats s \<and> commands_left t = commands_left s \<and>
      td_sequence t = td_sequence s \<and> transmissionFinished t = transmissionFinished s \<and>
      (device_after (device t) = DeviceDone \<longrightarrow> device_after (device s) = DeviceDone \<or> transmissionFinished s)"
    using assms by (cases rule: simulatedDevice_cases) simp_all
  then show "sender t = sender s" "td_stats t = td_stats s" "commands_left t = commands_left s"
    "td_sequence t = td_sequence s" "transmissionFinished t = transmissionFinished s"
    "device_after (device t) = DeviceDone \<Longrightarrow> device_after (device s) = DeviceDone \<or> transmissionFinished s"
    by blast+
qed

lemma on_time_device:
  assumes "simulatedDevice s = Some t" and "td_on_time s"
  shows "td_on_time t"
proof -
  from assms(2) obtain b where b: "b \<le> 4" "commands_left s = drop b td_commands" "td_sequence s = of_nat b"
    "on_time (sender_after (sender s)) b s"
    and fin: "transmissionFinished s \<longrightarrow> sender_after (sender s) = SenderDone"
      "device_after (device s) = DeviceDone \<longrightarrow> transmissionFinished s"
    by (auto simp: td_on_time_def on_time_after [of "sender s"])
  note keeps = device_keeps [OF assms(1)]
  have "on_time (sender_after (sender s)) b t"
  proof (cases "sender_after (sender s)")
    case (AwaitAck a)
    with b fin show ?thesis by (auto simp: keeps(2) intro: under_way_device [OF assms(1)])
  next
    case (Perform es pc)
    have "sender_after pc' \<noteq> Perform es pc" for pc' by (induction pc') simp_all
    with Perform show ?thesis by blast
  qed (use b in \<open>auto simp: keeps(2) intro: quiet_device [OF assms(1)]\<close>)
  then have "on_time (sender t) b t" by (simp add: on_time_after [of "sender s"] keeps(1))
  moreover have "device_after (device t) = DeviceDone \<longrightarrow> transmissionFinished t"
    using keeps(5,6) fin by metis
  ultimately show ?thesis unfolding td_on_time_def using b(1-3) fin(1) keeps(1,3-5) by metis
qed

interpretation punctual: invariant_system "\<lambda>s. \<exists>logger. s = td_start logger" td_punctual td_on_time
proof unfold_locales
  show "td_on_time s" if "\<exists>logger. s = td_start logger" for s
    using that by (auto simp: td_on_time_def td_start_def quiet_def on_time_stats_def)
  show "td_on_time t" if "td_punctual s t" "td_on_time s" for s t
    using that by (cases rule: td_punctual.cases) (auto intro: on_time_sender on_time_device)
qed

section \<open>Schedules are runs\<close>

lemma td_move_step: "td_move c s = Some t \<Longrightarrow> td_step s t"
  by (cases c) (auto intro: td_step.intros)

lemma td_run_reaches: "td_step\<^sup>*\<^sup>* s (td_run cs s)"
  by (induction cs arbitrary: s)
    (auto split: option.splits intro: converse_rtranclp_into_rtranclp td_move_step)

text \<open>A schedule without expired waits, or with one only where the device is idle, is punctual.\<close>

fun punctual_schedule :: "td_choice list \<Rightarrow> timeout_demo \<Rightarrow> bool" where
  "punctual_schedule [] s = True"
| "punctual_schedule (c # cs) s =
     ((c = AckTimeout \<longrightarrow> device_idle s) \<and>
      punctual_schedule cs (case td_move c s of None \<Rightarrow> s | Some t \<Rightarrow> t))"

lemma td_move_punctual: "td_move c s = Some t \<Longrightarrow> c = AckTimeout \<longrightarrow> device_idle s \<Longrightarrow> td_punctual s t"
  by (cases c) (auto intro: td_punctual.intros)

lemma punctual_run: "punctual_schedule cs s \<Longrightarrow> td_punctual\<^sup>*\<^sup>* s (td_run cs s)"
  by (induction cs arbitrary: s)
    (auto split: option.splits intro: converse_rtranclp_into_rtranclp td_move_punctual)

section \<open>Properties\<close>

lemma td_run_logger:
  "consoleEnabled (td_logger (td_run cs s)) = consoleEnabled (td_logger s) \<and>
   filePath (td_logger (td_run cs s)) = filePath (td_logger s)"
proof (induction cs arbitrary: s)
  case (Cons c cs)
  have apply_path: "filePath (td_apply e m) = filePath m" for e m by (cases e) simp_all
  have "consoleEnabled (td_logger t) = consoleEnabled (td_logger s) \<and> filePath (td_logger t) = filePath (td_logger s)"
    if "td_move c s = Some t" for t
  proof (cases c)
    case DeviceMoves
    with that have "simulatedDevice s = Some t" by simp
    then show ?thesis by (cases rule: simulatedDevice_cases) (simp_all add: apply_path)
  next
    case SenderMoves
    with that have "commandSender False s = Some t" by simp
    then show ?thesis by (cases rule: commandSender_cases) (simp_all add: apply_path)
  next
    case AckTimeout
    with that have "commandSender True s = Some t" by simp
    then show ?thesis by (cases rule: commandSender_cases) (simp_all add: apply_path)
  qed
  with Cons.IH show ?case by (simp split: option.splits)
qed simp

text \<open>The threads never read the logger, so that a run can be followed without its lines.\<close>

definition unlogged :: "timeout_demo \<Rightarrow> timeout_demo" where
  "unlogged s = s\<lparr>td_logger := setConsoleEnabled False (setMaxCachedLogs 0 (new_LogManager [] False []))\<rparr>"

lemma unlogged_move: "map_option unlogged (td_move c (unlogged s)) = map_option unlogged (td_move c s)"
proof -
  have "map_option unlogged (simulatedDevice (unlogged s)) = map_option unlogged (simulatedDevice s)"
    by (simp add: simulatedDevice.simps unlogged_def Let_def split: device_pc.split list.split)
  moreover have "map_option unlogged (commandSender expired (unlogged s)) = map_option unlogged (commandSender expired s)"
    for expired
    by (simp add: commandSender.simps unlogged_def Let_def split: sender_pc.split list.split option.split)
  ultimately show ?thesis by (cases c) simp_all
qed

lemma unlogged_run: "unlogged (td_run cs (unlogged s)) = unlogged (td_run cs s)"
proof (induction cs arbitrary: s)
  case (Cons c cs)
  have twice: "unlogged (unlogged s) = unlogged s" for s by (simp add: unlogged_def)
  show ?case
  proof (cases "td_move c s")
    case None
    with unlogged_move [of c s] Cons.IH [of s] show ?thesis by simp
  next
    case (Some t)
    with unlogged_move [of c s] obtain u where u: "td_move c (unlogged s) = Some u" "unlogged u = unlogged t" by auto
    with Some Cons.IH [of t] Cons.IH [of u] show ?thesis by simp
  qed
qed (simp add: unlogged_def)

lemma unlogged_punctual: "punctual_schedule cs (unlogged s) = punctual_schedule cs s"
proof (induction cs arbitrary: s)
  case (Cons c cs)
  have idle: "device_idle (unlogged s) = device_idle s" by (simp add: device_idle_def unlogged_def)
  show ?case
  proof (cases "td_move c s")
    case None
    with unlogged_move [of c s] Cons.IH [of s] idle show ?thesis by simp
  next
    case (Some t)
    with unlogged_move [of c s] obtain u where u: "td_move c (unlogged s) = Some u" "unlogged u = unlogged t" by auto
    with Some Cons.IH [of t] Cons.IH [of u] idle show ?thesis by simp
  qed
qed simp

lemma unlogged_start: "unlogged (td_start m) = unlogged (td_start m')"
  by (simp add: unlogged_def td_start_def)

lemma run_without_logger:
  "td_finished (td_run cs (td_start m)) = td_finished (unlogged (td_run cs (unlogged (td_start (new_LogManager [] False [])))))"
  "td_stats (td_run cs (td_start m)) = td_stats (unlogged (td_run cs (unlogged (td_start (new_LogManager [] False [])))))"
  "ackMap (td_run cs (td_start m)) = ackMap (unlogged (td_run cs (unlogged (td_start (new_LogManager [] False [])))))"
  "punctual_schedule cs (td_start m) = punctual_schedule cs (unlogged (td_start (new_LogManager [] False [])))"
proof -
  let ?s = "td_run cs (td_start m)"
  have "unlogged (td_run cs (unlogged (td_start (new_LogManager [] False [])))) = unlogged ?s"
    unfolding unlogged_start [of "new_LogManager [] False []" m] by (rule unlogged_run)
  then show "td_finished ?s = td_finished (unlogged (td_run cs (unlogged (td_start (new_LogManager [] False [])))))"
    "td_stats ?s = td_stats (unlogged (td_run cs (unlogged (td_start (new_LogManager [] False [])))))"
    "ackMap ?s = ackMap (unlogged (td_run cs (unlogged (td_start (new_LogManager [] False [])))))"
    by (simp_all add: unlogged_def td_finished_def)
  show "punctual_schedule cs (td_start m) = punctual_schedule cs (unlogged (td_start (new_LogManager [] False [])))"
    unfolding unlogged_start [of "new_LogManager [] False []" m] by (rule unlogged_punctual [symmetric])
qed

text \<open>
  Claim C7. The timed request loop is right under every timing: however the waits expire and the
  threads interleave, the program never gets stuck and ends within 187 steps; no more than eight
  frames are sent, two per command; and at the end every command was either acknowledged or given
  up, every frame beyond the first of its command is counted as a retry, every expired wait as a
  retry or a failure, and the device has taken every request from the queue.
\<close>

theorem timeout_demo_any_timing:
  assumes "(td_step ^^ n) (td_start logger) s" and "consoleEnabled logger"
  shows "n \<le> 187 \<and> sentFrames (td_stats s) \<le> 8 \<and> (\<not> td_finished s \<longrightarrow> (\<exists>t. td_step s t)) \<and>
    (td_finished s \<longrightarrow>
       acked (td_stats s) + failed (td_stats s) = 4 \<and>
       sentFrames (td_stats s) = 4 + retries (td_stats s) \<and>
       timeouts (td_stats s) = retries (td_stats s) + failed (td_stats s) \<and>
       txQueue s = [])"
proof -
  have inv: "td_inv (td_start logger)" by (rule td_inv_start [OF assms(2)])
  have reach: "td_step\<^sup>*\<^sup>* (td_start logger) s" using assms(1) by (rule relpowp_imp_rtranclp)
  have "td_weight (td_start logger) = 187" by (simp add: td_weight_def td_start_def td_commands_def)
  with td.bounded [OF assms(1) inv] have bound: "n \<le> 187" by simp
  from td.inv_run [OF reach inv] obtain b where b: "b \<le> 4" "sender_accounts (sender s) b (td_stats s)"
    and emptied: "device_after (device s) = DeviceDone \<longrightarrow> txQueue s = []"
    by (auto simp: td_inv_def td_accounted_def)
  have "sender_accounts pc b st \<Longrightarrow> sentFrames st \<le> 8" for pc st
    by (induction pc) (use b(1) in \<open>auto simp: accounts_def split: if_splits\<close>)
  with b(2) have "sentFrames (td_stats s) \<le> 8" by blast
  moreover have "acked (td_stats s) + failed (td_stats s) = 4 \<and>
       sentFrames (td_stats s) = 4 + retries (td_stats s) \<and>
       timeouts (td_stats s) = retries (td_stats s) + failed (td_stats s) \<and> txQueue s = []" if "td_finished s"
    using that b(2) emptied by (simp add: td_finished_def accounts_def)
  ultimately show ?thesis using bound td.not_stuck [OF reach inv] by blast
qed

text \<open>The schedule that lets every wait expire at once: all four commands fail.\<close>

theorem timeout_demo_any_timing_witness:
  "\<exists>n s. (td_step ^^ n) (td_start (demo_logger [])) s \<and> td_finished s \<and> n \<le> 187 \<and>
     sentFrames (td_stats s) = 8 \<and> failed (td_stats s) = 4"
proof -
  let ?s = "td_run (replicate 80 AckTimeout @ replicate 45 DeviceMoves) (td_start (demo_logger []))"
  have "td_finished ?s" "sentFrames (td_stats ?s) = 8" "failed (td_stats ?s) = 4"
    unfolding run_without_logger by code_simp+
  moreover obtain n where n: "(td_step ^^ n) (td_start (demo_logger [])) ?s"
    using td_run_reaches rtranclp_imp_relpowp by metis
  moreover have "n \<le> 187" using timeout_demo_any_timing [OF n] by (simp add: demo_logger_members)
  ultimately show ?thesis by blast
qed

text \<open>
  An acknowledgement is never made up: in every reachable state, an entry of the map of
  acknowledgements has the number it is filed under, is positive, and the device has logged before
  that it received a request with that number.
\<close>

theorem timeout_demo_acks_are_real:
  assumes "td_step\<^sup>*\<^sup>* (td_start logger) s" and "consoleEnabled logger"
    and "std_find seq (ackMap s) = Some ack"
  shows "ack = \<lparr>ack_sequence = seq, ack_success = True, ack_message = ''OK''\<rparr> \<and>
    (\<exists>attempt. log_line Info (''Device received seq='' @ to_string (unat seq) @ ''attempt='' @ to_string attempt)
       \<in> set (console (td_logger s)))"
proof -
  have "td_inv s" by (rule td.inv_run [OF assms(1) td_inv_start [OF assms(2)]])
  with assms(3) show ?thesis by (auto simp: td_inv_def td_witnessed_def device_saw_def)
qed

theorem timeout_demo_acks_are_real_witness:
  "let s = td_run (concat (replicate 5 [SenderMoves, DeviceMoves])) (td_start (demo_logger [])) in
     \<exists>ack. std_find 1 (ackMap s) = Some ack \<and> ack_sequence ack = 1"
proof -
  let ?s = "td_run (concat (replicate 5 [SenderMoves, DeviceMoves])) (td_start (demo_logger []))"
  have "std_find 1 (ackMap ?s) \<noteq> None" unfolding run_without_logger by code_simp
  then obtain ack where "std_find 1 (ackMap ?s) = Some ack" by blast
  with timeout_demo_acks_are_real [OF td_run_reaches _ this] show ?thesis
    by (simp add: demo_logger_members Let_def)
qed

text \<open>
  The result the program is written to show: in every punctual run, where a wait expires
  only once the device has nothing left to work on, whatever the interleaving, the program sends
  five frames, has all four commands acknowledged, one time-out and one retry (the lost answer to
  request 3) and no failure; it prints these numbers last and returns 0.
\<close>

theorem gateway_timeout_result:
  assumes "punctual_schedule schedule
      (td_start (print ''[MAIN] start timeout retry demo'' (demo_logger ''gateway_timeout_demo.log'')))"
    and "gateway_timeout_main True schedule = Some (code, out)"
  shows "code = 0 \<and> (\<exists>before. out = before @
    [''[RESULT] sent_frames=5'', ''[RESULT] acked=4'', ''[RESULT] timeouts=1'', ''[RESULT] retries=1'',
     ''[RESULT] failed=0'', ''[INFO] Log file closed: gateway_timeout_demo.log''])"
proof -
  let ?start = "td_start (print ''[MAIN] start timeout retry demo'' (demo_logger ''gateway_timeout_demo.log''))"
  let ?s = "td_run schedule ?start"
  from assms(2) have fin: "td_finished ?s"
    and out: "code = 0" "out = console (delete_LogManager (fold print (td_results (td_stats ?s)) (td_logger ?s)))"
    by (auto simp: gateway_timeout_main_def demo_logger_def [symmetric] isFileOpen_def demo_logger_members
        Let_def split: if_splits)
  have "td_on_time ?s" by (rule punctual.inv_reachable [OF _ punctual_run [OF assms(1)]]) blast
  with fin have stats: "td_stats ?s = on_time_stats 4 4 1" by (auto simp: td_on_time_def td_finished_def)
  have "td_results (on_time_stats 4 4 1) = [''[RESULT] sent_frames=5'', ''[RESULT] acked=4'',
      ''[RESULT] timeouts=1'', ''[RESULT] retries=1'', ''[RESULT] failed=0'']" by code_simp
  moreover have "consoleEnabled (td_logger ?s)" "filePath (td_logger ?s) = ''gateway_timeout_demo.log''"
    by (simp_all add: td_run_logger td_start_def demo_logger_members)
  ultimately show ?thesis using out by (simp add: stats)
qed

theorem gateway_timeout_result_witness:
  "\<exists>code out. gateway_timeout_main True
       (concat (replicate 40 [SenderMoves, DeviceMoves]) @ [AckTimeout] @ concat (replicate 30 [SenderMoves, DeviceMoves])) =
     Some (code, out) \<and> code = 0 \<and> ''[RESULT] retries=1'' \<in> set out"
proof -
  let ?cs = "concat (replicate 40 [SenderMoves, DeviceMoves]) @ [AckTimeout] @ concat (replicate 30 [SenderMoves, DeviceMoves])"
  let ?start = "td_start (print ''[MAIN] start timeout retry demo'' (demo_logger ''gateway_timeout_demo.log''))"
  have "td_finished (td_run ?cs ?start)" unfolding run_without_logger by code_simp
  then have "gateway_timeout_main True ?cs \<noteq> None"
    by (simp add: gateway_timeout_main_def demo_logger_def [symmetric] isFileOpen_def demo_logger_members Let_def
        del: td_run.simps)
  then obtain code out where out: "gateway_timeout_main True ?cs = Some (code, out)" by auto
  have "punctual_schedule ?cs ?start" unfolding run_without_logger by code_simp
  from gateway_timeout_result [OF this out] show ?thesis using out by auto
qed

end
