(* ===== verification/Thread_Handshake.thy ===== *)
theory Thread_Handshake
  imports Prelude
begin

text \<open>
  The program \<^verbatim>\<open>thread_demo/main.cpp\<close>: a collector hands samples to a processor through three atomic
  variables, without a lock. Every access to an atomic variable is a step of its own, because the
  other thread can run between any two of them; so are the lines \<^verbatim>\<open>main\<close> prints. The sleeps of the
  program are no synchronisation and do not appear: the step relation has every interleaving.
\<close>

section \<open>State\<close>

definition hs_kTotalSamples :: nat where "hs_kTotalSamples = 5"

datatype collector_pc =
  CollectWait nat
  | CollectStore nat
  | CollectReady nat
  | CollectFinish
  | CollectDone

datatype processor_pc =
  TestFinished
  | TestReady
  | Exchange
  | LoadSample
  | ProcessDone

text \<open>\<^verbatim>\<open>main\<close> prints lines, joins the two threads, and prints its last line.\<close>

datatype main_pc =
  MainPrint "string list"
  | MainJoin
  | MainDone

record handshake =
  latestSample :: nat
  collectionFinished :: bool
  sampleReady :: bool
  collector_at :: collector_pc
  processor_at :: processor_pc
  processed :: "nat list"
  main_at :: main_pc
  terminal :: "string list"

text \<open>\<open>processed\<close> holds the samples in the order the processor took them; its length is \<^verbatim>\<open>processedCount\<close>.\<close>

definition hs_start :: "string \<Rightarrow> string \<Rightarrow> string \<Rightarrow> handshake" where
  "hs_start main_id collector_id processor_id =
     \<lparr>latestSample = 0, collectionFinished = False, sampleReady = False,
      collector_at = CollectWait 1, processor_at = TestFinished, processed = [],
      main_at = MainPrint [''[MIAN] collector thread='' @ collector_id, ''[MIAN] processor thread='' @ processor_id],
      terminal = [''[MAIN] thread='' @ main_id]\<rparr>"

section \<open>The threads\<close>

fun hs_collectTask :: "handshake \<Rightarrow> handshake option" where
  "hs_collectTask s =
     (case collector_at s of
        CollectWait index \<Rightarrow> Some (if sampleReady s then s else s\<lparr>collector_at := CollectStore index\<rparr>)
      | CollectStore index \<Rightarrow>
          let sample = 20 + index in Some (s\<lparr>latestSample := sample, collector_at := CollectReady index\<rparr>)
      | CollectReady index \<Rightarrow>
          Some (s\<lparr>sampleReady := True,
            collector_at := (if index + 1 \<le> hs_kTotalSamples then CollectWait (index + 1) else CollectFinish)\<rparr>)
      | CollectFinish \<Rightarrow> Some (s\<lparr>collectionFinished := True, collector_at := CollectDone\<rparr>)
      | CollectDone \<Rightarrow> None)"

definition process_line :: "string \<Rightarrow> nat \<Rightarrow> nat \<Rightarrow> string" where
  "process_line processor_id sample processedCount =
     ''[PROCESS]thread='' @ processor_id @ ''sample='' @ to_string sample @
     ''processed_count='' @ to_string processedCount"

fun hs_processTask :: "string \<Rightarrow> handshake \<Rightarrow> handshake option" where
  "hs_processTask processor_id s =
     (case processor_at s of
        TestFinished \<Rightarrow> Some (s\<lparr>processor_at := (if \<not> collectionFinished s then Exchange else TestReady)\<rparr>)
      | TestReady \<Rightarrow>
          Some (if sampleReady s then s\<lparr>processor_at := Exchange\<rparr>
                else s\<lparr>processor_at := ProcessDone,
                  terminal := terminal s @ [''[PROCESS]finished,total='' @ to_string (length (processed s))]\<rparr>)
      | Exchange \<Rightarrow>
          Some (if sampleReady s then s\<lparr>sampleReady := False, processor_at := LoadSample\<rparr>
                else s\<lparr>processor_at := TestFinished\<rparr>)
      | LoadSample \<Rightarrow>
          let sample = latestSample s; processed' = processed s @ [sample] in
          Some (s\<lparr>processed := processed',
            terminal := terminal s @ [process_line processor_id sample (length processed')],
            processor_at := TestFinished\<rparr>)
      | ProcessDone \<Rightarrow> None)"

fun hs_main :: "handshake \<Rightarrow> handshake option" where
  "hs_main s =
     (case main_at s of
        MainPrint [] \<Rightarrow> Some (s\<lparr>main_at := MainJoin\<rparr>)
      | MainPrint (l # ls) \<Rightarrow> Some (s\<lparr>terminal := terminal s @ [l], main_at := MainPrint ls\<rparr>)
      | MainJoin \<Rightarrow>
          if collector_at s = CollectDone \<and> processor_at s = ProcessDone
          then Some (s\<lparr>terminal := terminal s @ [''[MAIN] all worker threads joined''], main_at := MainDone\<rparr>)
          else None
      | MainDone \<Rightarrow> None)"

declare hs_collectTask.simps [simp del] hs_processTask.simps [simp del] hs_main.simps [simp del]

inductive hs_step :: "string \<Rightarrow> handshake \<Rightarrow> handshake \<Rightarrow> bool" for processor_id where
  collect: "hs_collectTask s = Some t \<Longrightarrow> hs_step processor_id s t"
| process: "hs_processTask processor_id s = Some t \<Longrightarrow> hs_step processor_id s t"
| main: "hs_main s = Some t \<Longrightarrow> hs_step processor_id s t"

text \<open>A schedule of the three threads; one that cannot move is passed over.\<close>

datatype hs_thread = Collector | Processor | Main

fun hs_move :: "string \<Rightarrow> hs_thread \<Rightarrow> handshake \<Rightarrow> handshake option" where
  "hs_move processor_id Collector s = hs_collectTask s"
| "hs_move processor_id Processor s = hs_processTask processor_id s"
| "hs_move processor_id Main s = hs_main s"

fun hs_run :: "string \<Rightarrow> hs_thread list \<Rightarrow> handshake \<Rightarrow> handshake" where
  "hs_run processor_id [] s = s"
| "hs_run processor_id (c # cs) s =
     hs_run processor_id cs (case hs_move processor_id c s of None \<Rightarrow> s | Some t \<Rightarrow> t)"

lemma hs_run_reaches: "(hs_step processor_id)\<^sup>*\<^sup>* s (hs_run processor_id cs s)"
proof (induction cs arbitrary: s)
  case (Cons c cs)
  have "hs_step processor_id s t" if "hs_move processor_id c s = Some t" for t
    using that by (cases c) (auto intro: hs_step.intros)
  with Cons show ?case by (auto split: option.splits intro: converse_rtranclp_into_rtranclp)
qed simp

section \<open>The invariant\<close>

text \<open>How many samples the collector has announced, and how many the processor has claimed.\<close>

fun announced :: "collector_pc \<Rightarrow> nat" where
  "announced (CollectWait i) = i - 1"
| "announced (CollectStore i) = i - 1"
| "announced (CollectReady i) = i - 1"
| "announced _ = hs_kTotalSamples"

definition claimed :: "handshake \<Rightarrow> nat" where
  "claimed s = length (processed s) + (if processor_at s = LoadSample then 1 else 0)"

fun collector_index :: "collector_pc \<Rightarrow> nat" where
  "collector_index (CollectWait i) = i"
| "collector_index (CollectStore i) = i"
| "collector_index (CollectReady i) = i"
| "collector_index _ = 1"

text \<open>The sample in \<^verbatim>\<open>latestSample\<close>: the last one announced, or the next one already.\<close>

fun latest_index :: "collector_pc \<Rightarrow> nat" where
  "latest_index (CollectReady i) = i"
| "latest_index pc = announced pc"

definition handshake_inv :: "handshake \<Rightarrow> bool" where
  "handshake_inv s \<longleftrightarrow>
     1 \<le> collector_index (collector_at s) \<and> collector_index (collector_at s) \<le> hs_kTotalSamples \<and>
     announced (collector_at s) = claimed s + (if sampleReady s then 1 else 0) \<and>
     (sampleReady s \<longrightarrow> (\<exists>i. collector_at s = CollectWait i) \<or> collector_at s \<in> {CollectFinish, CollectDone}) \<and>
     (1 \<le> latest_index (collector_at s) \<longrightarrow> latestSample s = 20 + latest_index (collector_at s)) \<and>
     (collectionFinished s \<longleftrightarrow> collector_at s = CollectDone) \<and>
     (processor_at s \<in> {TestReady, ProcessDone} \<longrightarrow> collectionFinished s) \<and>
     (processor_at s = ProcessDone \<longrightarrow> \<not> sampleReady s \<and>
        ''[PROCESS]finished,total='' @ to_string (length (processed s)) \<in> set (terminal s)) \<and>
     (\<forall>k < length (processed s). processed s ! k \<in> {21 + k, 22 + k} \<and> processed s ! k \<le> 20 + hs_kTotalSamples) \<and>
     (main_at s = MainDone \<longrightarrow> collector_at s = CollectDone \<and> processor_at s = ProcessDone)"

lemma hs_collectTask_cases:
  assumes "hs_collectTask s = Some t"
  obtains (spin) i where "collector_at s = CollectWait i" "sampleReady s" "t = s"
  | (free) i where "collector_at s = CollectWait i" "\<not> sampleReady s" "t = s\<lparr>collector_at := CollectStore i\<rparr>"
  | (store) i where "collector_at s = CollectStore i"
      "t = s\<lparr>latestSample := 20 + i, collector_at := CollectReady i\<rparr>"
  | (announce) i where "collector_at s = CollectReady i" "i < 5"
      "t = s\<lparr>sampleReady := True, collector_at := CollectWait (Suc i)\<rparr>"
  | (announce_last) i where "collector_at s = CollectReady i" "5 \<le> i"
      "t = s\<lparr>sampleReady := True, collector_at := CollectFinish\<rparr>"
  | (finish) "collector_at s = CollectFinish" "t = s\<lparr>collectionFinished := True, collector_at := CollectDone\<rparr>"
proof (cases "collector_at s")
  case (CollectWait i)
  show thesis
  proof (cases "sampleReady s")
    case True
    with CollectWait assms have "t = s" by (simp add: hs_collectTask.simps)
    with CollectWait True show thesis by (rule that(1))
  next
    case False
    with CollectWait assms that(2) show thesis by (simp add: hs_collectTask.simps)
  qed
next
  case (CollectReady i)
  with assms that(4,5) show thesis
    by (cases "i < 5") (simp_all add: hs_collectTask.simps hs_kTotalSamples_def)
qed (use assms that(3,6) in \<open>simp_all add: hs_collectTask.simps Let_def\<close>)

lemma hs_processTask_cases:
  assumes "hs_processTask processor_id s = Some t"
  obtains (go_on) "processor_at s = TestFinished" "\<not> collectionFinished s" "t = s\<lparr>processor_at := Exchange\<rparr>"
  | (finished) "processor_at s = TestFinished" "collectionFinished s" "t = s\<lparr>processor_at := TestReady\<rparr>"
  | (more) "processor_at s = TestReady" "sampleReady s" "t = s\<lparr>processor_at := Exchange\<rparr>"
  | (leave) "processor_at s = TestReady" "\<not> sampleReady s"
      "t = s\<lparr>processor_at := ProcessDone,
         terminal := terminal s @ [''[PROCESS]finished,total='' @ to_string (length (processed s))]\<rparr>"
  | (claim) "processor_at s = Exchange" "sampleReady s" "t = s\<lparr>sampleReady := False, processor_at := LoadSample\<rparr>"
  | (poll) "processor_at s = Exchange" "\<not> sampleReady s" "t = s\<lparr>processor_at := TestFinished\<rparr>"
  | (load) line where "processor_at s = LoadSample"
      "t = s\<lparr>processed := processed s @ [latestSample s], terminal := terminal s @ [line], processor_at := TestFinished\<rparr>"
proof (cases "processor_at s")
  case TestFinished
  with assms that(1,2) show thesis by (cases "collectionFinished s") (simp_all add: hs_processTask.simps)
next
  case TestReady
  with assms show thesis
    by (cases "sampleReady s") (auto simp: hs_processTask.simps intro: that(3,4))
next
  case Exchange
  with assms that(5,6) show thesis by (cases "sampleReady s") (simp_all add: hs_processTask.simps)
next
  case LoadSample
  with assms show thesis by (auto simp: hs_processTask.simps Let_def intro: that(7))
qed (use assms in \<open>simp add: hs_processTask.simps\<close>)

lemma hs_main_cases:
  assumes "hs_main s = Some t"
  obtains (join) "main_at s = MainPrint []" "t = s\<lparr>main_at := MainJoin\<rparr>"
  | (print) l ls where "main_at s = MainPrint (l # ls)" "t = s\<lparr>terminal := terminal s @ [l], main_at := MainPrint ls\<rparr>"
  | (joined) line where "main_at s = MainJoin" "collector_at s = CollectDone" "processor_at s = ProcessDone"
      "t = s\<lparr>terminal := terminal s @ [line], main_at := MainDone\<rparr>"
proof (cases "main_at s")
  case (MainPrint ls)
  with assms that(1,2) show thesis by (cases ls) (simp_all add: hs_main.simps)
next
  case MainJoin
  with assms show thesis by (auto simp: hs_main.simps split: if_splits intro: that(3))
qed (use assms in \<open>simp add: hs_main.simps\<close>)

lemma handshake_inv_collect:
  assumes "hs_collectTask s = Some t" and "handshake_inv s"
  shows "handshake_inv t"
  using assms(1)
  by (cases rule: hs_collectTask_cases)
    (use assms(2) in \<open>auto simp: handshake_inv_def claimed_def hs_kTotalSamples_def\<close>)

lemma handshake_inv_main:
  assumes "hs_main s = Some t" and "handshake_inv s"
  shows "handshake_inv t"
  using assms(1)
  by (cases rule: hs_main_cases) (use assms(2) in \<open>auto simp: handshake_inv_def claimed_def\<close>)

text \<open>Between its exchange and its load the processor can be overtaken by one sample, not by more.\<close>

lemma loaded_sample:
  assumes "handshake_inv s" and "processor_at s = LoadSample"
  shows "latestSample s \<in> {21 + length (processed s), 22 + length (processed s)} \<and> latestSample s \<le> 20 + hs_kTotalSamples"
proof (cases "collector_at s")
qed (use assms in \<open>auto simp: handshake_inv_def claimed_def hs_kTotalSamples_def split: if_splits\<close>)

lemma handshake_inv_process:
  assumes "hs_processTask processor_id s = Some t" and "handshake_inv s"
  shows "handshake_inv t"
  using assms(1)
proof (cases rule: hs_processTask_cases)
  case (load line)
  with loaded_sample [OF assms(2)] assms(2) show ?thesis
    by (auto simp: handshake_inv_def claimed_def nth_append less_Suc_eq)
qed (use assms(2) in \<open>auto simp: handshake_inv_def claimed_def\<close>)

lemma handshake_inv_start: "handshake_inv (hs_start main_id collector_id processor_id)"
  by (simp add: handshake_inv_def hs_start_def claimed_def hs_kTotalSamples_def)

section \<open>Progress\<close>

text \<open>
  The steps that are not mere polling: the collector does not reread a flag that is set, and the
  processor does not look for a sample while there is none and more can come.
\<close>

inductive hs_useful :: "string \<Rightarrow> handshake \<Rightarrow> handshake \<Rightarrow> bool" for processor_id where
  collect: "hs_collectTask s = Some t \<Longrightarrow> t \<noteq> s \<Longrightarrow> hs_useful processor_id s t"
| process: "hs_processTask processor_id s = Some t \<Longrightarrow>
    sampleReady s \<or> collectionFinished s \<or> processor_at s = LoadSample \<Longrightarrow> hs_useful processor_id s t"
| main: "hs_main s = Some t \<Longrightarrow> hs_useful processor_id s t"

fun collector_weight :: "collector_pc \<Rightarrow> nat" where
  "collector_weight (CollectWait i) = 12 * (6 - i)"
| "collector_weight (CollectStore i) = 12 * (6 - i) - 1"
| "collector_weight (CollectReady i) = 12 * (6 - i) - 2"
| "collector_weight CollectFinish = 2"
| "collector_weight CollectDone = 0"

fun processor_weight :: "bool \<Rightarrow> processor_pc \<Rightarrow> nat" where
  "processor_weight ready LoadSample = (if ready then 10 else 5)"
| "processor_weight ready Exchange = (if ready then 7 else 4)"
| "processor_weight ready TestFinished = (if ready then 9 else 3)"
| "processor_weight ready TestReady = (if ready then 8 else 2)"
| "processor_weight ready ProcessDone = 0"

fun main_weight :: "main_pc \<Rightarrow> nat" where
  "main_weight (MainPrint ls) = length ls + 2"
| "main_weight MainJoin = 1"
| "main_weight MainDone = 0"

definition hs_weight :: "handshake \<Rightarrow> nat" where
  "hs_weight s = collector_weight (collector_at s) + processor_weight (sampleReady s) (processor_at s) +
     main_weight (main_at s)"

definition hs_finished :: "handshake \<Rightarrow> bool" where
  "hs_finished s \<longleftrightarrow> main_at s = MainDone"

lemma hs_weight_useful:
  assumes "handshake_inv s" and "hs_useful processor_id s t"
  shows "hs_weight t < hs_weight s"
  using assms(2)
proof cases
  case collect
  from collect(1) show ?thesis
  proof (cases rule: hs_collectTask_cases)
    case (announce i)
    with assms(1) have "processor_at s \<noteq> ProcessDone" "\<not> sampleReady s" by (auto simp: handshake_inv_def)
    with announce show ?thesis by (cases "processor_at s") (auto simp: hs_weight_def)
  next
    case (announce_last i)
    with assms(1) have "i = 5" "processor_at s \<noteq> ProcessDone" "\<not> sampleReady s"
      by (auto simp: handshake_inv_def hs_kTotalSamples_def)
    with announce_last show ?thesis by (cases "processor_at s") (auto simp: hs_weight_def)
  qed (use assms(1) collect(2) in \<open>auto simp: hs_weight_def handshake_inv_def hs_kTotalSamples_def\<close>)
next
  case process
  from process(1) show ?thesis
    by (cases rule: hs_processTask_cases) (use process(2) assms(1) in \<open>auto simp: hs_weight_def handshake_inv_def\<close>)
next
  case main
  then show ?thesis by (cases rule: hs_main_cases) (auto simp: hs_weight_def)
qed

lemma hs_progress:
  assumes "handshake_inv s" and "\<not> hs_finished s"
  shows "\<exists>t. hs_useful processor_id s t"
proof (cases "collector_at s = CollectDone")
  case True
  show ?thesis
  proof (cases "processor_at s = ProcessDone")
    case True
    with \<open>collector_at s = CollectDone\<close> assms(2) have "hs_main s \<noteq> None"
      by (auto simp: hs_main.simps hs_finished_def split: main_pc.splits list.splits)
    then show ?thesis by (blast intro: hs_useful.main)
  next
    case False
    then have "hs_processTask processor_id s \<noteq> None"
      by (auto simp: hs_processTask.simps Let_def split: processor_pc.splits)
    moreover have "collectionFinished s" using True assms(1) by (simp add: handshake_inv_def)
    ultimately show ?thesis by (blast intro: hs_useful.process)
  qed
next
  case False
  show ?thesis
  proof (cases "sampleReady s")
    case True
    with assms(1) \<open>collector_at s \<noteq> CollectDone\<close> have "processor_at s \<noteq> ProcessDone" by (auto simp: handshake_inv_def)
    then have "hs_processTask processor_id s \<noteq> None"
      by (auto simp: hs_processTask.simps Let_def split: processor_pc.splits)
    with True show ?thesis by (blast intro: hs_useful.process)
  next
    case False
    with \<open>collector_at s \<noteq> CollectDone\<close> obtain t where t: "hs_collectTask s = Some t" "collector_at t \<noteq> collector_at s"
      by (cases "collector_at s") (auto simp: hs_collectTask.simps Let_def)
    then have "t \<noteq> s" by blast
    with t(1) show ?thesis by (blast intro: hs_useful.collect)
  qed
qed

lemma hs_useful_step: "hs_useful processor_id s t \<Longrightarrow> hs_step processor_id s t"
  by (auto elim: hs_useful.cases intro: hs_step.intros)

lemma handshake_inv_step:
  assumes "hs_step processor_id s t" and "handshake_inv s"
  shows "handshake_inv t"
  using assms(1)
  by cases (use assms(2) in \<open>blast intro: handshake_inv_collect handshake_inv_process handshake_inv_main\<close>)+

interpretation hs: invariant_system "\<lambda>s. \<exists>main_id collector_id processor_id. s = hs_start main_id collector_id processor_id"
  "hs_step processor_id" handshake_inv for processor_id
  by unfold_locales (blast intro: handshake_inv_start handshake_inv_step)+

interpretation hs_useful: terminating_system
  "\<lambda>s. \<exists>main_id collector_id processor_id. s = hs_start main_id collector_id processor_id"
  "hs_useful processor_id" handshake_inv hs_finished hs_weight for processor_id
proof unfold_locales
  show "handshake_inv s"
    if "\<exists>main_id collector_id processor_id. s = hs_start main_id collector_id processor_id" for s
    using that handshake_inv_start by blast
qed (blast intro: handshake_inv_step hs_useful_step hs_weight_useful hs_progress)+

section \<open>Runs in which the collector is never too fast\<close>

text \<open>
  The collector does not store a sample while the processor is between its exchange and its load;
  this is what the sleep of 200 milliseconds after each sample is to ensure.
\<close>

fun storing :: "collector_pc \<Rightarrow> bool" where
  "storing (CollectStore i) = True"
| "storing _ = False"

inductive hs_patient :: "string \<Rightarrow> handshake \<Rightarrow> handshake \<Rightarrow> bool" for processor_id where
  collect: "hs_collectTask s = Some t \<Longrightarrow>
    storing (collector_at s) \<longrightarrow> processor_at s \<noteq> LoadSample \<Longrightarrow> hs_patient processor_id s t"
| process: "hs_processTask processor_id s = Some t \<Longrightarrow> hs_patient processor_id s t"
| main: "hs_main s = Some t \<Longrightarrow> hs_patient processor_id s t"

definition patient_inv :: "handshake \<Rightarrow> bool" where
  "patient_inv s \<longleftrightarrow> handshake_inv s \<and> processed s = map (\<lambda>k. 21 + k) [0..<length (processed s)] \<and>
     (processor_at s = LoadSample \<longrightarrow> \<not> sampleReady s \<and> (\<forall>i. collector_at s \<noteq> CollectReady i))"

lemma patient_load:
  assumes "patient_inv s" and "processor_at s = LoadSample"
  shows "latestSample s = 21 + length (processed s)"
  using assms by (cases "collector_at s") (auto simp: patient_inv_def handshake_inv_def claimed_def)

lemma patient_inv_step:
  assumes "hs_patient processor_id s t" and "patient_inv s"
  shows "patient_inv t"
proof -
  have "hs_step processor_id s t" using assms(1) by (auto elim: hs_patient.cases intro: hs_step.intros)
  with assms(2) have inv: "handshake_inv t" by (blast intro: handshake_inv_step dest: patient_inv_def [THEN iffD1])
  from assms(1) show ?thesis
  proof cases
    case collect
    from collect(1) show ?thesis
      by (cases rule: hs_collectTask_cases) (use collect(2) assms(2) inv in \<open>auto simp: patient_inv_def\<close>)
  next
    case process
    then show ?thesis
    proof (cases rule: hs_processTask_cases)
      case (load line)
      with patient_load [OF assms(2)] assms(2) inv show ?thesis by (auto simp: patient_inv_def)
    next
      case claim
      with assms(2) inv show ?thesis by (auto simp: patient_inv_def handshake_inv_def)
    qed (use assms(2) inv in \<open>auto simp: patient_inv_def\<close>)
  next
    case main
    then show ?thesis by (cases rule: hs_main_cases) (use assms(2) inv in \<open>auto simp: patient_inv_def\<close>)
  qed
qed

interpretation patient: invariant_system
  "\<lambda>s. \<exists>main_id collector_id processor_id. s = hs_start main_id collector_id processor_id"
  "hs_patient processor_id" patient_inv for processor_id
proof unfold_locales
  show "patient_inv s" if "\<exists>main_id collector_id processor_id. s = hs_start main_id collector_id processor_id" for s
    using that handshake_inv_start by (auto simp: patient_inv_def hs_start_def)
qed (rule patient_inv_step)

text \<open>A schedule in which the collector is patient.\<close>

fun patient_schedule :: "string \<Rightarrow> hs_thread list \<Rightarrow> handshake \<Rightarrow> bool" where
  "patient_schedule processor_id [] s = True"
| "patient_schedule processor_id (c # cs) s =
     ((c = Collector \<and> storing (collector_at s) \<longrightarrow> processor_at s \<noteq> LoadSample) \<and>
      patient_schedule processor_id cs (case hs_move processor_id c s of None \<Rightarrow> s | Some t \<Rightarrow> t))"

lemma patient_run: "patient_schedule processor_id cs s \<Longrightarrow> (hs_patient processor_id)\<^sup>*\<^sup>* s (hs_run processor_id cs s)"
proof (induction cs arbitrary: s)
  case (Cons c cs)
  have "hs_patient processor_id s t" if "hs_move processor_id c s = Some t" for t
    using that Cons.prems by (cases c) (auto intro: hs_patient.intros)
  with Cons show ?case by (auto split: option.splits intro: converse_rtranclp_into_rtranclp)
qed simp

section \<open>Properties\<close>

text \<open>
  A sample can be lost: the processor clears the flag before it reads the sample, and in
  between the collector can store the next one. There is a run in which sample 21 is never seen and
  sample 22 is processed twice; only the sleep in the collector makes this unlikely.
\<close>

lemma handshake_lost_sample:
  "\<exists>s. (hs_step ''3'')\<^sup>*\<^sup>* (hs_start ''1'' ''2'' ''3'') s \<and> hs_finished s \<and> processed s = [22, 22, 23, 24, 25]"
proof -
  let ?s = "hs_run ''3''
    ([Collector, Collector, Collector, Processor, Processor, Collector, Collector, Processor] @
     concat (replicate 60 [Processor, Collector, Main])) (hs_start ''1'' ''2'' ''3'')"
  have "hs_finished ?s" "processed ?s = [22, 22, 23, 24, 25]" by code_simp+
  then show ?thesis using hs_run_reaches by blast
qed

text \<open>
  Claim C36. The handshake without a lock counts right: in every run that ends, under every
  interleaving of the accesses to the atomic variables, the processor has taken exactly five samples
  and says so; the sample it took as number \<open>k\<close> was number \<open>k\<close> or number \<open>k + 1\<close> of the collector. From
  every state a run can reach, it can still end. More cannot be said: there is a run in which the
  first sample is lost and the second one is processed twice.
\<close>

theorem handshake_counts:
  assumes "(hs_step processor_id)\<^sup>*\<^sup>* (hs_start main_id collector_id processor_id) s"
  shows "(hs_finished s \<longrightarrow> length (processed s) = 5 \<and> ''[PROCESS]finished,total=5'' \<in> set (terminal s) \<and>
      (\<forall>k < 5. processed s ! k \<in> {21 + k, 22 + k} \<and> processed s ! k \<le> 25)) \<and>
    (\<exists>t. (hs_step processor_id)\<^sup>*\<^sup>* s t \<and> hs_finished t) \<and>
    (\<exists>t. (hs_step ''3'')\<^sup>*\<^sup>* (hs_start ''1'' ''2'' ''3'') t \<and> hs_finished t \<and> processed t = [22, 22, 23, 24, 25])"
proof (intro conjI)
  show "\<exists>t. (hs_step ''3'')\<^sup>*\<^sup>* (hs_start ''1'' ''2'' ''3'') t \<and> hs_finished t \<and> processed t = [22, 22, 23, 24, 25]"
    by (rule handshake_lost_sample)
  have inv: "handshake_inv s" by (rule hs.inv_reachable [OF _ assms]) blast
  have "length (processed s) = 5 \<and> ''[PROCESS]finished,total=5'' \<in> set (terminal s) \<and>
      (\<forall>k < 5. processed s ! k \<in> {21 + k, 22 + k} \<and> processed s ! k \<le> 25)" if fin: "hs_finished s"
  proof -
    from fin inv have "length (processed s) = 5" by (auto simp: hs_finished_def handshake_inv_def claimed_def hs_kTotalSamples_def)
    moreover have "to_string 5 = ''5''" by code_simp
    ultimately show ?thesis
      using fin inv by (auto simp: hs_finished_def handshake_inv_def hs_kTotalSamples_def)
  qed
  then show "hs_finished s \<longrightarrow> length (processed s) = 5 \<and> ''[PROCESS]finished,total=5'' \<in> set (terminal s) \<and>
      (\<forall>k < 5. processed s ! k \<in> {21 + k, 22 + k} \<and> processed s ! k \<le> 25)" ..
  from hs_useful.completes [OF inv, of processor_id] obtain t
    where t: "(hs_useful processor_id)\<^sup>*\<^sup>* s t" "hs_finished t" by blast
  have "hs_useful processor_id \<le> hs_step processor_id" by (auto intro: hs_useful_step)
  from rtranclp_mono [OF this] t show "\<exists>t. (hs_step processor_id)\<^sup>*\<^sup>* s t \<and> hs_finished t" by blast
qed

text \<open>The three threads in turn.\<close>

theorem handshake_counts_witness:
  "let s = hs_run ''3'' (concat (replicate 60 [Collector, Processor, Main])) (hs_start ''1'' ''2'' ''3'')
   in hs_finished s \<and> length (processed s) = 5"
proof -
  let ?s = "hs_run ''3'' (concat (replicate 60 [Collector, Processor, Main])) (hs_start ''1'' ''2'' ''3'')"
  have "hs_finished ?s" by code_simp
  with handshake_counts [OF hs_run_reaches] show ?thesis by (simp only: Let_def simp_thms)
qed

text \<open>
  When the collector is never so fast, that is, when it stores no sample while the
  processor is between its exchange and its load, the processor gets every sample once and in
  order.
\<close>

theorem handshake_patient:
  assumes "(hs_patient processor_id)\<^sup>*\<^sup>* (hs_start main_id collector_id processor_id) s"
  shows "processed s = map (\<lambda>k. 21 + k) [0..<length (processed s)] \<and>
    (hs_finished s \<longrightarrow> processed s = [21, 22, 23, 24, 25])"
proof -
  have inv: "patient_inv s" by (rule patient.inv_reachable [OF _ assms]) blast
  then have "processed s = map (\<lambda>k. 21 + k) [0..<length (processed s)]" by (simp only: patient_inv_def)
  moreover have "length (processed s) = 5" if "hs_finished s"
    using that inv by (auto simp: patient_inv_def hs_finished_def handshake_inv_def claimed_def hs_kTotalSamples_def)
  moreover have "map (\<lambda>k. 21 + k) [0..<5] = [21, 22, 23, 24, 25 :: nat]" by code_simp
  ultimately show ?thesis by metis
qed

theorem handshake_patient_witness:
  "let s = hs_run ''3'' (concat (replicate 60 [Collector, Processor, Main])) (hs_start ''1'' ''2'' ''3'')
   in hs_finished s \<and> processed s = [21, 22, 23, 24, 25]"
proof -
  let ?cs = "concat (replicate 60 [Collector, Processor, Main])"
  have "hs_finished (hs_run ''3'' ?cs (hs_start ''1'' ''2'' ''3''))" "patient_schedule ''3'' ?cs (hs_start ''1'' ''2'' ''3'')"
    by code_simp+
  with handshake_patient [OF patient_run, of "''3''" ?cs "''1''" "''2''"] show ?thesis
    by (simp only: Let_def simp_thms)
qed

end
