(* ===== verification/Ownership.thy ===== *)
theory Ownership
  imports Prelude
begin

text \<open>
  The two classes that own a resource: \<^verbatim>\<open>Buffer\<close> of \<^verbatim>\<open>move_semantics_demo/main.cpp\<close>, which owns an array
  on the heap and can be copied and moved, and \<^verbatim>\<open>ScopedFd\<close> of \<^verbatim>\<open>practice/day02/scoped_fd.cpp\<close>, which owns
  a file descriptor and can only be moved. The heap, the table of descriptors and the objects are
  explicit: an object is known by the address (a number) that \<^verbatim>\<open>this\<close> has, so that the tests for
  self-assignment are tests of addresses, and a pointer is the number of a block, or \<open>None\<close> for
  \<^verbatim>\<open>nullptr\<close>. What breaks the memory (freeing a block twice, reading past its end or after it is freed, using
  an object outside its lifetime) is an outcome of its own, and that it does not occur is proved. Reading
  an element that was never initialised, which the language leaves undefined as well, is counted: the
  class does it in every copy of a buffer that is not empty, and how often is proved.
\<close>

section \<open>Exclusive ownership\<close>

text \<open>
  Objects hold at most one handle each; every handle that is live is held by exactly one object, and
  only live handles are held. The lemmas are those both classes need for their operations.
\<close>

definition exclusive :: "('o \<rightharpoonup> 'h option) \<Rightarrow> 'h set \<Rightarrow> bool" where
  "exclusive owners live \<longleftrightarrow>
     (\<forall>h. h \<in> live \<longleftrightarrow> (\<exists>x. owners x = Some (Some h))) \<and>
     (\<forall>x y h. owners x = Some (Some h) \<longrightarrow> owners y = Some (Some h) \<longrightarrow> x = y)"

lemma exclusive_live: "exclusive owners live \<Longrightarrow> owners x = Some (Some h) \<Longrightarrow> h \<in> live"
  by (auto simp: exclusive_def)

lemma exclusive_distinct:
  "exclusive owners live \<Longrightarrow> owners x = Some (Some h) \<Longrightarrow> owners y = Some (Some h) \<Longrightarrow> x = y"
  by (auto simp: exclusive_def)

lemma exclusive_empty: "exclusive owners live \<Longrightarrow> (\<And>x h. owners x \<noteq> Some (Some h)) \<Longrightarrow> live = {}"
  by (auto simp: exclusive_def)

lemma exclusive_acquire:
  "exclusive owners live \<Longrightarrow> h \<notin> live \<Longrightarrow> owners x = None \<or> owners x = Some None \<Longrightarrow>
     exclusive (owners(x \<mapsto> Some h)) (insert h live)"
  unfolding exclusive_def by (auto split: if_splits) (metis option.inject option.distinct(1))+

lemma exclusive_null:
  "exclusive owners live \<Longrightarrow> owners x = None \<or> owners x = Some None \<Longrightarrow> exclusive (owners(x \<mapsto> None)) live"
  unfolding exclusive_def by (auto split: if_splits) (metis option.inject option.distinct(1))+

lemma exclusive_release:
  "exclusive owners live \<Longrightarrow> owners x = Some (Some h) \<Longrightarrow> exclusive (owners(x \<mapsto> None)) (live - {h})"
  unfolding exclusive_def by (auto split: if_splits) (metis option.inject option.distinct(1))+

lemma exclusive_end:
  "exclusive owners live \<Longrightarrow> owners x = Some None \<Longrightarrow> exclusive (owners(x := None)) live"
  unfolding exclusive_def by (auto split: if_splits) (metis option.inject option.distinct(1))+

lemma exclusive_transfer:
  assumes "exclusive owners live" and "owners y = Some (Some h)" and "owners x = None \<or> owners x = Some None"
  shows "exclusive (owners(x \<mapsto> Some h, y \<mapsto> None)) live"
  using assms unfolding exclusive_def by (auto split: if_splits) (metis option.inject option.distinct(1))+

section \<open>Buffers on the heap\<close>

record Buffer =
  buf_size :: nat
  buf_data :: "nat option"

text \<open>
  A block is its elements, \<open>None\<close> while an element is not initialised. \<open>heap_room\<close> is how many elements
  the heap can still hold; \<^verbatim>\<open>new\<close> throws when that is too little. \<open>indeterminate_reads\<close> counts the reads of
  elements that are not initialised.
\<close>

record buffer_store =
  heap_blocks :: "nat \<rightharpoonup> int option list"
  heap_next :: nat
  heap_room :: nat
  indeterminate_reads :: nat
  objects :: "nat \<rightharpoonup> Buffer"
  stdout :: "string list"

datatype outcome =
  Normal buffer_store
  | BadAlloc buffer_store
  | Undefined

text \<open>The next operation of a block of code: an exception leaves the block.\<close>

fun and_then :: "outcome \<Rightarrow> (buffer_store \<Rightarrow> outcome) \<Rightarrow> outcome" where
  "and_then (Normal st) f = f st"
| "and_then (BadAlloc st) f = BadAlloc st"
| "and_then Undefined f = Undefined"

definition say :: "string \<Rightarrow> buffer_store \<Rightarrow> buffer_store" where
  "say line st = st\<lparr>stdout := stdout st @ [line]\<rparr>"

text \<open>\<^verbatim>\<open>size > 0 ? new int[size] : nullptr\<close>: the pointer and the store, or \<open>None\<close> if it throws.\<close>

definition new_array :: "nat \<Rightarrow> buffer_store \<Rightarrow> (nat option \<times> buffer_store) option" where
  "new_array n st =
     (if n = 0 then Some (None, st)
      else if heap_room st < n then None
      else Some (Some (heap_next st),
             st\<lparr>heap_blocks := (heap_blocks st)(heap_next st \<mapsto> replicate n None),
                heap_next := heap_next st + 1, heap_room := heap_room st - n\<rparr>))"

text \<open>\<^verbatim>\<open>delete[]\<close>: no effect on a null pointer, undefined on a block that is not allocated.\<close>

fun delete_array :: "nat option \<Rightarrow> buffer_store \<Rightarrow> outcome" where
  "delete_array None st = Normal st"
| "delete_array (Some p) st =
     (case heap_blocks st p of
        None \<Rightarrow> Undefined
      | Some block \<Rightarrow>
          Normal (st\<lparr>heap_blocks := (heap_blocks st)(p := None), heap_room := heap_room st + length block\<rparr>))"

text \<open>
  \<^verbatim>\<open>std::copy(src, src + n, dst)\<close>, executed only for \<open>n > 0\<close>; both blocks must have \<open>n\<close> elements. An element
  that is not initialised is read and stored as such, and the read is counted.
\<close>

definition uninitialised :: "int option list \<Rightarrow> nat" where
  "uninitialised block = length (filter (\<lambda>x. x = None) block)"

definition copy_array :: "nat option \<Rightarrow> nat \<Rightarrow> nat option \<Rightarrow> buffer_store \<Rightarrow> outcome" where
  "copy_array src n dst st =
     (if n = 0 then Normal st
      else case (src, dst) of
        (Some p, Some q) \<Rightarrow>
          (case (heap_blocks st p, heap_blocks st q) of
             (Some from, Some to) \<Rightarrow>
               if n \<le> length from \<and> n \<le> length to
               then Normal (st\<lparr>heap_blocks := (heap_blocks st)(q \<mapsto> take n from @ drop n to),
                 indeterminate_reads := indeterminate_reads st + uninitialised (take n from)\<rparr>)
               else Undefined
           | _ \<Rightarrow> Undefined)
      | _ \<Rightarrow> Undefined)"

section \<open>The class Buffer\<close>

definition set_object :: "nat \<Rightarrow> Buffer \<Rightarrow> buffer_store \<Rightarrow> buffer_store" where
  "set_object this b st = st\<lparr>objects := (objects st)(this \<mapsto> b)\<rparr>"

text \<open>The constructor; the members are initialised in the order of their declaration.\<close>

definition Buffer_construct :: "nat \<Rightarrow> nat \<Rightarrow> buffer_store \<Rightarrow> outcome" where
  "Buffer_construct this n st =
     (if objects st this \<noteq> None then Undefined
      else case new_array n st of
        None \<Rightarrow> BadAlloc st
      | Some (p, st1) \<Rightarrow>
          Normal (say (''[CONSTRUCTOR] size='' @ to_string n)
            (set_object this \<lparr>buf_size = n, buf_data = p\<rparr> st1)))"

definition Buffer_destruct :: "nat \<Rightarrow> buffer_store \<Rightarrow> outcome" where
  "Buffer_destruct this st =
     (case objects st this of
        None \<Rightarrow> Undefined
      | Some b \<Rightarrow>
          and_then (delete_array (buf_data b) st) (\<lambda>st1.
            Normal (say (''[DESTRUCTOR] size='' @ to_string (buf_size b))
              (st1\<lparr>objects := (objects st1)(this := None)\<rparr>))))"

definition Buffer_copy_construct :: "nat \<Rightarrow> nat \<Rightarrow> buffer_store \<Rightarrow> outcome" where
  "Buffer_copy_construct this other st =
     (if objects st this \<noteq> None then Undefined
      else case objects st other of
        None \<Rightarrow> Undefined
      | Some b \<Rightarrow>
          (case new_array (buf_size b) st of
             None \<Rightarrow> BadAlloc st
           | Some (p, st1) \<Rightarrow>
               and_then (copy_array (buf_data b) (buf_size b) p st1) (\<lambda>st2.
                 Normal (say (''[COPY CONSTRUCTOR] size='' @ to_string (buf_size b))
                   (set_object this \<lparr>buf_size = buf_size b, buf_data = p\<rparr> st2)))))"

definition Buffer_copy_assign :: "nat \<Rightarrow> nat \<Rightarrow> buffer_store \<Rightarrow> outcome" where
  "Buffer_copy_assign this other st =
     (case (objects st this, objects st other) of
        (Some a, Some b) \<Rightarrow>
          if this = other then Normal st
          else
            (case new_array (buf_size b) st of
               None \<Rightarrow> BadAlloc st
             | Some (newData, st1) \<Rightarrow>
                 and_then (copy_array (buf_data b) (buf_size b) newData st1) (\<lambda>st2.
                 and_then (delete_array (buf_data a) st2) (\<lambda>st3.
                   Normal (say (''[COPY ASSIGNMENT] size='' @ to_string (buf_size b))
                     (set_object this \<lparr>buf_size = buf_size b, buf_data = newData\<rparr> st3)))))
      | _ \<Rightarrow> Undefined)"

definition Buffer_move_construct :: "nat \<Rightarrow> nat \<Rightarrow> buffer_store \<Rightarrow> outcome" where
  "Buffer_move_construct this other st =
     (if objects st this \<noteq> None then Undefined
      else case objects st other of
        None \<Rightarrow> Undefined
      | Some b \<Rightarrow>
          Normal (say (''[MOVE CONSTRUCTOR] size='' @ to_string (buf_size b))
            (set_object other \<lparr>buf_size = 0, buf_data = None\<rparr>
            (set_object this \<lparr>buf_size = buf_size b, buf_data = buf_data b\<rparr> st))))"

definition Buffer_move_assign :: "nat \<Rightarrow> nat \<Rightarrow> buffer_store \<Rightarrow> outcome" where
  "Buffer_move_assign this other st =
     (case (objects st this, objects st other) of
        (Some a, Some b) \<Rightarrow>
          if this = other then Normal st
          else
            and_then (delete_array (buf_data a) st) (\<lambda>st1.
              Normal (say (''[MOVE ASSIGNMENT] size='' @ to_string (buf_size b))
                (set_object other \<lparr>buf_size = 0, buf_data = None\<rparr>
                (set_object this \<lparr>buf_size = buf_size b, buf_data = buf_data b\<rparr> st1))))
      | _ \<Rightarrow> Undefined)"

definition Buffer_size :: "Buffer \<Rightarrow> nat" where
  "Buffer_size b = buf_size b"

definition Buffer_empty :: "Buffer \<Rightarrow> bool" where
  "Buffer_empty b \<longleftrightarrow> buf_size b = 0"

section \<open>Sequences of operations\<close>

datatype buffer_op =
  Construct nat nat
  | Destruct nat
  | CopyConstruct nat nat
  | CopyAssign nat nat
  | MoveConstruct nat nat
  | MoveAssign nat nat

fun buffer_step :: "buffer_op \<Rightarrow> buffer_store \<Rightarrow> outcome" where
  "buffer_step (Construct this n) st = Buffer_construct this n st"
| "buffer_step (Destruct this) st = Buffer_destruct this st"
| "buffer_step (CopyConstruct this other) st = Buffer_copy_construct this other st"
| "buffer_step (CopyAssign this other) st = Buffer_copy_assign this other st"
| "buffer_step (MoveConstruct this other) st = Buffer_move_construct this other st"
| "buffer_step (MoveAssign this other) st = Buffer_move_assign this other st"

text \<open>The value semantics a user of the class relies on: every object has elements of its own.\<close>

fun buffer_spec :: "buffer_op \<Rightarrow> (nat \<rightharpoonup> int option list) \<Rightarrow> (nat \<rightharpoonup> int option list)" where
  "buffer_spec (Construct this n) v = v(this \<mapsto> replicate n None)"
| "buffer_spec (Destruct this) v = v(this := None)"
| "buffer_spec (CopyConstruct this other) v = v(this := v other)"
| "buffer_spec (CopyAssign this other) v = v(this := v other)"
| "buffer_spec (MoveConstruct this other) v = v(this := v other, other \<mapsto> [])"
| "buffer_spec (MoveAssign this other) v = (if this = other then v else v(this := v other, other \<mapsto> []))"

text \<open>The operation respects the lifetimes: it constructs where no object is and uses objects that are.\<close>

fun in_lifetime :: "buffer_op \<Rightarrow> (nat \<rightharpoonup> 'v) \<Rightarrow> bool" where
  "in_lifetime (Construct this n) v = (v this = None)"
| "in_lifetime (Destruct this) v = (v this \<noteq> None)"
| "in_lifetime (CopyConstruct this other) v = (v this = None \<and> v other \<noteq> None)"
| "in_lifetime (CopyAssign this other) v = (v this \<noteq> None \<and> v other \<noteq> None)"
| "in_lifetime (MoveConstruct this other) v = (v this = None \<and> v other \<noteq> None)"
| "in_lifetime (MoveAssign this other) v = (v this \<noteq> None \<and> v other \<noteq> None)"

text \<open>The elements of an object, from the members of all objects and the blocks of the heap.\<close>

definition elements :: "(nat \<rightharpoonup> Buffer) \<Rightarrow> (nat \<rightharpoonup> int option list) \<Rightarrow> nat \<rightharpoonup> int option list" where
  "elements objs hb this =
     (case objs this of
        None \<Rightarrow> None
      | Some b \<Rightarrow> (case buf_data b of None \<Rightarrow> Some [] | Some p \<Rightarrow> hb p))"

definition contents :: "buffer_store \<Rightarrow> nat \<rightharpoonup> int option list" where
  "contents st = elements (objects st) (heap_blocks st)"

definition buffer_owners :: "(nat \<rightharpoonup> Buffer) \<Rightarrow> nat \<rightharpoonup> nat option" where
  "buffer_owners objs this = map_option buf_data (objs this)"

text \<open>An object is null and empty, or its block has as many elements as it says.\<close>

definition object_ok :: "(nat \<rightharpoonup> int option list) \<Rightarrow> Buffer \<Rightarrow> bool" where
  "object_ok hb b =
     (case buf_data b of
        None \<Rightarrow> buf_size b = 0
      | Some p \<Rightarrow> 0 < buf_size b \<and> map_option length (hb p) = Some (buf_size b))"

definition members_ok :: "(nat \<rightharpoonup> Buffer) \<Rightarrow> (nat \<rightharpoonup> int option list) \<Rightarrow> nat \<Rightarrow> bool" where
  "members_ok objs hb next \<longleftrightarrow> exclusive (buffer_owners objs) (dom hb) \<and> (\<forall>p \<in> dom hb. p < next) \<and>
     (\<forall>this b. objs this = Some b \<longrightarrow> object_ok hb b)"

definition store_ok :: "buffer_store \<Rightarrow> bool" where
  "store_ok st = members_ok (objects st) (heap_blocks st) (heap_next st)"

section \<open>Every operation keeps the ownership\<close>

lemma owners_update [simp]:
  "buffer_owners (objs(this \<mapsto> b)) = (buffer_owners objs)(this \<mapsto> buf_data b)"
  "buffer_owners (objs(this := None)) = (buffer_owners objs)(this := None)"
  by (auto simp: buffer_owners_def)

lemma owners_eq:
  "buffer_owners objs this = None \<longleftrightarrow> objs this = None"
  "buffer_owners objs this = Some d \<longleftrightarrow> (\<exists>b. objs this = Some b \<and> buf_data b = d)"
  by (auto simp: buffer_owners_def)

lemma elements_update:
  "elements (objs(this := None)) hb = (elements objs hb)(this := None)"
  "elements (objs(this \<mapsto> \<lparr>buf_size = n, buf_data = None\<rparr>)) hb = (elements objs hb)(this \<mapsto> [])"
  "elements (objs(this \<mapsto> \<lparr>buf_size = n, buf_data = Some p\<rparr>)) hb = (elements objs hb)(this := hb p)"
  by (auto simp: elements_def fun_eq_iff)

lemma elements_heap:
  assumes "\<And>x b. objs x = Some b \<Longrightarrow> buf_data b \<noteq> Some p"
  shows "elements objs (hb(p := c)) = elements objs hb"
  using assms by (auto simp: elements_def fun_eq_iff split: option.split)

lemma object_ok_other: "object_ok hb b \<Longrightarrow> buf_data b \<noteq> Some p \<Longrightarrow> object_ok (hb(p := x)) b"
  by (auto simp: object_ok_def split: option.splits)

lemma object_ok_own: "c \<noteq> [] \<Longrightarrow> object_ok (hb(p \<mapsto> c)) \<lparr>buf_size = length c, buf_data = Some p\<rparr>"
  by (simp add: object_ok_def)

abbreviation null_buffer :: Buffer where
  "null_buffer \<equiv> \<lparr>buf_size = 0, buf_data = None\<rparr>"

lemma object_ok_null [simp]: "object_ok hb null_buffer"
  by (simp add: object_ok_def)

lemma members_okD:
  assumes "members_ok objs hb next"
  shows "exclusive (buffer_owners objs) (dom hb)" "p \<in> dom hb \<Longrightarrow> p < next" "objs this = Some b \<Longrightarrow> object_ok hb b"
  using assms by (auto simp: members_ok_def)

lemma object_cases:
  assumes "members_ok objs hb next" and "objs this = Some b"
  obtains (null) "b = null_buffer" "elements objs hb this = Some []" "buffer_owners objs this = Some None"
  | (block) p block where "b = \<lparr>buf_size = length block, buf_data = Some p\<rparr>" "block \<noteq> []" "hb p = Some block"
    "elements objs hb this = Some block" "buffer_owners objs this = Some (Some p)" "p < next"
proof (cases "buf_data b")
  case None
  with members_okD(3) [OF assms] have "buf_size b = 0" by (simp add: object_ok_def)
  with None assms(2) show thesis by (intro null) (simp_all add: elements_def buffer_owners_def)
next
  case (Some p)
  with members_okD(3) [OF assms] obtain block where "0 < buf_size b" "hb p = Some block" "length block = buf_size b"
    by (auto simp: object_ok_def)
  moreover from this members_okD(2) [OF assms(1)] have "p < next" by auto
  ultimately show thesis using Some assms(2)
    by (intro block [of block p]) (auto simp: elements_def buffer_owners_def)
qed

text \<open>
  The five changes of ownership of which the operations are composed: an object is given a fresh
  block, made null, gives up its block, ends, or hands its block to another object.
\<close>

lemma give_block:
  assumes ok: "members_ok objs hb next" and target: "objs this = None \<or> objs this = Some null_buffer" and "c \<noteq> []"
  shows "members_ok (objs(this \<mapsto> \<lparr>buf_size = length c, buf_data = Some next\<rparr>)) (hb(next \<mapsto> c)) (Suc next) \<and>
    elements (objs(this \<mapsto> \<lparr>buf_size = length c, buf_data = Some next\<rparr>)) (hb(next \<mapsto> c)) = (elements objs hb)(this \<mapsto> c)"
proof -
  have fresh: "next \<notin> dom hb" using members_okD(2) [OF ok] by auto
  have unused: "buf_data b \<noteq> Some next" if "objs x = Some b" for x b
    using ok that by (cases rule: object_cases) auto
  have "buffer_owners objs this = None \<or> buffer_owners objs this = Some None" using target by (auto simp: owners_eq)
  from exclusive_acquire [OF members_okD(1) [OF ok] fresh this]
  have "members_ok (objs(this \<mapsto> \<lparr>buf_size = length c, buf_data = Some next\<rparr>)) (hb(next \<mapsto> c)) (Suc next)"
    using members_okD(2,3) [OF ok] unused object_ok_own [OF assms(3)]
    by (auto simp: members_ok_def less_Suc_eq intro: object_ok_other)
  with unused show ?thesis by (simp add: elements_update elements_heap)
qed

lemma make_null:
  assumes ok: "members_ok objs hb next" and target: "objs this = None \<or> objs this = Some null_buffer"
  shows "members_ok (objs(this \<mapsto> null_buffer)) hb next"
proof -
  have "buffer_owners objs this = None \<or> buffer_owners objs this = Some None" using target by (auto simp: owners_eq)
  from exclusive_null [OF members_okD(1) [OF ok] this] ok show ?thesis by (auto simp: members_ok_def)
qed

lemma end_null:
  assumes ok: "members_ok objs hb next" and "objs this = Some null_buffer"
  shows "members_ok (objs(this := None)) hb next"
proof -
  have "buffer_owners objs this = Some None" using assms(2) by (simp add: owners_eq)
  from exclusive_end [OF members_okD(1) [OF ok] this] ok show ?thesis by (auto simp: members_ok_def)
qed

lemma give_up_block:
  assumes ok: "members_ok objs hb next" and target: "buffer_owners objs this = Some (Some p)"
  shows "members_ok (objs(this \<mapsto> null_buffer)) (hb(p := None)) next \<and>
    elements (objs(this \<mapsto> null_buffer)) (hb(p := None)) = (elements objs hb)(this \<mapsto> [])"
proof -
  have others: "buf_data b \<noteq> Some p" if "objs x = Some b" "x \<noteq> this" for x b
    using exclusive_distinct [OF members_okD(1) [OF ok] target, of x] that by (auto simp: owners_eq)
  have "elements (objs(this \<mapsto> null_buffer)) (hb(p := None)) = elements (objs(this \<mapsto> null_buffer)) hb"
    by (rule elements_heap) (use others in \<open>auto split: if_splits\<close>)
  moreover from exclusive_release [OF members_okD(1) [OF ok] target] members_okD(2,3) [OF ok] others
  have "members_ok (objs(this \<mapsto> null_buffer)) (hb(p := None)) next"
    by (auto simp: members_ok_def intro: object_ok_other)
  ultimately show ?thesis by (simp add: elements_update)
qed

lemma hand_over:
  assumes ok: "members_ok objs hb next" and other: "objs other = Some b" and "this \<noteq> other"
    and target: "objs this = None \<or> objs this = Some null_buffer"
  shows "members_ok (objs(this \<mapsto> b, other \<mapsto> null_buffer)) hb next \<and>
    elements (objs(this \<mapsto> b, other \<mapsto> null_buffer)) hb =
      (elements objs hb)(this := elements objs hb other, other \<mapsto> [])"
proof -
  have before: "buffer_owners objs this = None \<or> buffer_owners objs this = Some None" using target by (auto simp: owners_eq)
  note ex = members_okD(1) [OF ok]
  have "exclusive (buffer_owners (objs(this \<mapsto> b, other \<mapsto> null_buffer))) (dom hb)"
    using ok other
  proof (cases rule: object_cases)
    case null
    from exclusive_null [OF exclusive_null [OF ex before], of other] null assms(3) show ?thesis by simp
  next
    case (block p block)
    from exclusive_transfer [OF ex block(5) before] block show ?thesis by simp
  qed
  with members_okD(2,3) [OF ok] other have "members_ok (objs(this \<mapsto> b, other \<mapsto> null_buffer)) hb next"
    by (auto simp: members_ok_def)
  moreover have "elements (objs(this \<mapsto> b)) hb = (elements objs hb)(this := elements objs hb other)"
    using other by (auto simp: elements_def fun_eq_iff)
  ultimately show ?thesis by (simp add: elements_update)
qed

text \<open>How many elements an operation asks the heap for.\<close>

fun requested :: "buffer_op \<Rightarrow> (nat \<rightharpoonup> int option list) \<Rightarrow> nat" where
  "requested (Construct this n) v = n"
| "requested (CopyConstruct this other) v = length (the (v other))"
| "requested (CopyAssign this other) v = (if this = other then 0 else length (the (v other)))"
| "requested _ v = 0"

text \<open>How many elements that are not initialised an operation reads.\<close>

fun indeterminate :: "buffer_op \<Rightarrow> (nat \<rightharpoonup> int option list) \<Rightarrow> nat" where
  "indeterminate (CopyConstruct this other) v = uninitialised (the (v other))"
| "indeterminate (CopyAssign this other) v = (if this = other then 0 else uninitialised (the (v other)))"
| "indeterminate _ v = 0"

text \<open>
  The outcome of an operation that keeps the store in order and has the effect that is specified, or
  throws, with nothing changed, because the heap has no room.
\<close>

definition implements :: "outcome \<Rightarrow> buffer_op \<Rightarrow> buffer_store \<Rightarrow> bool" where
  "implements result op st \<longleftrightarrow>
     (\<exists>st'. result = Normal st' \<and> store_ok st' \<and> contents st' = buffer_spec op (contents st) \<and>
        indeterminate_reads st' = indeterminate_reads st + indeterminate op (contents st)) \<or>
     (result = BadAlloc st \<and> heap_room st < requested op (contents st))"

lemma implementsI:
  assumes "result = Normal st'" and "store_ok st'" and "contents st' = buffer_spec op (contents st)"
    and "indeterminate_reads st' = indeterminate_reads st + indeterminate op (contents st)"
  shows "implements result op st"
  using assms by (auto simp: implements_def)

lemma buffer_eta: "\<lparr>buf_size = buf_size b, buf_data = buf_data b\<rparr> = b"
  by (cases b) simp

lemmas store_simps = store_ok_def contents_def set_object_def say_def

lemma construct_implements:
  assumes "store_ok st" and "objects st this = None"
  shows "implements (Buffer_construct this n st) (Construct this n) st"
proof (cases "n = 0")
  case True
  with assms show ?thesis
    by (simp add: implements_def Buffer_construct_def new_array_def store_simps make_null elements_update)
next
  case False
  then have "replicate n (None :: int option) \<noteq> []" by simp
  from give_block [OF assms(1) [unfolded store_ok_def] disjI1 [OF assms(2)] this] False assms show ?thesis
    by (simp add: implements_def Buffer_construct_def new_array_def store_simps)
qed

text \<open>What \<^verbatim>\<open>delete[]\<close> leaves of the heap, and the elements of the objects when a block is given up.\<close>

fun without :: "nat option \<Rightarrow> (nat \<rightharpoonup> 'b) \<Rightarrow> (nat \<rightharpoonup> 'b)" where
  "without None hb = hb"
| "without (Some p) hb = hb(p := None)"

lemma target_released:
  assumes ok: "members_ok objs hb next" and a: "objs this = Some a"
  shows "members_ok (objs(this \<mapsto> null_buffer)) (without (buf_data a) hb) next \<and>
    elements (objs(this \<mapsto> null_buffer)) (without (buf_data a) hb) = (elements objs hb)(this \<mapsto> [])"
  using ok a
proof (cases rule: object_cases)
  case null
  with a have "objs(this \<mapsto> null_buffer) = objs" "(elements objs hb)(this \<mapsto> []) = elements objs hb" by auto
  with null ok show ?thesis by simp
next
  case (block p block)
  with give_up_block [OF ok block(5)] show ?thesis by simp
qed

lemma delete_released:
  assumes ok: "members_ok objs hb next" and a: "objs this = Some a"
  shows "\<exists>r. delete_array (buf_data a) (st\<lparr>heap_blocks := hb\<rparr>) = Normal (st\<lparr>heap_blocks := without (buf_data a) hb, heap_room := r\<rparr>)
    \<and> (\<forall>c. delete_array (buf_data a) (st\<lparr>heap_blocks := hb(next \<mapsto> c)\<rparr>) =
      Normal (st\<lparr>heap_blocks := (without (buf_data a) hb)(next \<mapsto> c), heap_room := r\<rparr>))"
  using ok a
proof (cases rule: object_cases)
  case null
  have "st\<lparr>heap_blocks := hb'\<rparr> = st\<lparr>heap_blocks := hb', heap_room := heap_room st\<rparr>" for hb' by simp
  with null show ?thesis by (intro exI [of _ "heap_room st"]) simp
next
  case (block p block)
  then show ?thesis by (intro exI [of _ "heap_room st + length block"]) (simp add: fun_upd_twist)
qed

lemma destruct_implements:
  assumes "store_ok st" and "objects st this = Some b"
  shows "implements (Buffer_destruct this st) (Destruct this) st"
proof -
  note ok = assms(1) [unfolded store_ok_def]
  from delete_released [OF ok assms(2), of st] obtain r where r:
    "delete_array (buf_data b) st = Normal (st\<lparr>heap_blocks := without (buf_data b) (heap_blocks st), heap_room := r\<rparr>)" by auto
  from target_released [OF ok assms(2)] have rel:
    "members_ok ((objects st)(this \<mapsto> null_buffer)) (without (buf_data b) (heap_blocks st)) (heap_next st)"
    "elements ((objects st)(this \<mapsto> null_buffer)) (without (buf_data b) (heap_blocks st)) =
      (elements (objects st) (heap_blocks st))(this \<mapsto> [])" by blast+
  have "(elements (objects st) (without (buf_data b) (heap_blocks st)))(this := None) =
      (elements (objects st) (heap_blocks st))(this := None)"
    using arg_cong [OF rel(2), of "\<lambda>f. f(this := None)"] by (simp add: elements_update)
  moreover have "members_ok ((objects st)(this := None)) (without (buf_data b) (heap_blocks st)) (heap_next st)"
    using end_null [OF rel(1), of this] by simp
  ultimately show ?thesis
    using r assms(2) by (simp add: implements_def Buffer_destruct_def store_simps elements_update)
qed

lemma copy_to_fresh:
  assumes "heap_blocks st p = Some block" and "block \<noteq> []" and "p < heap_next st"
  shows "copy_array (Some p) (length block) (Some (heap_next st))
      (st\<lparr>heap_blocks := (heap_blocks st)(heap_next st \<mapsto> replicate (length block) None), heap_next := n, heap_room := r\<rparr>) =
    Normal (st\<lparr>heap_blocks := (heap_blocks st)(heap_next st \<mapsto> block), heap_next := n, heap_room := r,
      indeterminate_reads := indeterminate_reads st + uninitialised block\<rparr>)"
  using assms by (simp add: copy_array_def)

lemma copy_construct_implements:
  assumes "store_ok st" and "objects st this = None" and "objects st other = Some b"
  shows "implements (Buffer_copy_construct this other st) (CopyConstruct this other) st"
  using assms(1) [unfolded store_ok_def] assms(3)
proof (cases rule: object_cases)
  case null
  with assms show ?thesis
    by (simp add: implements_def Buffer_copy_construct_def new_array_def copy_array_def store_simps make_null elements_update
        uninitialised_def)
next
  case (block p block)
  with assms give_block [OF assms(1) [unfolded store_ok_def] disjI1 [OF assms(2)] block(2)] copy_to_fresh [OF block(3,2,6)]
  show ?thesis by (simp add: implements_def Buffer_copy_construct_def new_array_def store_simps)
qed

lemma move_construct_implements:
  assumes "store_ok st" and "objects st this = None" and "objects st other = Some b"
  shows "implements (Buffer_move_construct this other st) (MoveConstruct this other) st"
proof -
  have "this \<noteq> other" using assms(2,3) by auto
  from hand_over [OF assms(1) [unfolded store_ok_def] assms(3) this disjI1 [OF assms(2)]] assms show ?thesis
    by (simp add: implements_def Buffer_move_construct_def store_simps buffer_eta)
qed

lemma move_assign_implements:
  assumes "store_ok st" and "objects st this = Some a" and "objects st other = Some b"
  shows "implements (Buffer_move_assign this other st) (MoveAssign this other) st"
proof (cases "this = other")
  case True
  with assms show ?thesis by (intro implementsI) (auto simp: Buffer_move_assign_def)
next
  case False
  note ok = assms(1) [unfolded store_ok_def]
  from delete_released [OF ok assms(2), of st] obtain r where r:
    "delete_array (buf_data a) st = Normal (st\<lparr>heap_blocks := without (buf_data a) (heap_blocks st), heap_room := r\<rparr>)" by auto
  from target_released [OF ok assms(2)] have rel:
    "members_ok ((objects st)(this \<mapsto> null_buffer)) (without (buf_data a) (heap_blocks st)) (heap_next st)"
    "elements ((objects st)(this \<mapsto> null_buffer)) (without (buf_data a) (heap_blocks st)) =
      (elements (objects st) (heap_blocks st))(this \<mapsto> [])" by blast+
  from hand_over [of "(objects st)(this \<mapsto> null_buffer)", OF rel(1) _ False] False r assms(2,3) show ?thesis
    by (simp add: implements_def Buffer_move_assign_def store_simps buffer_eta rel(2))
qed

lemma copy_assign_implements:
  assumes "store_ok st" and "objects st this = Some a" and "objects st other = Some b"
  shows "implements (Buffer_copy_assign this other st) (CopyAssign this other) st"
proof (cases "this = other")
  case True
  with assms show ?thesis by (intro implementsI) (auto simp: Buffer_copy_assign_def)
next
  case False
  note ok = assms(1) [unfolded store_ok_def]
  let ?hb = "without (buf_data a) (heap_blocks st)"
  from target_released [OF ok assms(2)] have rel:
    "members_ok ((objects st)(this \<mapsto> null_buffer)) ?hb (heap_next st)"
    "elements ((objects st)(this \<mapsto> null_buffer)) ?hb = (elements (objects st) (heap_blocks st))(this \<mapsto> [])" by blast+
  show ?thesis
    using ok assms(3)
  proof (cases rule: object_cases)
    case null
    from delete_released [OF ok assms(2), of st] obtain r where
      "delete_array (buf_data a) st = Normal (st\<lparr>heap_blocks := ?hb, heap_room := r\<rparr>)" by auto
    with False null assms(2,3) rel show ?thesis
      by (simp add: implements_def Buffer_copy_assign_def new_array_def copy_array_def store_simps uninitialised_def)
  next
    case (block p block)
    let ?st = "st\<lparr>heap_next := Suc (heap_next st), heap_room := heap_room st - length block,
      indeterminate_reads := indeterminate_reads st + uninitialised block\<rparr>"
    have eq: "st\<lparr>heap_blocks := (heap_blocks st)(heap_next st \<mapsto> block), heap_next := Suc (heap_next st),
          heap_room := heap_room st - length block,
          indeterminate_reads := indeterminate_reads st + uninitialised block\<rparr> = ?st\<lparr>heap_blocks := (heap_blocks st)(heap_next st \<mapsto> block)\<rparr>" by simp
    from delete_released [OF ok assms(2), of ?st] obtain r where r: "delete_array (buf_data a)
          (st\<lparr>heap_blocks := (heap_blocks st)(heap_next st \<mapsto> block), heap_next := Suc (heap_next st),
            heap_room := heap_room st - length block,
            indeterminate_reads := indeterminate_reads st + uninitialised block\<rparr>) =
        Normal (?st\<lparr>heap_blocks := ?hb(heap_next st \<mapsto> block), heap_room := r\<rparr>)" unfolding eq by blast
    from give_block [of "(objects st)(this \<mapsto> null_buffer)" _ _ this, OF rel(1) _ block(2)] rel(2) False block assms(2,3) copy_to_fresh [OF block(3,2,6)] r show ?thesis
      by (simp add: implements_def Buffer_copy_assign_def new_array_def store_simps)
  qed
qed

lemma contents_defined:
  "store_ok st \<Longrightarrow> contents st this = None \<longleftrightarrow> objects st this = None"
  "store_ok st \<Longrightarrow> (\<exists>c. contents st this = Some c) \<longleftrightarrow> (\<exists>b. objects st this = Some b)"
  by (cases "objects st this") (auto simp: store_ok_def contents_def elements_def elim: object_cases)+

lemma buffer_step_implements:
  assumes "store_ok st" and "in_lifetime op (contents st)"
  shows "implements (buffer_step op st) op st"
  using assms(2) contents_defined [OF assms(1)]
  by (cases op)
    (auto intro: assms(1) construct_implements destruct_implements copy_construct_implements copy_assign_implements
      move_construct_implements move_assign_implements)

section \<open>Blocks of code\<close>

fun buffer_run :: "buffer_op list \<Rightarrow> buffer_store \<Rightarrow> outcome" where
  "buffer_run [] st = Normal st"
| "buffer_run (op # ops) st = and_then (buffer_step op st) (buffer_run ops)"

fun lifetimes_ok :: "buffer_op list \<Rightarrow> (nat \<rightharpoonup> int option list) \<Rightarrow> bool" where
  "lifetimes_ok [] v = True"
| "lifetimes_ok (op # ops) v = (in_lifetime op v \<and> lifetimes_ok ops (buffer_spec op v))"

fun indeterminate_total :: "buffer_op list \<Rightarrow> (nat \<rightharpoonup> int option list) \<Rightarrow> nat" where
  "indeterminate_total [] v = 0"
| "indeterminate_total (op # ops) v = indeterminate op v + indeterminate_total ops (buffer_spec op v)"

definition new_store :: "nat \<Rightarrow> buffer_store" where
  "new_store room = \<lparr>heap_blocks = Map.empty, heap_next = 0, heap_room = room, indeterminate_reads = 0, objects = Map.empty, stdout = []\<rparr>"

definition show_object :: "nat \<Rightarrow> (Buffer \<Rightarrow> string) \<Rightarrow> buffer_store \<Rightarrow> outcome" where
  "show_object this f st = (case objects st this of None \<Rightarrow> Undefined | Some b \<Rightarrow> Normal (say (f b) st))"

fun boolalpha :: "bool \<Rightarrow> string" where
  "boolalpha b = (if b then ''true'' else ''false'')"

text \<open>\<^verbatim>\<open>main\<close> of \<^verbatim>\<open>move_semantics_demo\<close>: the objects 1 to 4, destroyed at the end in reverse order.\<close>

definition move_semantics_main :: "buffer_store \<Rightarrow> outcome" where
  "move_semantics_main st =
     and_then (Buffer_construct 1 1024 (say ''===== COPY ====='' st)) (\<lambda>st.
     and_then (Buffer_copy_construct 2 1 st) (\<lambda>st.
     and_then (show_object 1 (\<lambda>b. ''buffer1 size='' @ to_string (Buffer_size b)) st) (\<lambda>st.
     and_then (show_object 2 (\<lambda>b. ''buffer2 size='' @ to_string (Buffer_size b)) st) (\<lambda>st.
     and_then (Buffer_move_construct 3 1 (say ''===== MOVE ====='' (say [] st))) (\<lambda>st.
     and_then (show_object 1 (\<lambda>b. ''buffer1 empty='' @ boolalpha (Buffer_empty b)) st) (\<lambda>st.
     and_then (show_object 3 (\<lambda>b. ''buffer3 size='' @ to_string (Buffer_size b)) st) (\<lambda>st.
     and_then (Buffer_construct 4 10 (say ''===== ASSIGNMENT ====='' (say [] st))) (\<lambda>st.
     and_then (Buffer_move_assign 4 2 st) (\<lambda>st.
     and_then (show_object 2 (\<lambda>b. ''buffer2 empty='' @ boolalpha (Buffer_empty b)) st) (\<lambda>st.
     and_then (show_object 4 (\<lambda>b. ''buffer4 size='' @ to_string (Buffer_size b)) st) (\<lambda>st.
     and_then (Buffer_destruct 4 st) (\<lambda>st.
     and_then (Buffer_destruct 3 st) (\<lambda>st.
     and_then (Buffer_destruct 2 st) (\<lambda>st.
     Buffer_destruct 1 st))))))))))))))"

section \<open>Properties of the class Buffer\<close>

lemma buffer_run_implements:
  assumes "store_ok st" and "lifetimes_ok ops (contents st)"
  shows "(\<exists>st'. buffer_run ops st = Normal st' \<and> store_ok st' \<and> contents st' = fold buffer_spec ops (contents st) \<and>
       indeterminate_reads st' = indeterminate_reads st + indeterminate_total ops (contents st)) \<or>
    (\<exists>st' k. k < length ops \<and> buffer_run ops st = BadAlloc st' \<and> store_ok st' \<and>
       contents st' = fold buffer_spec (take k ops) (contents st) \<and>
       indeterminate_reads st' = indeterminate_reads st + indeterminate_total (take k ops) (contents st) \<and> heap_room st' < requested (ops ! k) (contents st'))"
  using assms
proof (induction ops arbitrary: st)
  case (Cons op ops)
  from Cons.prems have imp: "implements (buffer_step op st) op st" by (simp add: buffer_step_implements)
  show ?case
  proof (cases "buffer_step op st = BadAlloc st")
    case True
    with imp have "heap_room st < requested op (contents st)" by (auto simp: implements_def)
    with True Cons.prems(1) show ?thesis by (intro disjI2 exI [of _ st] exI [of _ 0]) simp
  next
    case False
    with imp obtain st1 where st1: "buffer_step op st = Normal st1" "store_ok st1" "contents st1 = buffer_spec op (contents st)"
      "indeterminate_reads st1 = indeterminate_reads st + indeterminate op (contents st)" by (auto simp: implements_def)
    with Cons.prems(2) have "lifetimes_ok ops (contents st1)" by simp
    from Cons.IH [OF st1(2) this] show ?thesis
    proof (elim disjE exE conjE)
      fix st' assume "buffer_run ops st1 = Normal st'" "store_ok st'" "contents st' = fold buffer_spec ops (contents st1)"
        "indeterminate_reads st' = indeterminate_reads st1 + indeterminate_total ops (contents st1)"
      with st1 show ?thesis by simp
    next
      fix st' k assume "k < length ops" "buffer_run ops st1 = BadAlloc st'" "store_ok st'"
        "contents st' = fold buffer_spec (take k ops) (contents st1)"
        "indeterminate_reads st' = indeterminate_reads st1 + indeterminate_total (take k ops) (contents st1)" "heap_room st' < requested (ops ! k) (contents st')"
      with st1 show ?thesis by (intro disjI2 exI [of _ st'] exI [of _ "Suc k"]) simp
    qed
  qed
qed simp

lemma no_block_left:
  assumes "store_ok st" and "contents st = Map.empty"
  shows "heap_blocks st = Map.empty"
proof -
  have "objects st x = None" for x using assms contents_defined(1) by metis
  then have "dom (heap_blocks st) = {}"
    using exclusive_empty [of "buffer_owners (objects st)" "dom (heap_blocks st)"] assms(1)
    by (simp add: store_ok_def members_ok_def buffer_owners_def)
  then show ?thesis by simp
qed

text \<open>
  Claim C6. \<^verbatim>\<open>Buffer\<close> has value semantics over raw memory: any sequence of constructions, copies, moves,
  assignments (to itself included) and destructions that respects the lifetimes of the objects runs
  without a memory error (no block is freed twice, none is read after it is freed or past its end, no
  object is used outside its lifetime), and every object has the elements that the specification by values
  gives it; or the heap has too little room for a request, the exception passes, and the objects are
  exactly as they were before the operation that asked. Once all objects are destroyed, the heap is
  empty. Reads of elements that were never initialised do occur, exactly as many as the copies find such
  elements in the objects they copy; moves, constructions and destructions make none.
\<close>

theorem buffer_value_semantics:
  assumes "store_ok st" and "lifetimes_ok ops (contents st)"
  shows "(\<exists>st'. buffer_run ops st = Normal st' \<and> store_ok st' \<and> contents st' = fold buffer_spec ops (contents st) \<and>
       indeterminate_reads st' = indeterminate_reads st + indeterminate_total ops (contents st) \<and>
       (fold buffer_spec ops (contents st) = Map.empty \<longrightarrow> heap_blocks st' = Map.empty)) \<or>
    (\<exists>st' k. k < length ops \<and> buffer_run ops st = BadAlloc st' \<and> store_ok st' \<and>
       contents st' = fold buffer_spec (take k ops) (contents st) \<and>
       indeterminate_reads st' = indeterminate_reads st + indeterminate_total (take k ops) (contents st) \<and>
       heap_room st' < requested (ops ! k) (contents st'))"
  using buffer_run_implements [OF assms] no_block_left by metis

text \<open>A copy, an assignment from a moved object, an assignment of an object to itself.\<close>

theorem buffer_value_semantics_witness:
  "\<exists>st'. buffer_run [Construct 1 3, CopyConstruct 2 1, MoveConstruct 3 1, CopyAssign 1 3, CopyAssign 2 2, MoveAssign 3 3,
       MoveAssign 2 1, Destruct 3, Destruct 2, Destruct 1] (new_store 9) = Normal st' \<and> heap_blocks st' = Map.empty \<and>
     indeterminate_reads st' = 6"
proof -
  let ?ops = "[Construct 1 3, CopyConstruct 2 1, MoveConstruct 3 1, CopyAssign 1 3, CopyAssign 2 2, MoveAssign 3 3,
       MoveAssign 2 1, Destruct 3, Destruct 2, Destruct 1]"
  have ok: "store_ok (new_store 9)"
    by (simp add: store_ok_def members_ok_def new_store_def exclusive_def buffer_owners_def)
  have "contents (new_store 9) = Map.empty" by (simp add: contents_def elements_def new_store_def fun_eq_iff)
  then have life: "lifetimes_ok ?ops (contents (new_store 9))"
    and spec: "fold buffer_spec ?ops (contents (new_store 9)) = Map.empty" "indeterminate_total ?ops (contents (new_store 9)) = 6"
    by (simp_all add: fun_upd_twist uninitialised_def)
  have "indeterminate_reads (new_store 9) = 0" by (simp add: new_store_def)
  have "\<not> (case buffer_run ?ops (new_store 9) of BadAlloc st \<Rightarrow> True | _ \<Rightarrow> False)" by code_simp
  moreover note \<open>indeterminate_reads (new_store 9) = 0\<close>
  ultimately show ?thesis using buffer_value_semantics [OF ok life] spec by auto
qed

text \<open>
  The demonstration of moves: given room for its elements, the program shows the two equal
  sizes after the copy, the emptied source after each move, the sizes carried over, and destroys the
  four objects in reverse order with the sizes they have at last; every block is freed and the room
  of the heap restored. Its one copy reads 1024 elements that were never initialised.
\<close>

theorem move_semantics_result:
  assumes "2058 \<le> room"
  shows "\<exists>st'. move_semantics_main (new_store room) = Normal st' \<and> heap_blocks st' = Map.empty \<and> heap_room st' = room \<and>
    indeterminate_reads st' = 1024 \<and> stdout st' =
      [''===== COPY ====='', ''[CONSTRUCTOR] size=1024'', ''[COPY CONSTRUCTOR] size=1024'',
       ''buffer1 size=1024'', ''buffer2 size=1024'', '''', ''===== MOVE ====='',
       ''[MOVE CONSTRUCTOR] size=1024'', ''buffer1 empty=true'', ''buffer3 size=1024'',
       '''', ''===== ASSIGNMENT ====='', ''[CONSTRUCTOR] size=10'', ''[MOVE ASSIGNMENT] size=1024'',
       ''buffer2 empty=true'', ''buffer4 size=1024'',
       ''[DESTRUCTOR] size=1024'', ''[DESTRUCTOR] size=1024'', ''[DESTRUCTOR] size=0'', ''[DESTRUCTOR] size=0'']"
proof -
  have num: "to_string 1024 = ''1024''" "to_string 10 = ''10''" "to_string 0 = ''0''" by code_simp+
  have "\<not> room - 1024 < 1024" "\<not> room - 2048 < 10" using assms by linarith+
  with assms show ?thesis
    by (simp add: move_semantics_main_def new_store_def Buffer_construct_def Buffer_copy_construct_def
        Buffer_move_construct_def Buffer_move_assign_def Buffer_destruct_def new_array_def copy_array_def
        set_object_def say_def show_object_def Buffer_size_def Buffer_empty_def num fun_upd_twist
        uninitialised_def)
qed

theorem move_semantics_result_witness:
  "\<exists>st'. move_semantics_main (new_store 4096) = Normal st' \<and> heap_room st' = 4096"
  using move_semantics_result [of 4096] by auto

section \<open>The class ScopedFd\<close>

text \<open>
  The objects with their member \<^verbatim>\<open>fd_\<close>, the descriptors that are open in the process, and the calls of
  \<^verbatim>\<open>close\<close>, in order. A call on a descriptor that is not open is counted as bad.
\<close>

record fd_store =
  fd_objects :: "nat \<rightharpoonup> int"
  open_fds :: "int set"
  closes :: "int list"
  bad_closes :: nat

definition sys_close :: "int \<Rightarrow> fd_store \<Rightarrow> fd_store" where
  "sys_close fd st =
     (if fd \<in> open_fds st then st\<lparr>open_fds := open_fds st - {fd}, closes := closes st @ [fd]\<rparr>
      else st\<lparr>closes := closes st @ [fd], bad_closes := bad_closes st + 1\<rparr>)"

definition close_if_valid :: "int \<Rightarrow> fd_store \<Rightarrow> fd_store" where
  "close_if_valid fd st = (if fd \<ge> 0 then sys_close fd st else st)"

definition ScopedFd_construct :: "nat \<Rightarrow> int \<Rightarrow> fd_store \<Rightarrow> fd_store" where
  "ScopedFd_construct this fd st = st\<lparr>fd_objects := (fd_objects st)(this \<mapsto> fd)\<rparr>"

definition ScopedFd_get :: "nat \<Rightarrow> fd_store \<Rightarrow> int" where
  "ScopedFd_get this st = the (fd_objects st this)"

definition ScopedFd_destruct :: "nat \<Rightarrow> fd_store \<Rightarrow> fd_store" where
  "ScopedFd_destruct this st =
     (close_if_valid (ScopedFd_get this st) st)\<lparr>fd_objects := (fd_objects st)(this := None)\<rparr>"

definition ScopedFd_move_construct :: "nat \<Rightarrow> nat \<Rightarrow> fd_store \<Rightarrow> fd_store" where
  "ScopedFd_move_construct this other st =
     st\<lparr>fd_objects := (fd_objects st)(this := fd_objects st other, other \<mapsto> -1)\<rparr>"

definition ScopedFd_move_assign :: "nat \<Rightarrow> nat \<Rightarrow> fd_store \<Rightarrow> fd_store" where
  "ScopedFd_move_assign this other st =
     (if this \<noteq> other
      then (close_if_valid (ScopedFd_get this st) st)
             \<lparr>fd_objects := (fd_objects st)(this := fd_objects st other, other \<mapsto> -1)\<rparr>
      else st)"

text \<open>
  What a program can do with such objects; \<open>FdOpen\<close> is a call of \<^verbatim>\<open>open\<close> that returns the descriptor. A
  valid descriptor given to a constructor is open and not held by another object.
\<close>

datatype fd_op =
  FdOpen int
  | FdConstruct nat int
  | FdDestruct nat
  | FdMoveConstruct nat nat
  | FdMoveAssign nat nat

fun fd_step :: "fd_op \<Rightarrow> fd_store \<Rightarrow> fd_store" where
  "fd_step (FdOpen fd) st = st\<lparr>open_fds := insert fd (open_fds st)\<rparr>"
| "fd_step (FdConstruct this fd) st = ScopedFd_construct this fd st"
| "fd_step (FdDestruct this) st = ScopedFd_destruct this st"
| "fd_step (FdMoveConstruct this other) st = ScopedFd_move_construct this other st"
| "fd_step (FdMoveAssign this other) st = ScopedFd_move_assign this other st"

definition held :: "fd_store \<Rightarrow> int \<Rightarrow> bool" where
  "held st fd \<longleftrightarrow> 0 \<le> fd \<and> Some fd \<in> range (fd_objects st)"

fun fd_allowed :: "fd_op \<Rightarrow> fd_store \<Rightarrow> bool" where
  "fd_allowed (FdOpen fd) st = (0 \<le> fd \<and> fd \<notin> open_fds st)"
| "fd_allowed (FdConstruct this fd) st = (fd_objects st this = None \<and> (0 \<le> fd \<longrightarrow> fd \<in> open_fds st \<and> \<not> held st fd))"
| "fd_allowed (FdDestruct this) st = (fd_objects st this \<noteq> None)"
| "fd_allowed (FdMoveConstruct this other) st = (fd_objects st this = None \<and> fd_objects st other \<noteq> None)"
| "fd_allowed (FdMoveAssign this other) st = (fd_objects st this \<noteq> None \<and> fd_objects st other \<noteq> None)"

inductive fd_program :: "fd_op list \<Rightarrow> fd_store \<Rightarrow> fd_store \<Rightarrow> bool" where
  nothing: "fd_program [] st st"
| operation: "fd_program ops st st1 \<Longrightarrow> fd_allowed op st1 \<Longrightarrow> fd_program (ops @ [op]) st (fd_step op st1)"

text \<open>How often a descriptor was handed to an object.\<close>

fun handed :: "int \<Rightarrow> fd_op \<Rightarrow> bool" where
  "handed fd (FdConstruct this fd') = (fd' = fd \<and> 0 \<le> fd)"
| "handed fd _ = False"

definition fd_owners :: "(nat \<rightharpoonup> int) \<Rightarrow> nat \<rightharpoonup> int option" where
  "fd_owners objs this = map_option (\<lambda>fd. if 0 \<le> fd then Some fd else None) (objs this)"

definition fd_inv :: "fd_op list \<Rightarrow> fd_store \<Rightarrow> bool" where
  "fd_inv ops st \<longleftrightarrow> exclusive (fd_owners (fd_objects st)) {fd. held st fd} \<and> (\<forall>fd. held st fd \<longrightarrow> fd \<in> open_fds st) \<and>
     bad_closes st = 0 \<and>
     (\<forall>fd. length (filter (handed fd) ops) = count_list (closes st) fd + (if held st fd then 1 else 0))"

definition new_fd_store :: "int set \<Rightarrow> fd_store" where
  "new_fd_store fds = \<lparr>fd_objects = Map.empty, open_fds = fds, closes = [], bad_closes = 0\<rparr>"

datatype sys_call =
  CallOpen string
  | CallWrite int string
  | CallClose int

text \<open>
  \<^verbatim>\<open>main\<close> of \<^verbatim>\<open>scoped_fd.cpp\<close>, given what \<^verbatim>\<open>open\<close> returns: its result, the calls it makes, and what it
  says on the error stream. The result of \<^verbatim>\<open>write\<close> is not looked at.
\<close>

definition scoped_fd_main :: "int \<Rightarrow> int \<times> sys_call list \<times> string list" where
  "scoped_fd_main fd =
     (if fd < 0 then (1, [CallOpen ''practice/day02/text.txt''], [''open failed''])
      else
        let st = fd_step (FdConstruct 1 fd) (fd_step (FdOpen fd) (new_fd_store {}));
            file = ScopedFd_get 1 st;
            st' = fd_step (FdDestruct 1) st
        in (0, [CallOpen ''practice/day02/text.txt'', CallWrite file (''hello Scoped'' @ [CHR 0x0A])] @
               map CallClose (closes st'), []))"

lemma held_owners: "held st fd \<longleftrightarrow> (\<exists>x. fd_owners (fd_objects st) x = Some (Some fd))"
  by (auto simp: held_def fd_owners_def image_iff split: if_splits) metis+

lemma exclusive_held: "exclusive (fd_owners (fd_objects st)) live \<Longrightarrow> held st fd \<longleftrightarrow> fd \<in> live"
  by (auto simp: held_owners exclusive_def)

lemma fd_owners_update:
  "fd_owners (objs(this \<mapsto> fd)) = (fd_owners objs)(this \<mapsto> (if 0 \<le> fd then Some fd else None))"
  "fd_owners (objs(this := None)) = (fd_owners objs)(this := None)"
  by (auto simp: fd_owners_def fun_eq_iff)

text \<open>
  The invariant with the set of the held descriptors named: the form in which an operation is
  checked.
\<close>

lemma fd_invI:
  assumes "exclusive (fd_owners (fd_objects st)) live" and "live \<subseteq> open_fds st" and "bad_closes st = 0"
    and "\<And>fd. length (filter (handed fd) ops) = count_list (closes st) fd + (if fd \<in> live then 1 else 0)"
  shows "fd_inv ops st"
proof -
  have "{fd. held st fd} = live" using exclusive_held [OF assms(1)] by blast
  with assms show ?thesis by (auto simp: fd_inv_def exclusive_held [OF assms(1)])
qed

lemma fd_invD:
  assumes "fd_inv ops st"
  obtains live where "exclusive (fd_owners (fd_objects st)) live" "live \<subseteq> open_fds st" "bad_closes st = 0"
    "\<And>fd. held st fd \<longleftrightarrow> fd \<in> live"
    "\<And>fd. length (filter (handed fd) ops) = count_list (closes st) fd + (if fd \<in> live then 1 else 0)"
proof (rule that)
  show "exclusive (fd_owners (fd_objects st)) {fd. held st fd}" "{fd. held st fd} \<subseteq> open_fds st" "bad_closes st = 0"
    using assms by (auto simp: fd_inv_def)
  show "held st fd \<longleftrightarrow> fd \<in> {fd. held st fd}" for fd by simp
  show "length (filter (handed fd) ops) = count_list (closes st) fd + (if fd \<in> {fd. held st fd} then 1 else 0)" for fd
    using assms by (simp add: fd_inv_def)
qed

text \<open>An object that is to be overwritten or destroyed gives up its descriptor.\<close>

lemma fd_released:
  assumes "fd_inv ops st" and "fd_objects st this = Some fd"
  shows "fd_inv ops ((close_if_valid fd st)\<lparr>fd_objects := (fd_objects st)(this \<mapsto> -1)\<rparr>)"
  using assms(1)
proof (rule fd_invD)
  fix live
  assume live: "exclusive (fd_owners (fd_objects st)) live" "live \<subseteq> open_fds st" "bad_closes st = 0"
    "\<And>fd. length (filter (handed fd) ops) = count_list (closes st) fd + (if fd \<in> live then 1 else 0)"
  show ?thesis
  proof (cases "0 \<le> fd")
    case True
    then have own: "fd_owners (fd_objects st) this = Some (Some fd)" using assms(2) by (simp add: fd_owners_def)
    with live(1,2) exclusive_live have "fd \<in> open_fds st" "fd \<in> live" by fastforce+
    with True live exclusive_release [OF live(1) own] show ?thesis
      by (intro fd_invI [of _ "live - {fd}"]) (auto simp: close_if_valid_def sys_close_def fd_owners_update split: if_splits)
  next
    case False
    then have "fd_owners (fd_objects st) this = Some None" using assms(2) by (simp add: fd_owners_def)
    then have "(fd_owners (fd_objects st))(this \<mapsto> None) = fd_owners (fd_objects st)" by auto
    with False live show ?thesis
      by (intro fd_invI [of _ live]) (simp_all add: close_if_valid_def fd_owners_update)
  qed
qed

lemma fd_inv_transfer:
  assumes "fd_inv ops st" and "fd_objects st other = Some fd" and "this \<noteq> other"
    and "fd_objects st this = None \<or> fd_objects st this = Some (-1)"
  shows "fd_inv ops (st\<lparr>fd_objects := (fd_objects st)(this \<mapsto> fd, other \<mapsto> -1)\<rparr>)"
  using assms(1)
proof (rule fd_invD)
  fix live
  assume live: "exclusive (fd_owners (fd_objects st)) live" "live \<subseteq> open_fds st" "bad_closes st = 0"
    "\<And>fd. length (filter (handed fd) ops) = count_list (closes st) fd + (if fd \<in> live then 1 else 0)"
  have target: "fd_owners (fd_objects st) this = None \<or> fd_owners (fd_objects st) this = Some None"
    using assms(4) by (elim disjE) (simp_all add: fd_owners_def)
  have "exclusive (fd_owners ((fd_objects st)(this \<mapsto> fd, other \<mapsto> -1))) live"
  proof (cases "0 \<le> fd")
    case True
    then have "fd_owners (fd_objects st) other = Some (Some fd)" using assms(2) by (simp add: fd_owners_def)
    from exclusive_transfer [OF live(1) this target] True show ?thesis by (simp add: fd_owners_update)
  next
    case False
    then have "fd_owners (fd_objects st) other = Some None" using assms(2) by (simp add: fd_owners_def)
    with exclusive_null [OF exclusive_null [OF live(1) target], of other] False assms(3) show ?thesis
      by (simp add: fd_owners_update)
  qed
  with live show ?thesis by (intro fd_invI [of _ live]) simp_all
qed

lemma fd_inv_end:
  assumes "fd_inv ops st" and "fd_objects st this = Some (-1)"
  shows "fd_inv ops (st\<lparr>fd_objects := (fd_objects st)(this := None)\<rparr>)"
  using assms(1)
proof (rule fd_invD)
  fix live
  assume live: "exclusive (fd_owners (fd_objects st)) live" "live \<subseteq> open_fds st" "bad_closes st = 0"
    "\<And>fd. length (filter (handed fd) ops) = count_list (closes st) fd + (if fd \<in> live then 1 else 0)"
  have "fd_owners (fd_objects st) this = Some None" using assms(2) by (simp add: fd_owners_def)
  from exclusive_end [OF live(1) this] live show ?thesis
    by (intro fd_invI [of _ live]) (simp_all add: fd_owners_update)
qed

lemma fd_inv_construct:
  assumes "fd_inv ops st" and "fd_allowed (FdConstruct this fd) st"
  shows "fd_inv (ops @ [FdConstruct this fd]) (ScopedFd_construct this fd st)"
  using assms(1)
proof (rule fd_invD)
  fix live
  assume live: "exclusive (fd_owners (fd_objects st)) live" "live \<subseteq> open_fds st" "bad_closes st = 0"
    "\<And>fd. held st fd \<longleftrightarrow> fd \<in> live"
    "\<And>fd. length (filter (handed fd) ops) = count_list (closes st) fd + (if fd \<in> live then 1 else 0)"
  have target: "fd_owners (fd_objects st) this = None \<or> fd_owners (fd_objects st) this = Some None"
    using assms(2) by (simp add: fd_owners_def)
  show ?thesis
  proof (cases "0 \<le> fd")
    case True
    with assms(2) live(4) have fresh: "fd \<notin> live" "fd \<in> open_fds st" by auto
    from True live fresh exclusive_acquire [OF live(1) fresh(1) target] show ?thesis
      by (intro fd_invI [of _ "insert fd live"]) (auto simp: ScopedFd_construct_def fd_owners_update split: if_splits)
  next
    case False
    with live exclusive_null [OF live(1) target] show ?thesis
      by (intro fd_invI [of _ live]) (auto simp: ScopedFd_construct_def fd_owners_update split: if_splits)
  qed
qed

lemma fd_inv_step:
  assumes "fd_inv ops st" and "fd_allowed op st"
  shows "fd_inv (ops @ [op]) (fd_step op st)"
proof (cases op)
  case (FdOpen fd)
  with assms show ?thesis by (auto simp: fd_inv_def held_def)
next
  case (FdConstruct this fd)
  with assms fd_inv_construct show ?thesis by simp
next
  case (FdDestruct this)
  with assms(2) obtain fd where fd: "fd_objects st this = Some fd" by auto
  from fd_inv_end [OF fd_released [OF assms(1) fd], of this] FdDestruct fd show ?thesis
    by (simp add: ScopedFd_destruct_def ScopedFd_get_def fd_inv_def)
next
  case (FdMoveConstruct this other)
  with assms(2) obtain fd where fd: "fd_objects st other = Some fd" "fd_objects st this = None" "this \<noteq> other" by fastforce
  from fd_inv_transfer [OF assms(1) fd(1,3)] FdMoveConstruct fd show ?thesis
    by (simp add: ScopedFd_move_construct_def fd_inv_def)
next
  case (FdMoveAssign this other)
  with assms(2) obtain fd fd' where fd: "fd_objects st other = Some fd" "fd_objects st this = Some fd'" by auto
  show ?thesis
  proof (cases "this = other")
    case True
    with assms(1) FdMoveAssign show ?thesis by (simp add: ScopedFd_move_assign_def fd_inv_def)
  next
    case False
    from fd_inv_transfer [OF fd_released [OF assms(1) fd(2)], of other fd this] False FdMoveAssign fd show ?thesis
      by (simp add: ScopedFd_move_assign_def ScopedFd_get_def fd_inv_def)
  qed
qed

lemma fd_inv_program: "fd_program ops (new_fd_store fds) st \<Longrightarrow> fd_inv ops st"
proof (induction ops "new_fd_store fds" st rule: fd_program.induct)
  case nothing
  show ?case by (auto simp: fd_inv_def new_fd_store_def exclusive_def fd_owners_def held_def)
next
  case (operation ops st1 op)
  then show ?case by (blast intro: fd_inv_step)
qed

text \<open>
  Claim C32. \<^verbatim>\<open>ScopedFd\<close> closes every descriptor once: in every program that respects the lifetimes and
  gives an object only a descriptor that is open and not held by another, \<^verbatim>\<open>close\<close> is never called on a
  descriptor that is not open; a descriptor that an object holds is open; it has been closed as
  often as it was handed over, less one while an object holds it; so that, once all objects are
  destroyed, every descriptor handed over has been closed exactly as often. The program itself
  closes the file it opened, after writing to it, and closes nothing when it could not open it.
\<close>

theorem scoped_fd_closes_once:
  assumes "fd_program ops (new_fd_store fds) st"
  shows "bad_closes st = 0 \<and> (\<forall>fd. held st fd \<longrightarrow> fd \<in> open_fds st) \<and>
    (\<forall>fd. length (filter (handed fd) ops) = count_list (closes st) fd + (if held st fd then 1 else 0)) \<and>
    (fd_objects st = Map.empty \<longrightarrow> (\<forall>fd. count_list (closes st) fd = length (filter (handed fd) ops))) \<and>
    scoped_fd_main fd0 =
      (if fd0 < 0 then (1, [CallOpen ''practice/day02/text.txt''], [''open failed''])
       else (0, [CallOpen ''practice/day02/text.txt'', CallWrite fd0 (''hello Scoped'' @ [CHR 0x0A]), CallClose fd0], []))"
proof -
  have inv: "fd_inv ops st" by (rule fd_inv_program [OF assms])
  then have "\<forall>fd. count_list (closes st) fd = length (filter (handed fd) ops)" if "fd_objects st = Map.empty"
    using that by (simp add: fd_inv_def held_def)
  moreover have "scoped_fd_main fd0 =
      (if fd0 < 0 then (1, [CallOpen ''practice/day02/text.txt''], [''open failed''])
       else (0, [CallOpen ''practice/day02/text.txt'', CallWrite fd0 (''hello Scoped'' @ [CHR 0x0A]), CallClose fd0], []))"
    by (simp add: scoped_fd_main_def Let_def ScopedFd_construct_def ScopedFd_get_def ScopedFd_destruct_def
        close_if_valid_def sys_close_def new_fd_store_def)
  ultimately show ?thesis using inv by (simp add: fd_inv_def)
qed

text \<open>Two files; the second object takes over the file of the first, whose own is closed first.\<close>

theorem scoped_fd_closes_once_witness:
  "\<exists>st. fd_program [FdOpen 3, FdConstruct 1 3, FdOpen 4, FdConstruct 2 4, FdMoveAssign 1 2, FdDestruct 2, FdDestruct 1]
       (new_fd_store {0, 1, 2}) st \<and> closes st = [3, 4] \<and> bad_closes st = 0"
proof -
  let ?ops = "[FdOpen 3, FdConstruct 1 3, FdOpen 4, FdConstruct 2 4, FdMoveAssign 1 2, FdDestruct 2, FdDestruct 1]"
  let ?st = "fold fd_step ?ops (new_fd_store {0, 1, 2})"
  have "fd_program ([] @ [FdOpen 3]) (new_fd_store {0, 1, 2}) (fd_step (FdOpen 3) (new_fd_store {0, 1, 2}))"
    by (rule fd_program.operation [OF fd_program.nothing]) (simp add: new_fd_store_def)
  note fd_program.operation [OF this, of "FdConstruct 1 3"]
  note fd_program.operation [OF this, of "FdOpen 4"]
  note fd_program.operation [OF this, of "FdConstruct 2 4"]
  note fd_program.operation [OF this, of "FdMoveAssign 1 2"]
  note fd_program.operation [OF this, of "FdDestruct 2"]
  note fd_program.operation [OF this, of "FdDestruct 1"]
  then have prog: "fd_program ?ops (new_fd_store {0, 1, 2}) ?st"
    by (simp add: new_fd_store_def held_def ScopedFd_construct_def ScopedFd_get_def ScopedFd_destruct_def
        ScopedFd_move_assign_def close_if_valid_def sys_close_def image_iff)
  have "closes ?st = [3, 4]"
    by (simp add: new_fd_store_def ScopedFd_construct_def ScopedFd_get_def ScopedFd_destruct_def
        ScopedFd_move_assign_def close_if_valid_def sys_close_def)
  with prog scoped_fd_closes_once [OF prog] show ?thesis by blast
qed

end
