(* ===== verification/C_Text.thy ===== *)
theory C_Text
  imports Prelude
begin

text \<open>
  The text functions of the C library that the C programs use: the conversions \<^verbatim>\<open>%d\<close> and \<^verbatim>\<open>%s\<close> of
  \<^verbatim>\<open>snprintf\<close> and \<^verbatim>\<open>sscanf\<close>, and strings that end at the first null character. An \<^verbatim>\<open>int\<close> is an integer
  of the range of 32 bits.
\<close>

section \<open>Printing integers\<close>

function digits_of_int :: "int \<Rightarrow> string" where
  "digits_of_int i =
     (if i < 10 then [digit_char (nat i)] else digits_of_int (i div 10) @ [digit_char (nat (i mod 10))])"
  by auto
termination
  by (relation "measure nat") auto

declare digits_of_int.simps [simp del]

text \<open>\<^verbatim>\<open>%d\<close>, and \<^verbatim>\<open>operator<<\<close> on an \<^verbatim>\<open>int\<close>.\<close>

definition int_to_string :: "int \<Rightarrow> string" where
  "int_to_string i = (if i < 0 then CHR ''-'' # digits_of_int (- i) else digits_of_int i)"

definition INT_MIN :: int where "INT_MIN = -2147483648"
definition INT_MAX :: int where "INT_MAX = 2147483647"

definition is_int :: "int \<Rightarrow> bool" where
  "is_int i \<longleftrightarrow> INT_MIN \<le> i \<and> i \<le> INT_MAX"

lemma digits_of_int_to_string: "0 \<le> i \<Longrightarrow> digits_of_int i = to_string (nat i)"
proof (induction i rule: digits_of_int.induct)
  case (1 i)
  show ?case
  proof (cases "i < 10")
    case True
    then show ?thesis using 1 by (simp add: digits_of_int.simps to_string.simps nat_less_iff)
  next
    case False
    with 1 have "digits_of_int (i div 10) = to_string (nat i div 10)" by (simp add: nat_div_distrib)
    moreover have "nat (i mod 10) = nat i mod 10" "\<not> nat i < 10" using 1 False by (simp_all add: nat_mod_distrib)
    ultimately show ?thesis using False by (simp add: digits_of_int.simps [of i] to_string.simps [of "nat i"])
  qed
qed

lemma digits_of_int_props:
  assumes "0 \<le> i"
  shows "list_all is_digit (digits_of_int i)" "digits_of_int i \<noteq> []" "int (digits_value (digits_of_int i)) = i"
  using assms by (simp_all add: digits_of_int_to_string)

lemma digits_of_int_length:
  assumes "0 \<le> i" and "i < 10 ^ n" and "0 < n"
  shows "length (digits_of_int i) \<le> n"
  using assms
proof (induction i arbitrary: n rule: digits_of_int.induct)
  case (1 i)
  show ?case
  proof (cases "i < 10")
    case True
    then show ?thesis using 1 by (simp add: digits_of_int.simps)
  next
    case False
    obtain m where n: "n = Suc m" using 1 by (cases n) auto
    have "0 < m" using 1(3) False n by (cases m) auto
    moreover have "i div 10 < 10 ^ m" using 1(3) n by (simp add: div_less_iff_less_mult)
    ultimately show ?thesis using 1 False n by (simp add: digits_of_int.simps [of i])
  qed
qed

lemma int_to_string_length: "is_int i \<Longrightarrow> length (int_to_string i) \<le> 11"
proof -
  assume "is_int i"
  then have "\<bar>i\<bar> < 10 ^ 10" by (auto simp: is_int_def INT_MIN_def INT_MAX_def)
  then show ?thesis
    using digits_of_int_length [of i 10] digits_of_int_length [of "- i" 10] by (auto simp: int_to_string_def)
qed

section \<open>Strings\<close>

text \<open>The C string in a buffer: the characters before the first null character.\<close>

definition c_str :: "string \<Rightarrow> string" where
  "c_str buf = takeWhile (\<lambda>c. c \<noteq> CHR 0x00) buf"

text \<open>\<^verbatim>\<open>snprintf\<close> with room for \<open>size\<close> characters: what it returns, and the string in the buffer.\<close>

definition snprintf :: "nat \<Rightarrow> string \<Rightarrow> int \<times> string" where
  "snprintf n formatted = (int (length formatted), take (n - 1) formatted)"

section \<open>Scanning\<close>

text \<open>\<^verbatim>\<open>isspace\<close> in the C locale.\<close>

definition isspace :: "char \<Rightarrow> bool" where
  "isspace c \<longleftrightarrow> c = CHR '' '' \<or> (9 \<le> (of_char c :: nat) \<and> (of_char c :: nat) \<le> 13)"

text \<open>A literal of the format; \<open>None\<close> where the input differs.\<close>

fun scan_literal :: "string \<Rightarrow> string \<Rightarrow> string option" where
  "scan_literal [] input = Some input"
| "scan_literal (l # ls) [] = None"
| "scan_literal (l # ls) (c # cs) = (if c = l then scan_literal ls cs else None)"

text \<open>
  \<^verbatim>\<open>%d\<close>: white space, an optional sign, digits. What is stored for a number outside the range of \<^verbatim>\<open>int\<close>
  the C standard leaves open, so it is an argument.
\<close>

definition scan_int :: "(int \<Rightarrow> int) \<Rightarrow> string \<Rightarrow> (int \<times> string) option" where
  "scan_int out_of_range input =
     (let s = dropWhile isspace input;
          negative = (s \<noteq> [] \<and> hd s = CHR ''-'');
          body = (if s \<noteq> [] \<and> (hd s = CHR ''-'' \<or> hd s = CHR ''+'') then tl s else s);
          ds = takeWhile is_digit body;
          n = (if negative then - int (digits_value ds) else int (digits_value ds))
      in if ds = [] then None
         else Some (if is_int n then n else out_of_range n, dropWhile is_digit body))"

text \<open>\<^verbatim>\<open>%31s\<close>: white space, then at least one and at most that many characters that are none.\<close>

definition scan_word :: "nat \<Rightarrow> string \<Rightarrow> (string \<times> string) option" where
  "scan_word width input =
     (let s = dropWhile isspace input;
          w = take width (takeWhile (\<lambda>c. \<not> isspace c) s)
      in if w = [] then None else Some (w, drop (length w) s))"

lemma scan_literal_append [simp]: "scan_literal l (l @ rest) = Some rest"
  by (induction l) simp_all

lemma scan_literal_Some: "scan_literal l input = Some rest \<longleftrightarrow> input = l @ rest"
  by (induction l input rule: scan_literal.induct) auto

lemma is_digit_not_space: "is_digit c \<Longrightarrow> \<not> isspace c"
  by (auto simp: is_digit_def isspace_def)

lemma sign_chars: "\<not> is_digit (CHR ''-'')" "\<not> is_digit (CHR ''+'')" "\<not> isspace (CHR ''-'')" "\<not> isspace (CHR ''+'')"
  by (simp_all add: is_digit_def isspace_def)

text \<open>Reading back a number that was printed, before a character that is no digit.\<close>

lemma takeWhile_digits:
  assumes "list_all is_digit ds" and "rest = [] \<or> \<not> is_digit (hd rest)"
  shows "takeWhile is_digit (ds @ rest) = ds" "dropWhile is_digit (ds @ rest) = rest"
proof -
  have "takeWhile is_digit (ds @ rest) = ds @ takeWhile is_digit rest"
    and "dropWhile is_digit (ds @ rest) = dropWhile is_digit rest"
    using assms(1) by (simp_all add: list_all_iff dropWhile_append2)
  moreover have "takeWhile is_digit rest = []" "dropWhile is_digit rest = rest"
    using assms(2) by (cases rest; simp)+
  ultimately show "takeWhile is_digit (ds @ rest) = ds" "dropWhile is_digit (ds @ rest) = rest" by simp_all
qed

lemma scan_int_printed:
  assumes "is_int i" and "rest = [] \<or> \<not> is_digit (hd rest)"
  shows "scan_int out_of_range (int_to_string i @ rest) = Some (i, rest)"
proof -
  let ?ds = "digits_of_int \<bar>i\<bar>"
  note props = digits_of_int_props [of "\<bar>i\<bar>", simplified]
  obtain d ds where d: "?ds = d # ds" using props(2) by (cases ?ds) auto
  with props(1) have dd: "is_digit d" by simp
  then have "\<not> isspace d" "d \<noteq> CHR ''-''" "d \<noteq> CHR ''+''" using is_digit_not_space sign_chars by auto
  with d props(2,3) takeWhile_digits [OF props(1) assms(2)] assms(1) sign_chars show ?thesis
    by (cases "i < 0") (simp_all add: scan_int_def int_to_string_def Let_def)
qed

end
