(* ===== verification/Smart_Pointers.thy ===== *)
theory Smart_Pointers
  imports Ownership C_Text
begin

text \<open>
  The program \<^verbatim>\<open>smart_pointer_demo/main.cpp\<close>: a serial port owned by a \<^verbatim>\<open>unique_ptr\<close> that is moved into a
  worker, and a configuration shared through a \<^verbatim>\<open>shared_ptr\<close> and watched through a \<^verbatim>\<open>weak_ptr\<close>. The
  three pointer types of the standard library are modelled with their control blocks and counts, as
  the program observes them with \<^verbatim>\<open>use_count\<close> and \<^verbatim>\<open>lock\<close>. A variable of such a type is a number; it is
  mapped to the block or object it points to, or to \<open>None\<close> when it is null.
\<close>

section \<open>The pointers\<close>

record GatewayConfig =
  gatewayName :: string
  baudRate :: int

text \<open>The configuration is \<open>None\<close> once it is destroyed; the block lives on while it is watched.\<close>

record ControlBlock =
  managed :: "GatewayConfig option"
  strong_count :: nat
  weak_count :: nat

record pointer_store =
  blocks :: "nat \<rightharpoonup> ControlBlock"
  next_block :: nat
  shared_vars :: "nat \<rightharpoonup> nat option"
  weak_vars :: "nat \<rightharpoonup> nat option"
  ports :: "nat \<rightharpoonup> string"
  next_port :: nat
  unique_vars :: "nat \<rightharpoonup> nat option"
  printed :: "string list"

definition echo :: "string \<Rightarrow> pointer_store \<Rightarrow> pointer_store" where
  "echo line st = st\<lparr>printed := printed st @ [line]\<rparr>"

definition make_shared :: "nat \<Rightarrow> GatewayConfig \<Rightarrow> pointer_store \<Rightarrow> pointer_store" where
  "make_shared v config st =
     st\<lparr>blocks := (blocks st)(next_block st \<mapsto> \<lparr>managed = Some config, strong_count = 1, weak_count = 0\<rparr>),
        next_block := next_block st + 1, shared_vars := (shared_vars st)(v \<mapsto> Some (next_block st))\<rparr>"

fun retain_strong :: "nat option \<Rightarrow> (nat \<rightharpoonup> ControlBlock) \<Rightarrow> (nat \<rightharpoonup> ControlBlock)" where
  "retain_strong None bs = bs"
| "retain_strong (Some b) bs = bs(b := map_option (\<lambda>c. c\<lparr>strong_count := strong_count c + 1\<rparr>) (bs b))"

fun retain_weak :: "nat option \<Rightarrow> (nat \<rightharpoonup> ControlBlock) \<Rightarrow> (nat \<rightharpoonup> ControlBlock)" where
  "retain_weak None bs = bs"
| "retain_weak (Some b) bs = bs(b := map_option (\<lambda>c. c\<lparr>weak_count := weak_count c + 1\<rparr>) (bs b))"

text \<open>The last owner destroys the configuration, and the last owner or watcher the block.\<close>

definition settle :: "ControlBlock \<Rightarrow> ControlBlock option" where
  "settle c =
     (if strong_count c = 0 \<and> weak_count c = 0 then None
      else if strong_count c = 0 then Some (c\<lparr>managed := None\<rparr>)
      else Some c)"

fun release_strong :: "nat option \<Rightarrow> (nat \<rightharpoonup> ControlBlock) \<Rightarrow> (nat \<rightharpoonup> ControlBlock)" where
  "release_strong None bs = bs"
| "release_strong (Some b) bs =
     bs(b := Option.bind (bs b) (\<lambda>c. settle (c\<lparr>strong_count := strong_count c - 1\<rparr>)))"

fun release_weak :: "nat option \<Rightarrow> (nat \<rightharpoonup> ControlBlock) \<Rightarrow> (nat \<rightharpoonup> ControlBlock)" where
  "release_weak None bs = bs"
| "release_weak (Some b) bs =
     bs(b := Option.bind (bs b) (\<lambda>c. settle (c\<lparr>weak_count := weak_count c - 1\<rparr>)))"

definition shared_copy :: "nat \<Rightarrow> nat \<Rightarrow> pointer_store \<Rightarrow> pointer_store" where
  "shared_copy v w st =
     (let d = the (shared_vars st w) in
      st\<lparr>blocks := retain_strong d (blocks st), shared_vars := (shared_vars st)(v \<mapsto> d)\<rparr>)"

definition shared_move :: "nat \<Rightarrow> nat \<Rightarrow> pointer_store \<Rightarrow> pointer_store" where
  "shared_move v w st = st\<lparr>shared_vars := (shared_vars st)(v := shared_vars st w, w \<mapsto> None)\<rparr>"

definition shared_reset :: "nat \<Rightarrow> pointer_store \<Rightarrow> pointer_store" where
  "shared_reset v st =
     st\<lparr>blocks := release_strong (the (shared_vars st v)) (blocks st), shared_vars := (shared_vars st)(v \<mapsto> None)\<rparr>"

definition shared_end :: "nat \<Rightarrow> pointer_store \<Rightarrow> pointer_store" where
  "shared_end v st =
     st\<lparr>blocks := release_strong (the (shared_vars st v)) (blocks st), shared_vars := (shared_vars st)(v := None)\<rparr>"

definition use_count :: "nat \<Rightarrow> pointer_store \<Rightarrow> nat" where
  "use_count v st =
     (case the (shared_vars st v) of
        None \<Rightarrow> 0
      | Some b \<Rightarrow> (case blocks st b of None \<Rightarrow> 0 | Some c \<Rightarrow> strong_count c))"

definition weak_from_shared :: "nat \<Rightarrow> nat \<Rightarrow> pointer_store \<Rightarrow> pointer_store" where
  "weak_from_shared w v st =
     (let d = the (shared_vars st v) in
      st\<lparr>blocks := retain_weak d (blocks st), weak_vars := (weak_vars st)(w \<mapsto> d)\<rparr>)"

definition weak_end :: "nat \<Rightarrow> pointer_store \<Rightarrow> pointer_store" where
  "weak_end w st =
     st\<lparr>blocks := release_weak (the (weak_vars st w)) (blocks st), weak_vars := (weak_vars st)(w := None)\<rparr>"

text \<open>\<^verbatim>\<open>lock\<close>: another owner if there is one, and null if the configuration is gone.\<close>

definition lock_target :: "nat \<Rightarrow> pointer_store \<Rightarrow> nat option" where
  "lock_target w st =
     (case the (weak_vars st w) of
        None \<Rightarrow> None
      | Some b \<Rightarrow> (case blocks st b of None \<Rightarrow> None | Some c \<Rightarrow> if strong_count c = 0 then None else Some b))"

definition weak_lock :: "nat \<Rightarrow> nat \<Rightarrow> pointer_store \<Rightarrow> pointer_store" where
  "weak_lock v w st =
     st\<lparr>blocks := retain_strong (lock_target w st) (blocks st), shared_vars := (shared_vars st)(v \<mapsto> lock_target w st)\<rparr>"

text \<open>The object a shared pointer can be dereferenced to; \<open>None\<close> is undefined behaviour.\<close>

definition shared_deref :: "nat \<Rightarrow> pointer_store \<Rightarrow> GatewayConfig option" where
  "shared_deref v st = Option.bind (the (shared_vars st v)) (\<lambda>b. Option.bind (blocks st b) managed)"

section \<open>The serial port and its unique owner\<close>

definition make_unique :: "nat \<Rightarrow> string \<Rightarrow> pointer_store \<Rightarrow> pointer_store" where
  "make_unique u device st =
     echo (''[SERIAL] open '' @ device)
       (st\<lparr>ports := (ports st)(next_port st \<mapsto> device), next_port := next_port st + 1,
           unique_vars := (unique_vars st)(u \<mapsto> Some (next_port st))\<rparr>)"

definition SerialPortMock_send :: "nat \<Rightarrow> string \<Rightarrow> pointer_store \<Rightarrow> pointer_store option" where
  "SerialPortMock_send u command st =
     Option.bind (the (unique_vars st u)) (\<lambda>p. Option.bind (ports st p) (\<lambda>_.
       Some (echo (''[SERIAL] send '' @ command) st)))"

definition unique_move :: "nat \<Rightarrow> nat \<Rightarrow> pointer_store \<Rightarrow> pointer_store" where
  "unique_move u w st = st\<lparr>unique_vars := (unique_vars st)(u := unique_vars st w, w \<mapsto> None)\<rparr>"

definition unique_end :: "nat \<Rightarrow> pointer_store \<Rightarrow> pointer_store" where
  "unique_end u st =
     (case the (unique_vars st u) of
        None \<Rightarrow> st\<lparr>unique_vars := (unique_vars st)(u := None)\<rparr>
      | Some p \<Rightarrow>
          echo (''[SERIAL] close '' @ the (ports st p))
            (st\<lparr>ports := (ports st)(p := None), unique_vars := (unique_vars st)(u := None)\<rparr>))"

section \<open>The program\<close>

text \<open>The variables: \<^verbatim>\<open>config\<close>, the members of the worker, the parameters of its constructor, the local of \<^verbatim>\<open>showConfig\<close>.\<close>

definition v_config :: nat where "v_config = 1"
definition v_worker_config :: nat where "v_worker_config = 2"
definition v_param_config :: nat where "v_param_config = 3"
definition v_locked :: nat where "v_locked = 4"
definition w_weakConfig :: nat where "w_weakConfig = 1"
definition u_serialPort :: nat where "u_serialPort = 1"
definition u_param_port :: nat where "u_param_port = 2"
definition u_worker_port :: nat where "u_worker_port = 3"

definition GatewayWorker_construct :: "pointer_store \<Rightarrow> pointer_store" where
  "GatewayWorker_construct st =
     (let st = shared_copy v_param_config v_config (unique_move u_param_port u_serialPort st);
          st = shared_move v_worker_config v_param_config (unique_move u_worker_port u_param_port st)
      in unique_end u_param_port (shared_end v_param_config st))"

definition GatewayWorker_execute :: "string \<Rightarrow> pointer_store \<Rightarrow> pointer_store option" where
  "GatewayWorker_execute command st =
     Option.bind (shared_deref v_worker_config st) (\<lambda>config.
       SerialPortMock_send u_worker_port command
         (echo (''[WORKER] gateway='' @ gatewayName config @ '' baud='' @ int_to_string (baudRate config)) st))"

text \<open>The members are destroyed in the reverse of their order.\<close>

definition GatewayWorker_destruct :: "pointer_store \<Rightarrow> pointer_store" where
  "GatewayWorker_destruct st = unique_end u_worker_port (shared_end v_worker_config st)"

definition showConfig :: "nat \<Rightarrow> pointer_store \<Rightarrow> pointer_store option" where
  "showConfig weakConfig st =
     (let st = weak_lock v_locked weakConfig st in
      if the (shared_vars st v_locked) = None
      then Some (shared_end v_locked (echo ''[MONITOR] config expired'' st))
      else Option.bind (shared_deref v_locked st) (\<lambda>config.
             Some (shared_end v_locked (echo (''[MONITOR] gateway='' @ gatewayName config) st))))"

definition smart_pointer_main :: "pointer_store \<Rightarrow> pointer_store option" where
  "smart_pointer_main st =
     (let st = make_shared v_config \<lparr>gatewayName = ''linux-iot-gateway'', baudRate = 115200\<rparr> st;
          st = echo (''[MAIN] config use_count='' @ to_string (use_count v_config st)) st;
          st = weak_from_shared w_weakConfig v_config st;
          st = make_unique u_serialPort ''/dev/ttyUSB0'' st;
          st = GatewayWorker_construct st;
          st = echo (''[MAIN] serial moved='' @ boolalpha (unique_vars st u_serialPort = Some None)) st;
          st = echo (''[MAIN] config use_count='' @ to_string (use_count v_config st)) st in
      Option.bind (GatewayWorker_execute ''HAND_GRAB'' st) (\<lambda>st.
      Option.bind (showConfig w_weakConfig st) (\<lambda>st.
      let st = echo ''[MAIN] external config reset'' (shared_reset v_config st) in
      Option.bind (showConfig w_weakConfig st) (\<lambda>st.
      Some (shared_end v_config (weak_end w_weakConfig (unique_end u_serialPort (GatewayWorker_destruct st))))))))"

definition new_pointer_store :: pointer_store where
  "new_pointer_store =
     \<lparr>blocks = Map.empty, next_block = 0, shared_vars = Map.empty, weak_vars = Map.empty,
      ports = Map.empty, next_port = 0, unique_vars = Map.empty, printed = []\<rparr>"

section \<open>Programs over shared and weak pointers\<close>

datatype sp_op =
  MakeShared nat GatewayConfig
  | SharedCopy nat nat
  | SharedMove nat nat
  | SharedReset nat
  | SharedEnd nat
  | WeakFromShared nat nat
  | WeakEnd nat
  | WeakLock nat nat

fun sp_step :: "sp_op \<Rightarrow> pointer_store \<Rightarrow> pointer_store" where
  "sp_step (MakeShared v config) st = make_shared v config st"
| "sp_step (SharedCopy v w) st = shared_copy v w st"
| "sp_step (SharedMove v w) st = shared_move v w st"
| "sp_step (SharedReset v) st = shared_reset v st"
| "sp_step (SharedEnd v) st = shared_end v st"
| "sp_step (WeakFromShared w v) st = weak_from_shared w v st"
| "sp_step (WeakEnd w) st = weak_end w st"
| "sp_step (WeakLock v w) st = weak_lock v w st"

fun sp_allowed :: "sp_op \<Rightarrow> pointer_store \<Rightarrow> bool" where
  "sp_allowed (MakeShared v config) st = (shared_vars st v = None)"
| "sp_allowed (SharedCopy v w) st = (shared_vars st v = None \<and> shared_vars st w \<noteq> None)"
| "sp_allowed (SharedMove v w) st = (shared_vars st v = None \<and> shared_vars st w \<noteq> None)"
| "sp_allowed (SharedReset v) st = (shared_vars st v \<noteq> None)"
| "sp_allowed (SharedEnd v) st = (shared_vars st v \<noteq> None)"
| "sp_allowed (WeakFromShared w v) st = (weak_vars st w = None \<and> shared_vars st v \<noteq> None)"
| "sp_allowed (WeakEnd w) st = (weak_vars st w \<noteq> None)"
| "sp_allowed (WeakLock v w) st = (shared_vars st v = None \<and> weak_vars st w \<noteq> None)"

inductive sp_reachable :: "pointer_store \<Rightarrow> bool" where
  start: "sp_reachable new_pointer_store"
| operation: "sp_reachable st \<Longrightarrow> sp_allowed op st \<Longrightarrow> sp_reachable (sp_step op st)"

text \<open>How many variables point to a block.\<close>

definition refs :: "(nat \<rightharpoonup> nat option) \<Rightarrow> nat \<Rightarrow> nat" where
  "refs vars b = card {v. vars v = Some (Some b)}"

lemma refs_empty [simp]: "refs Map.empty b = 0"
  by (simp add: refs_def)

lemma finite_refs: "finite (dom vars) \<Longrightarrow> finite {v. vars v = Some (Some b)}"
  by (rule finite_subset) auto

lemma refs_assign_fresh:
  assumes "finite (dom vars)" and "vars v = None \<or> vars v = Some None"
  shows "refs (vars(v \<mapsto> d)) b = refs vars b + (if d = Some b then 1 else 0)"
proof -
  have "{x. (vars(v \<mapsto> d)) x = Some (Some b)} =
      (if d = Some b then insert v {x. vars x = Some (Some b)} else {x. vars x = Some (Some b)})"
    using assms(2) by auto
  moreover have "v \<notin> {x. vars x = Some (Some b)}" using assms(2) by auto
  ultimately show ?thesis using finite_refs [OF assms(1), of b] by (simp add: refs_def)
qed

lemma refs_drop:
  assumes "finite (dom vars)" and "vars v = Some d" and "d' = None \<or> d' = Some None"
  shows "refs (vars(v := d')) b + (if d = Some b then 1 else 0) = refs vars b"
proof -
  have eq: "{x. (vars(v := d')) x = Some (Some b)} = {x. vars x = Some (Some b)} - {v}" using assms(3) by auto
  show ?thesis
  proof (cases "d = Some b")
    case True
    then have "v \<in> {x. vars x = Some (Some b)}" using assms(2) by simp
    with finite_refs [OF assms(1), of b] card.remove [of "{x. vars x = Some (Some b)}" v] eq True show ?thesis
      by (simp add: refs_def)
  next
    case False
    then have "{x. vars x = Some (Some b)} - {v} = {x. vars x = Some (Some b)}" using assms(2) by auto
    with eq False show ?thesis by (simp add: refs_def)
  qed
qed

lemma refs_pos: "finite (dom vars) \<Longrightarrow> vars v = Some (Some b) \<Longrightarrow> 0 < refs vars b"
  using card_gt_0_iff [of "{x. vars x = Some (Some b)}"] finite_refs [of vars b] by (auto simp: refs_def)

text \<open>The counts of a block are the numbers of the variables; the configuration lives while it is owned.\<close>

definition counted :: "ControlBlock option \<Rightarrow> nat \<Rightarrow> nat \<Rightarrow> bool" where
  "counted block owners watchers =
     (case block of
        None \<Rightarrow> owners = 0 \<and> watchers = 0
      | Some c \<Rightarrow> strong_count c = owners \<and> weak_count c = watchers \<and> 0 < owners + watchers \<and>
          (managed c = None \<longleftrightarrow> owners = 0))"

definition sp_inv :: "pointer_store \<Rightarrow> bool" where
  "sp_inv st \<longleftrightarrow> finite (dom (shared_vars st)) \<and> finite (dom (weak_vars st)) \<and>
     (\<forall>b \<ge> next_block st. blocks st b = None) \<and>
     (\<forall>b. counted (blocks st b) (refs (shared_vars st) b) (refs (weak_vars st) b))"

lemma counted_retain_strong:
  assumes "counted (bs b) n m" and "d = Some b \<Longrightarrow> 0 < n"
  shows "counted (retain_strong d bs b) (n + (if d = Some b then 1 else 0)) m"
  using assms by (cases d) (auto simp: counted_def split: option.splits)

lemma counted_retain_weak:
  assumes "counted (bs b) n m" and "d = Some b \<Longrightarrow> 0 < n + m"
  shows "counted (retain_weak d bs b) n (m + (if d = Some b then 1 else 0))"
  using assms by (cases d) (auto simp: counted_def split: option.splits)

lemma counted_release_strong:
  assumes "counted (bs b) (n + (if d = Some b then 1 else 0)) m"
  shows "counted (release_strong d bs b) n m"
  using assms by (cases d) (auto simp: counted_def settle_def split: option.splits bind_splits if_splits)

lemma counted_release_weak:
  assumes "counted (bs b) n (m + (if d = Some b then 1 else 0))"
  shows "counted (release_weak d bs b) n m"
  using assms by (cases d) (auto simp: counted_def settle_def split: option.splits bind_splits if_splits)

lemma retain_release_None:
  "bs b = None \<Longrightarrow> retain_strong d bs b = None" "bs b = None \<Longrightarrow> retain_weak d bs b = None"
  "bs b = None \<Longrightarrow> release_strong d bs b = None" "bs b = None \<Longrightarrow> release_weak d bs b = None"
  by (cases d; auto)+

lemma sp_invD:
  assumes "sp_inv st"
  shows "finite (dom (shared_vars st))" "finite (dom (weak_vars st))" "next_block st \<le> b \<Longrightarrow> blocks st b = None"
    "counted (blocks st b) (refs (shared_vars st) b) (refs (weak_vars st) b)"
  using assms by (auto simp: sp_inv_def)

text \<open>A shared variable that gains a pointer to an owned block, and one that loses its pointer.\<close>

lemma sp_inv_own:
  assumes "sp_inv st" and "shared_vars st v = None" and "\<And>b. d = Some b \<Longrightarrow> 0 < refs (shared_vars st) b"
  shows "sp_inv (st\<lparr>blocks := retain_strong d (blocks st), shared_vars := (shared_vars st)(v \<mapsto> d)\<rparr>)"
proof -
  note inv = sp_invD [OF assms(1)]
  have "counted (retain_strong d (blocks st) b) (refs ((shared_vars st)(v \<mapsto> d)) b) (refs (weak_vars st) b)" for b
    unfolding refs_assign_fresh [OF inv(1) disjI1 [OF assms(2)]]
    using inv(4) assms(3) by (rule counted_retain_strong)
  with inv show ?thesis by (auto simp: sp_inv_def retain_release_None)
qed

lemma sp_inv_disown:
  assumes "sp_inv st" and "shared_vars st v = Some d" and "d' = None \<or> d' = Some None"
  shows "sp_inv (st\<lparr>blocks := release_strong d (blocks st), shared_vars := (shared_vars st)(v := d')\<rparr>)"
proof -
  note inv = sp_invD [OF assms(1)]
  have "counted (release_strong d (blocks st) b) (refs ((shared_vars st)(v := d')) b) (refs (weak_vars st) b)" for b
    using inv(4) [of b] refs_drop [OF inv(1) assms(2,3), of b] by (intro counted_release_strong) simp
  with inv show ?thesis by (auto simp: sp_inv_def retain_release_None)
qed

lemma sp_inv_move:
  assumes "sp_inv st" and "shared_vars st v = None" and "shared_vars st w = Some d"
  shows "sp_inv (shared_move v w st)"
proof -
  note inv = sp_invD [OF assms(1)]
  have "v \<noteq> w" using assms(2,3) by auto
  have fin: "finite (dom ((shared_vars st)(v \<mapsto> d)))" using inv(1) by simp
  have "refs ((shared_vars st)(v \<mapsto> d, w \<mapsto> None)) b = refs (shared_vars st) b" for b
    using refs_drop [OF fin, of w d "Some None" b] refs_assign_fresh [OF inv(1), of v d b] assms(2,3) \<open>v \<noteq> w\<close> by simp
  with inv assms(3) show ?thesis by (auto simp: sp_inv_def shared_move_def)
qed

lemma lock_target_owned:
  assumes "sp_inv st" and "lock_target w st = Some b"
  shows "0 < refs (shared_vars st) b"
  using assms(2) sp_invD(4) [OF assms(1), of b]
  by (auto simp: lock_target_def counted_def split: option.splits if_splits)

lemma sp_inv_make_shared:
  assumes "sp_inv st" and "shared_vars st v = None"
  shows "sp_inv (make_shared v config st)"
proof -
  note inv = sp_invD [OF assms(1)]
  let ?n = "next_block st"
  have none: "refs (shared_vars st) ?n = 0" "refs (weak_vars st) ?n = 0"
    using inv(4) [of ?n] inv(3) [of ?n] by (simp_all add: counted_def)
  have "counted (((blocks st)(?n \<mapsto> \<lparr>managed = Some config, strong_count = 1, weak_count = 0\<rparr>)) b)
      (refs ((shared_vars st)(v \<mapsto> Some ?n)) b) (refs (weak_vars st) b)" for b
    using none inv(4) [of b] refs_assign_fresh [OF inv(1) disjI1 [OF assms(2)], of "Some ?n" b]
    by (cases "b = ?n") (simp_all add: counted_def)
  with inv show ?thesis by (auto simp: sp_inv_def make_shared_def)
qed

lemma sp_inv_weak_from:
  assumes "sp_inv st" and "weak_vars st w = None" and "shared_vars st v = Some d"
  shows "sp_inv (weak_from_shared w v st)"
proof -
  note inv = sp_invD [OF assms(1)]
  have "0 < refs (shared_vars st) b" if "d = Some b" for b using refs_pos [OF inv(1)] assms(3) that by simp
  then have "counted (retain_weak d (blocks st) b) (refs (shared_vars st) b) (refs ((weak_vars st)(w \<mapsto> d)) b)" for b
    unfolding refs_assign_fresh [OF inv(2) disjI1 [OF assms(2)]]
    using inv(4) by (intro counted_retain_weak) simp_all
  with inv assms(3) show ?thesis by (auto simp: sp_inv_def weak_from_shared_def retain_release_None)
qed

lemma sp_inv_weak_end:
  assumes "sp_inv st" and "weak_vars st w = Some d"
  shows "sp_inv (weak_end w st)"
proof -
  note inv = sp_invD [OF assms(1)]
  have "counted (release_weak d (blocks st) b) (refs (shared_vars st) b) (refs ((weak_vars st)(w := None)) b)" for b
    using inv(4) [of b] refs_drop [OF inv(2) assms(2), of None b] by (intro counted_release_weak) simp
  with inv assms(2) show ?thesis by (auto simp: sp_inv_def weak_end_def retain_release_None)
qed

lemma sp_inv_step:
  assumes "sp_inv st" and "sp_allowed op st"
  shows "sp_inv (sp_step op st)"
proof (cases op)
  case (SharedCopy v w)
  with assms(2) obtain d where d: "shared_vars st v = None" "shared_vars st w = Some d" by auto
  have "0 < refs (shared_vars st) b" if "d = Some b" for b
    using refs_pos [OF sp_invD(1) [OF assms(1)]] d(2) that by simp
  with sp_inv_own [OF assms(1) d(1)] SharedCopy d(2) show ?thesis by (simp add: shared_copy_def Let_def)
next
  case (SharedReset v)
  with assms(2) obtain d where d: "shared_vars st v = Some d" by auto
  with sp_inv_disown [OF assms(1) d, of "Some None"] SharedReset show ?thesis by (simp add: shared_reset_def)
next
  case (SharedEnd v)
  with assms(2) obtain d where d: "shared_vars st v = Some d" by auto
  with sp_inv_disown [OF assms(1) d, of None] SharedEnd show ?thesis by (simp add: shared_end_def)
next
  case (WeakLock v w)
  with assms(2) have "shared_vars st v = None" by simp
  with sp_inv_own [OF assms(1) this] lock_target_owned [OF assms(1)] WeakLock show ?thesis
    by (simp add: weak_lock_def)
qed (use assms in \<open>auto intro: sp_inv_make_shared sp_inv_move sp_inv_weak_from sp_inv_weak_end\<close>)

lemma sp_inv_reachable: "sp_reachable st \<Longrightarrow> sp_inv st"
proof (induction rule: sp_reachable.induct)
  case start
  show ?case by (simp add: sp_inv_def new_pointer_store_def counted_def)
next
  case (operation st op)
  then show ?case by (blast intro: sp_inv_step)
qed

lemma sample_reachable:
  "sp_reachable (fold sp_step [MakeShared 1 config, WeakFromShared 1 1, SharedCopy 2 1, SharedReset 1] new_pointer_store)"
proof -
  have "sp_reachable (sp_step (MakeShared 1 config) new_pointer_store)"
    by (rule sp_reachable.operation [OF sp_reachable.start]) (simp add: new_pointer_store_def)
  note sp_reachable.operation [OF this, of "WeakFromShared 1 1"]
  note sp_reachable.operation [OF this, of "SharedCopy 2 1"]
  note sp_reachable.operation [OF this, of "SharedReset 1"]
  then show ?thesis
    by (simp add: new_pointer_store_def make_shared_def weak_from_shared_def shared_copy_def Let_def)
qed

section \<open>Properties\<close>

text \<open>
  The counts are exact: in every state that operations on shared and weak pointers can
  reach, \<^verbatim>\<open>use_count\<close> of a pointer that is not null is the number of the owners of its block;
  dereferencing it is defined; a configuration exists exactly while it has an owner and its block
  exactly while it has an owner or a watcher; and \<^verbatim>\<open>lock\<close> gives a pointer that can be dereferenced
  exactly when there is an owner, and null otherwise.
\<close>

theorem shared_counts_exact:
  assumes "sp_reachable st"
  shows "(\<forall>v b. shared_vars st v = Some (Some b) \<longrightarrow>
        use_count v st = refs (shared_vars st) b \<and> 0 < use_count v st \<and> shared_deref v st \<noteq> None) \<and>
    (\<forall>b. blocks st b \<noteq> None \<longleftrightarrow> 0 < refs (shared_vars st) b + refs (weak_vars st) b) \<and>
    (\<forall>b c. blocks st b = Some c \<longrightarrow> (managed c \<noteq> None \<longleftrightarrow> 0 < refs (shared_vars st) b)) \<and>
    (\<forall>w b. weak_vars st w = Some (Some b) \<longrightarrow>
        lock_target w st = (if 0 < refs (shared_vars st) b then Some b else None))"
proof (intro conjI allI impI)
  note inv = sp_invD [OF sp_inv_reachable [OF assms]]
  fix v w b c
  show "blocks st b \<noteq> None \<longleftrightarrow> 0 < refs (shared_vars st) b + refs (weak_vars st) b"
    using inv(4) [of b] by (auto simp: counted_def split: option.splits)
  show "managed c \<noteq> None \<longleftrightarrow> 0 < refs (shared_vars st) b" if "blocks st b = Some c"
    using that inv(4) [of b] by (simp add: counted_def)
  show "lock_target w st = (if 0 < refs (shared_vars st) b then Some b else None)" if "weak_vars st w = Some (Some b)"
    using that inv(4) [of b] by (auto simp: counted_def lock_target_def split: option.splits)
  assume v: "shared_vars st v = Some (Some b)"
  then have pos: "0 < refs (shared_vars st) b" by (rule refs_pos [OF inv(1)])
  with v inv(4) [of b] show "use_count v st = refs (shared_vars st) b" "0 < use_count v st"
    by (auto simp: counted_def use_count_def split: option.splits)
  from v pos inv(4) [of b] show "shared_deref v st \<noteq> None"
    by (auto simp: counted_def shared_deref_def split: option.splits)
qed

theorem shared_counts_exact_witness:
  "let st = fold sp_step [MakeShared 1 \<lparr>gatewayName = ''gw'', baudRate = 9600\<rparr>, WeakFromShared 1 1, SharedCopy 2 1, SharedReset 1]
      new_pointer_store
   in sp_reachable st \<and> lock_target 1 st = Some 0 \<and> use_count 2 st = refs (shared_vars st) 0"
proof -
  let ?config = "\<lparr>gatewayName = ''gw'', baudRate = 9600\<rparr>"
  let ?ops = "[MakeShared 1 ?config, WeakFromShared 1 1, SharedCopy 2 1, SharedReset 1]"
  let ?st = "fold sp_step ?ops new_pointer_store"
  have reach: "sp_reachable ?st" by (rule sample_reachable)
  have vars: "shared_vars ?st 2 = Some (Some 0)" "weak_vars ?st 1 = Some (Some 0)" by code_simp+
  note all = shared_counts_exact [OF reach]
  have "use_count 2 ?st = refs (shared_vars ?st) 0" "0 < use_count 2 ?st" using all vars(1) by blast+
  moreover from this have "lock_target 1 ?st = Some 0" using all vars(2) by (simp only: if_True simp_thms)
  ultimately show ?thesis using reach by (simp only: Let_def simp_thms)
qed

text \<open>
  Claim C33. The monitor is safe in every reachable state: \<^verbatim>\<open>showConfig\<close> on a watcher of a configuration
  never dereferences what is not there; if some pointer owns the configuration it prints the name
  that this pointer sees, and otherwise that the configuration has expired; and when it returns, the
  blocks with their counts and all pointers are as they were.
\<close>

theorem show_config_safe:
  assumes "sp_reachable st" and "weak_vars st w = Some (Some b)" and "shared_vars st v_locked = None"
  shows "\<exists>st'. showConfig w st = Some st' \<and> blocks st' = blocks st \<and> shared_vars st' = shared_vars st \<and>
    weak_vars st' = weak_vars st \<and>
    (\<forall>v. shared_vars st v = Some (Some b) \<longrightarrow> (\<exists>config. shared_deref v st = Some config \<and>
       printed st' = printed st @ [''[MONITOR] gateway='' @ gatewayName config])) \<and>
    ((\<nexists>v. shared_vars st v = Some (Some b)) \<longrightarrow> printed st' = printed st @ [''[MONITOR] config expired''])"
proof -
  note inv = sp_invD [OF sp_inv_reachable [OF assms(1)]]
  have "0 < refs (weak_vars st) b" by (rule refs_pos [OF inv(2) assms(2)])
  with inv(4) [of b] obtain c where c: "blocks st b = Some c" "strong_count c = refs (shared_vars st) b"
    "managed c = None \<longleftrightarrow> refs (shared_vars st) b = 0"
    by (auto simp: counted_def split: option.splits)
  have same: "(shared_vars st)(v_locked := None) = shared_vars st" "(blocks st)(b \<mapsto> c) = blocks st"
    using assms(3) c(1) by auto
  show ?thesis
  proof (cases "refs (shared_vars st) b = 0")
    case True
    then have "\<nexists>v. shared_vars st v = Some (Some b)" using refs_pos [OF inv(1)] by (metis less_irrefl)
    moreover have "lock_target w st = None" using assms(2) c True by (simp add: lock_target_def)
    ultimately show ?thesis using same by (simp add: showConfig_def weak_lock_def shared_end_def echo_def)
  next
    case False
    then obtain config where config: "managed c = Some config" using c(3) by auto
    have owned: "\<exists>v. shared_vars st v = Some (Some b)"
    proof (rule ccontr)
      assume "\<nexists>v. shared_vars st v = Some (Some b)"
      then have "{v. shared_vars st v = Some (Some b)} = {}" by blast
      with False show False by (simp add: refs_def)
    qed
    have "lock_target w st = Some b" using assms(2) c False by (simp add: lock_target_def)
    moreover have "settle (c\<lparr>strong_count := strong_count c\<rparr>) = Some c" using c(2) False by (simp add: settle_def)
    ultimately show ?thesis using same c config owned
      by (simp add: showConfig_def weak_lock_def shared_end_def echo_def shared_deref_def)
  qed
qed

text \<open>The owner that is left after the first pointer is reset.\<close>

theorem show_config_safe_witness:
  "let st = fold sp_step [MakeShared 1 \<lparr>gatewayName = ''gw'', baudRate = 9600\<rparr>, WeakFromShared 1 1, SharedCopy 2 1, SharedReset 1]
      new_pointer_store
   in \<exists>st'. showConfig 1 st = Some st' \<and> printed st' = [''[MONITOR] gateway=gw'']"
proof -
  let ?config = "\<lparr>gatewayName = ''gw'', baudRate = 9600\<rparr>"
  let ?st = "fold sp_step [MakeShared 1 ?config, WeakFromShared 1 1, SharedCopy 2 1, SharedReset 1] new_pointer_store"
  have "weak_vars ?st 1 = Some (Some 0)" "shared_vars ?st v_locked = None" by code_simp+
  from show_config_safe [OF sample_reachable this] obtain st' where st': "showConfig 1 ?st = Some st'"
    "\<forall>v. shared_vars ?st v = Some (Some 0) \<longrightarrow> (\<exists>config. shared_deref v ?st = Some config \<and>
       printed st' = printed ?st @ [''[MONITOR] gateway='' @ gatewayName config])" by blast
  have "shared_vars ?st 2 = Some (Some 0)" "shared_deref 2 ?st = Some ?config" "printed ?st = []" by code_simp+
  with st'(2) have "printed st' = [] @ [''[MONITOR] gateway='' @ gatewayName ?config]" by (metis option.inject)
  then have "printed st' = [''[MONITOR] gateway=gw'']" by simp
  with st'(1) show ?thesis by (simp only: Let_def) blast
qed

text \<open>
  The demonstration of smart pointers: the port is moved into the worker, which keeps the
  configuration alive after the external pointer is reset, so that the monitor still finds it; the
  port is closed once, at the end; nothing is dereferenced that is not there, and no block and no
  port is left.
\<close>

theorem smart_pointer_result:
  "\<exists>st. smart_pointer_main new_pointer_store = Some st \<and>
    list_all (\<lambda>b. blocks st b = None) [0..<next_block st] \<and> list_all (\<lambda>p. ports st p = None) [0..<next_port st] \<and>
    printed st =
      [''[MAIN] config use_count=1'', ''[SERIAL] open /dev/ttyUSB0'', ''[MAIN] serial moved=true'',
       ''[MAIN] config use_count=2'', ''[WORKER] gateway=linux-iot-gateway baud=115200'', ''[SERIAL] send HAND_GRAB'',
       ''[MONITOR] gateway=linux-iot-gateway'', ''[MAIN] external config reset'', ''[MONITOR] gateway=linux-iot-gateway'',
       ''[SERIAL] close /dev/ttyUSB0'']"
proof -
  have "case smart_pointer_main new_pointer_store of
      None \<Rightarrow> False
    | Some st \<Rightarrow>
        list_all (\<lambda>b. blocks st b = None) [0..<next_block st] \<and> list_all (\<lambda>p. ports st p = None) [0..<next_port st] \<and>
        printed st =
          [''[MAIN] config use_count=1'', ''[SERIAL] open /dev/ttyUSB0'', ''[MAIN] serial moved=true'',
           ''[MAIN] config use_count=2'', ''[WORKER] gateway=linux-iot-gateway baud=115200'', ''[SERIAL] send HAND_GRAB'',
           ''[MONITOR] gateway=linux-iot-gateway'', ''[MAIN] external config reset'', ''[MONITOR] gateway=linux-iot-gateway'',
           ''[SERIAL] close /dev/ttyUSB0'']"
    by code_simp
  then show ?thesis by (cases "smart_pointer_main new_pointer_store") (simp_all only: option.case simp_thms, blast)
qed

end
