(* ===== verification/Data_Source.thy ===== *)
theory Data_Source
  imports Uart_Io C_Text
begin

text \<open>
  \<^verbatim>\<open>data_source.c\<close> of the C gateway, in both of its configurations: the serial device and the list of
  mock lines. What the program does to the outside is a list of events; the answers of the system
  calls are arguments. The lines are read byte by byte from a list of results of \<^verbatim>\<open>read\<close>.
\<close>

section \<open>Events of the gateway\<close>

datatype gw_event =
  Printf string
  | Perror string
  | SerialOpen string int
  | SerialSet int Termios u32 u32 u32
  | SerialFlush int
  | SerialClose int
  | AppLog string
  | SensorLog string
  | MosqLibInit
  | MosqNew bool
  | MosqConnect int
  | MosqPublish string int
  | MosqLoop
  | MosqDisconnect
  | MosqDestroy
  | MosqLibCleanup

section \<open>Configuring the device\<close>

record SerialTermios = Termios +
  c_iflag :: u32
  c_lflag :: u32
  c_oflag :: u32

definition IGNBRK :: u32 where "IGNBRK = 0x1"
definition BRKINT :: u32 where "BRKINT = 0x2"
definition PARMRK :: u32 where "PARMRK = 0x8"
definition ISTRIP :: u32 where "ISTRIP = 0x20"
definition INLCR :: u32 where "INLCR = 0x40"
definition IGNCR :: u32 where "IGNCR = 0x80"
definition ICRNL :: u32 where "ICRNL = 0x100"
definition IXON :: u32 where "IXON = 0x400"
definition IXANY :: u32 where "IXANY = 0x800"
definition IXOFF :: u32 where "IXOFF = 0x1000"
definition ISIG :: u32 where "ISIG = 0x1"
definition ICANON :: u32 where "ICANON = 0x2"
definition ECHO :: u32 where "ECHO = 0x8"
definition ECHOE :: u32 where "ECHOE = 0x10"
definition OPOST :: u32 where "OPOST = 0x1"

lemmas serial_flags = termios_flags IGNBRK_def BRKINT_def PARMRK_def ISTRIP_def INLCR_def IGNCR_def ICRNL_def
  IXON_def IXANY_def IXOFF_def ISIG_def ICANON_def ECHO_def ECHOE_def OPOST_def

definition SERIAL_DEV :: string where "SERIAL_DEV = ''/dev/ttyUSB0''"

text \<open>The answers of the calls that open and configure the device.\<close>

record serial_os =
  ser_open :: int
  ser_tcgetattr :: "int \<times> SerialTermios"
  ser_cfsetispeed :: "SerialTermios \<Rightarrow> int \<times> SerialTermios"
  ser_cfsetospeed :: "SerialTermios \<Rightarrow> int \<times> SerialTermios"
  ser_tcflush :: int
  ser_tcsetattr :: int
  ser_close :: int

definition serial_options :: "SerialTermios \<Rightarrow> SerialTermios" where
  "serial_options o1 =
     (let o2 = o1\<lparr>c_cflag := c_cflag o1 AND NOT (PARENB OR CSTOPB OR CSIZE)\<rparr>;
          o3 = o2\<lparr>c_cflag := c_cflag o2 OR CS8\<rparr>;
          o4 = o3\<lparr>c_cflag := c_cflag o3 OR (CREAD OR CLOCAL)\<rparr>;
          o5 = o4\<lparr>c_cflag := c_cflag o4 AND NOT CRTSCTS\<rparr>;
          o6 = o5\<lparr>c_iflag := c_iflag o5 AND NOT (IXON OR IXOFF OR IXANY)\<rparr>;
          o7 = o6\<lparr>c_iflag := c_iflag o6 AND NOT (IGNBRK OR BRKINT OR PARMRK OR ISTRIP OR INLCR OR IGNCR OR ICRNL)\<rparr>;
          o8 = o7\<lparr>c_lflag := c_lflag o7 AND NOT (ICANON OR ECHO OR ECHOE OR ISIG)\<rparr>;
          o9 = o8\<lparr>c_oflag := c_oflag o8 AND NOT OPOST\<rparr>
      in o9\<lparr>c_vmin := 0, c_vtime := 10\<rparr>)"

definition serial_configure :: "serial_os \<Rightarrow> int \<Rightarrow> int \<times> gw_event list" where
  "serial_configure os fd =
     (case ser_tcgetattr os of (r, options) \<Rightarrow>
       if r \<noteq> 0 then (-1, [Perror ''tcgetattr failed''])
       else case ser_cfsetispeed os options of (r1, options1) \<Rightarrow>
         if r1 \<noteq> 0 then (-1, [Perror ''set baud rate failed''])
         else case ser_cfsetospeed os options1 of (r2, options2) \<Rightarrow>
           if r2 \<noteq> 0 then (-1, [Perror ''set baud rate failed''])
           else
             let options3 = serial_options options2 in
             if ser_tcflush os \<noteq> 0 then (-1, [SerialFlush fd, Perror ''tcflush failed''])
             else
               let set = SerialSet fd (Termios.truncate options3) (c_iflag options3) (c_lflag options3) (c_oflag options3) in
               if ser_tcsetattr os \<noteq> 0 then (-1, [SerialFlush fd, set, Perror ''tcsetattr failed''])
               else (0, [SerialFlush fd, set]))"

text \<open>The value returned, \<^verbatim>\<open>serial_fd\<close> afterwards, and the events.\<close>

definition data_source_init :: "serial_os \<Rightarrow> int \<times> int \<times> gw_event list" where
  "data_source_init os =
     (let serial_fd = ser_open os; opened = SerialOpen SERIAL_DEV serial_fd in
      if serial_fd < 0 then (-1, serial_fd, [opened, Perror ''open serial device failed''])
      else case serial_configure os serial_fd of (r, es) \<Rightarrow>
        if r \<noteq> 0 then (-1, -1, [opened] @ es @ [SerialClose serial_fd])
        else (0, serial_fd, [opened] @ es @ [Printf (''data source: serial mode, device='' @ SERIAL_DEV)]))"

definition data_source_cleanup :: "serial_os \<Rightarrow> int \<Rightarrow> int \<times> gw_event list" where
  "data_source_cleanup os serial_fd =
     (if serial_fd \<ge> 0
      then (-1, [SerialClose serial_fd] @ (if ser_close os \<noteq> 0 then [Perror ''close serial device failed''] else []) @
                [Printf ''data source cleanup''])
      else (serial_fd, [Printf ''data source cleanup'']))"

section \<open>Reading a line\<close>

datatype read_result =
  Received char
  | TimedOut
  | Interrupted
  | ReadError

definition is_eol :: "char \<Rightarrow> bool" where
  "is_eol ch \<longleftrightarrow> ch = CHR 0x0D \<or> ch = CHR 0x0A"

text \<open>
  The loop over the calls of \<^verbatim>\<open>read\<close>: whether it ended without an error, the characters stored, and
  the results not used. \<open>None\<close> means that it asks for a call that has not returned.
\<close>

fun read_loop :: "nat \<Rightarrow> read_result list \<Rightarrow> string \<Rightarrow> (bool \<times> string \<times> read_result list) option" where
  "read_loop buf_size results buf =
     (if length buf < buf_size - 1
      then (case results of
              [] \<Rightarrow> None
            | Received ch # rest \<Rightarrow>
                if is_eol ch
                then (if buf \<noteq> [] then Some (True, buf, rest) else read_loop buf_size rest buf)
                else read_loop buf_size rest (buf @ [ch])
            | TimedOut # rest \<Rightarrow> Some (True, buf, rest)
            | Interrupted # rest \<Rightarrow> read_loop buf_size rest buf
            | ReadError # rest \<Rightarrow> Some (False, buf, rest))
      else Some (True, buf, results))"

declare read_loop.simps [simp del]

text \<open>
  The value returned, the bytes before the terminating null, the results left, and the events. The
  first argument says that the pointer to the buffer is not null.
\<close>

definition data_source_read ::
    "bool \<Rightarrow> int \<Rightarrow> nat \<Rightarrow> read_result list \<Rightarrow> (int \<times> string \<times> read_result list \<times> gw_event list) option" where
  "data_source_read buf serial_fd buf_size results =
     (if \<not> buf \<or> buf_size \<le> 1 \<or> serial_fd < 0 then Some (-1, [], results, [])
      else case read_loop buf_size results [] of
        None \<Rightarrow> None
      | Some (ok, buf, rest) \<Rightarrow>
          if \<not> ok then Some (-1, buf, rest, [Perror ''read serial device failed''])
          else if buf = [] then Some (-1, [], rest, [])
          else Some (0, buf, rest, []))"

section \<open>The mock configuration\<close>

definition mock_data_list :: "string list" where
  "mock_data_list =
     [''temp=25,humi=60,device_id=stm32_01'', ''temp=26,humi=61,device_id=stm32_01'', ''bad data_from_stm32'',
      ''temp=28,humi=63,device_id=stm32_01'', ''temp=29,humi=64,device_id=stm32_01'']"

definition mock_data_source_init :: "int \<times> gw_event list" where
  "mock_data_source_init = (0, [Printf ''data source:mock mode''])"

text \<open>The value returned, the string in the buffer, and \<^verbatim>\<open>mock_index\<close> afterwards.\<close>

definition mock_data_source_read :: "bool \<Rightarrow> int \<Rightarrow> nat \<Rightarrow> int \<times> string \<times> nat" where
  "mock_data_source_read buf buf_size mock_index =
     (if \<not> buf \<or> buf_size \<le> 0 then (-1, [], mock_index)
      else
        let count = length mock_data_list; next_index = mock_index + 1 in
        (0, snd (snprintf (nat buf_size) (mock_data_list ! mock_index)), if next_index \<ge> count then 0 else next_index))"

definition mock_data_source_cleanup :: "gw_event list" where
  "mock_data_source_cleanup = [Printf ''data source cleanup'']"

section \<open>Lemmas on reading\<close>

lemma read_loop_full: "n - 1 \<le> length buf \<Longrightarrow> read_loop n rs buf = Some (True, buf, rs)"
  by (simp add: read_loop.simps)

lemma read_loop_steps:
  assumes "length buf < n - 1"
  shows "read_loop n [] buf = None"
    "read_loop n (Received ch # rs) buf =
       (if is_eol ch then (if buf \<noteq> [] then Some (True, buf, rs) else read_loop n rs buf) else read_loop n rs (buf @ [ch]))"
    "read_loop n (TimedOut # rs) buf = Some (True, buf, rs)"
    "read_loop n (Interrupted # rs) buf = read_loop n rs buf"
    "read_loop n (ReadError # rs) buf = Some (False, buf, rs)"
  using assms
  by (simp_all add: read_loop.simps [of n "[]" buf] read_loop.simps [of n "Received ch # rs" buf]
      read_loop.simps [of n "TimedOut # rs" buf] read_loop.simps [of n "Interrupted # rs" buf]
      read_loop.simps [of n "ReadError # rs" buf])

text \<open>The characters stored fit into the buffer with its null, and none of them ends a line.\<close>

lemma read_loop_bounds:
  assumes "read_loop n rs buf = Some (ok, out, rest)" and "length buf \<le> n - 1" and "list_all (\<lambda>c. \<not> is_eol c) buf"
  shows "length out \<le> n - 1 \<and> list_all (\<lambda>c. \<not> is_eol c) out"
  using assms
proof (induction rs arbitrary: buf)
  case Nil
  then show ?case by (cases "length buf < n - 1") (auto simp: read_loop_steps read_loop_full)
next
  case (Cons r rs)
  show ?case
  proof (cases "length buf < n - 1")
    case True
    with Cons show ?thesis by (cases r) (auto simp: read_loop_steps split: if_splits)
  next
    case False
    with Cons.prems show ?thesis by (simp add: read_loop_full)
  qed
qed

text \<open>An interrupted call makes no difference.\<close>

lemma read_loop_interrupted:
  "read_loop n (filter (\<lambda>r. r \<noteq> Interrupted) rs) buf =
     map_option (\<lambda>(ok, out, rest). (ok, out, filter (\<lambda>r. r \<noteq> Interrupted) rest)) (read_loop n rs buf)"
proof (induction rs arbitrary: buf)
  case Nil
  then show ?case by (cases "length buf < n - 1") (simp_all add: read_loop_steps read_loop_full)
next
  case (Cons r rs)
  then show ?case
    by (cases "length buf < n - 1"; cases r) (simp_all add: read_loop_steps read_loop_full)
qed

lemma read_loop_part:
  assumes "list_all (\<lambda>c. \<not> is_eol c) line" and "length buf + length line < n - 1"
  shows "read_loop n (map Received line @ rs) buf = read_loop n rs (buf @ line)"
  using assms by (induction line arbitrary: buf) (auto simp: read_loop_steps)

lemma read_loop_leading:
  assumes "list_all is_eol pre" and "1 < n"
  shows "read_loop n (map Received pre @ rs) [] = read_loop n rs []"
  using assms by (induction pre) (simp_all add: read_loop_steps)

lemma read_loop_long:
  assumes "list_all (\<lambda>c. \<not> is_eol c) line" and "n - 1 = length buf + length line"
  shows "read_loop n (map Received line @ later) buf = Some (True, buf @ line, later)"
  using assms by (induction line arbitrary: buf) (auto simp: read_loop_steps read_loop_full)

text \<open>What is made of the end of the loop.\<close>

definition read_outcome :: "bool \<Rightarrow> string \<Rightarrow> read_result list \<Rightarrow> int \<times> string \<times> read_result list \<times> gw_event list" where
  "read_outcome ok buf rest =
     (if \<not> ok then (-1, buf, rest, [Perror ''read serial device failed''])
      else if buf = [] then (-1, buf, rest, []) else (0, buf, rest, []))"

lemma read_outcome:
  "1 < n \<Longrightarrow> 0 \<le> fd \<Longrightarrow>
     data_source_read True fd n rs = map_option (\<lambda>(ok, buf, rest). read_outcome ok buf rest) (read_loop n rs [])"
  by (cases "read_loop n rs []") (simp_all add: data_source_read_def read_outcome_def split: prod.split)

section \<open>Properties\<close>

text \<open>
  Claim C27. A line is read from the serial device exactly: with a buffer of at least two characters
  and an open device, whatever the results of \<^verbatim>\<open>read\<close> are, what is stored fits into the buffer with
  its null and holds no end of line; success means that something was stored. After any line ends left
  over, the characters up to the first result that is not a character of the line decide the call: a
  line that fits and its end give the line whole; a line that does not fit is cut after as many
  characters as fit, and the rest stays to be read; a timeout ends the call with what has come so far,
  as a line if that is not empty and as a failure if it is; an error gives -1; and if the line is
  unfinished and there is no further result, the call goes on waiting. Each time the results after that
  point are left for the next call. Calls interrupted by a signal change nothing.
\<close>

theorem data_source_read_exact:
  assumes "1 < n" and "0 \<le> fd" and "list_all is_eol pre" and "list_all (\<lambda>c. \<not> is_eol c) line" and "is_eol t"
  shows "(\<forall>rs ret out rest es. data_source_read True fd n rs = Some (ret, out, rest, es) \<longrightarrow>
        ret \<in> {0, -1} \<and> length out \<le> n - 1 \<and> list_all (\<lambda>c. \<not> is_eol c) out \<and> (ret = 0 \<longrightarrow> out \<noteq> [])) \<and>
    (line \<noteq> [] \<and> length line < n - 1 \<longrightarrow>
       data_source_read True fd n (map Received (pre @ line) @ Received t # later) = Some (0, line, later, [])) \<and>
    (n - 1 \<le> length line \<longrightarrow>
       data_source_read True fd n (map Received (pre @ line) @ later) =
         Some (0, take (n - 1) line, map Received (drop (n - 1) line) @ later, [])) \<and>
    (length line < n - 1 \<longrightarrow>
       data_source_read True fd n (map Received (pre @ line) @ TimedOut # later) =
         Some (if line = [] then -1 else 0, line, later, []) \<and>
       data_source_read True fd n (map Received (pre @ line) @ ReadError # later) =
         Some (-1, line, later, [Perror ''read serial device failed'']) \<and>
       data_source_read True fd n (map Received (pre @ line)) = None) \<and>
    data_source_read True fd n (filter (\<lambda>r. r \<noteq> Interrupted) rs) =
      map_option (\<lambda>(ret, out, rest, es). (ret, out, filter (\<lambda>r. r \<noteq> Interrupted) rest, es)) (data_source_read True fd n rs)"
proof (intro conjI allI impI)
  fix rs ret out rest es assume r: "data_source_read True fd n rs = Some (ret, out, rest, es)"
  then obtain ok buf left where loop: "read_loop n rs [] = Some (ok, buf, left)"
    and result: "read_outcome ok buf left = (ret, out, rest, es)"
    unfolding read_outcome [OF assms(1,2)] by auto
  have out: "out = buf" "ret = (if ok \<and> buf \<noteq> [] then 0 else -1)"
    using result by (simp_all add: read_outcome_def split: if_splits)
  from read_loop_bounds [OF loop] out show "length out \<le> n - 1" "list_all (\<lambda>c. \<not> is_eol c) out" by simp_all
  from out show "ret \<in> {0, -1}" by simp
  show "out \<noteq> []" if "ret = 0" using out that by (auto split: if_splits)
next
  have part: "read_loop n (map Received pre @ map Received line @ rs) [] = read_loop n rs line" if "length line < n - 1" for rs
    using that read_loop_leading [OF assms(3,1)] read_loop_part [OF assms(4), of "[]" n rs] by simp
  show "data_source_read True fd n (map Received (pre @ line) @ Received t # later) = Some (0, line, later, [])"
    if "line \<noteq> [] \<and> length line < n - 1"
    using that assms part [of "Received t # later"] by (simp add: data_source_read_def read_loop_steps)
  show "data_source_read True fd n (map Received (pre @ line) @ TimedOut # later) = Some (if line = [] then -1 else 0, line, later, [])"
    "data_source_read True fd n (map Received (pre @ line) @ ReadError # later) =
       Some (-1, line, later, [Perror ''read serial device failed''])"
    "data_source_read True fd n (map Received (pre @ line)) = None" if "length line < n - 1"
    using that assms part [of "TimedOut # later"] part [of "ReadError # later"] part [of "[]"]
    by (simp_all add: data_source_read_def read_loop_steps)
next
  assume long: "n - 1 \<le> length line"
  have front: "list_all (\<lambda>c. \<not> is_eol c) (take (n - 1) line)" using assms(4) by (auto simp: list_all_iff dest: in_set_takeD)
  have split: "map Received (pre @ line) @ later =
      map Received pre @ map Received (take (n - 1) line) @ map Received (drop (n - 1) line) @ later"
    by (simp flip: map_append)
  from long read_loop_long [OF front, of n "[]"] read_loop_leading [OF assms(3,1)] assms(1,2)
  show "data_source_read True fd n (map Received (pre @ line) @ later) =
      Some (0, take (n - 1) line, map Received (drop (n - 1) line) @ later, [])"
    unfolding split by (cases line) (simp_all add: data_source_read_def)
next
  show "data_source_read True fd n (filter (\<lambda>r. r \<noteq> Interrupted) rs) =
      map_option (\<lambda>(ret, out, rest, es). (ret, out, filter (\<lambda>r. r \<noteq> Interrupted) rest, es)) (data_source_read True fd n rs)"
    by (simp add: data_source_read_def read_loop_interrupted split: option.split)
qed

theorem data_source_read_exact_witness:
  "data_source_read True 3 128 (map Received ([CHR 0x0A] @ ''temp=1'') @ Received (CHR 0x0D) # [TimedOut]) =
     Some (0, ''temp=1'', [TimedOut], []) \<and>
   data_source_read True 3 128 (map Received ([CHR 0x0A] @ ''temp=1'') @ TimedOut # [TimedOut]) =
     Some (0, ''temp=1'', [TimedOut], [])"
proof -
  have eol: "list_all is_eol [CHR 0x0A]" "list_all (\<lambda>c. \<not> is_eol c) ''temp=1''" "is_eol (CHR 0x0D)" by code_simp+
  have len: "length ''temp=1'' < 128 - 1" by simp
  from data_source_read_exact [OF _ _ eol, of 128 3 "[TimedOut]" "[]"] len show ?thesis by simp
qed

text \<open>The control modes of a device: 8 data bits, no parity, one stop bit, no flow control, no processing of bytes.\<close>

definition raw_8n1 :: "Termios \<Rightarrow> u32 \<Rightarrow> u32 \<Rightarrow> u32 \<Rightarrow> bool" where
  "raw_8n1 tty iflag lflag oflag \<longleftrightarrow>
     c_cflag tty AND CSIZE = CS8 \<and> c_cflag tty AND (PARENB OR CSTOPB OR CRTSCTS) = 0 \<and>
     c_cflag tty AND (CREAD OR CLOCAL) = CREAD OR CLOCAL \<and>
     iflag AND (IXON OR IXOFF OR IXANY OR IGNBRK OR BRKINT OR PARMRK OR ISTRIP OR INLCR OR IGNCR OR ICRNL) = 0 \<and>
     lflag AND (ICANON OR ECHO OR ECHOE OR ISIG) = 0 \<and> oflag AND OPOST = 0 \<and> c_vmin tty = 0 \<and> c_vtime tty = 10"

lemma serial_options_raw:
  "raw_8n1 (Termios.truncate (serial_options t)) (c_iflag (serial_options t)) (c_lflag (serial_options t)) (c_oflag (serial_options t))"
  unfolding raw_8n1_def serial_options_def Let_def Termios.truncate_def
  by (simp add: serial_flags Termios.truncate_def and.assoc bit.conj_disj_distrib2)

lemma serial_configure_result:
  "serial_configure os fd = (r, es) \<Longrightarrow>
     (r = 0 \<longleftrightarrow> (\<exists>tty i l out. SerialSet fd tty i l out \<in> set es) \<and> ser_tcsetattr os = 0) \<and>
     (\<forall>fd' tty i l out. SerialSet fd' tty i l out \<in> set es \<longrightarrow> fd' = fd \<and> raw_8n1 tty i l out) \<and>
     (\<forall>fd'. SerialClose fd' \<notin> set es) \<and> (\<forall>path fd'. SerialOpen path fd' \<notin> set es)"
  unfolding serial_configure_def Let_def
  by (auto split: prod.splits if_splits simp: serial_options_raw)

text \<open>
  Claim C28. The serial data source opens and closes its device in pairs: initialisation returns 0
  exactly when it leaves a descriptor, and the device was then switched to raw bytes of eight data
  bits without parity or flow control and a read timeout of one second; where it fails after the
  device was opened, the descriptor is closed before it returns; and cleanup closes the descriptor
  that is left exactly once, and none the second time.
\<close>

theorem data_source_contract:
  assumes "data_source_init os = (r, fd, es)"
  shows "(r = 0 \<longleftrightarrow> 0 \<le> fd) \<and>
    (r = 0 \<longrightarrow> fd = ser_open os \<and> (\<forall>fd'. SerialClose fd' \<notin> set es) \<and>
       (\<exists>tty i l out. SerialSet fd tty i l out \<in> set es \<and> raw_8n1 tty i l out)) \<and>
    (r \<noteq> 0 \<and> 0 \<le> ser_open os \<longrightarrow> last es = SerialClose (ser_open os)) \<and>
    filter (\<lambda>e. \<exists>fd'. e = SerialClose fd') (snd (data_source_cleanup os fd)) = (if r = 0 then [SerialClose fd] else []) \<and>
    fst (data_source_cleanup os fd) < 0"
proof (cases "ser_open os < 0")
  case True
  with assms show ?thesis by (auto simp: data_source_init_def Let_def data_source_cleanup_def)
next
  case False
  obtain r' es' where conf: "serial_configure os (ser_open os) = (r', es')" by fastforce
  note result = serial_configure_result [OF conf]
  have events: "fd = (if r' = 0 then ser_open os else -1)" "r = (if r' = 0 then 0 else -1)"
    "es = [SerialOpen SERIAL_DEV (ser_open os)] @ es' @
       (if r' = 0 then [Printf (''data source: serial mode, device='' @ SERIAL_DEV)] else [SerialClose (ser_open os)])"
    using assms False conf by (auto simp: data_source_init_def Let_def split: if_splits)
  show ?thesis
  proof (cases "r' = 0")
    case True
    with result obtain tty i l out where tty: "SerialSet (ser_open os) tty i l out \<in> set es'" "raw_8n1 tty i l out" by blast
    have es: "fd = ser_open os" "r = 0" "set es = {SerialOpen SERIAL_DEV (ser_open os)} \<union> set es' \<union>
        {Printf (''data source: serial mode, device='' @ SERIAL_DEV)}"
      using events True by (simp_all add: insert_commute)
    have "\<exists>tty i l out. SerialSet fd tty i l out \<in> set es \<and> raw_8n1 tty i l out" unfolding es(1,3) using tty by blast
    moreover have "\<forall>fd'. SerialClose fd' \<notin> set es" unfolding es(3) using result by simp
    ultimately show ?thesis using False es(1,2) by (auto simp: data_source_cleanup_def)
  next
    case nonzero: False
    with False events show ?thesis by (auto simp: data_source_cleanup_def)
  qed
qed

text \<open>A device that answers every call.\<close>

definition working_serial :: serial_os where
  "working_serial = \<lparr>ser_open = 3, ser_tcgetattr = (0, \<lparr>c_cflag = 0, c_vmin = 1, c_vtime = 0, c_iflag = 0x500, c_lflag = 0x8A3B, c_oflag = 5\<rparr>),
     ser_cfsetispeed = (\<lambda>t. (0, t)), ser_cfsetospeed = (\<lambda>t. (0, t)), ser_tcflush = 0, ser_tcsetattr = 0, ser_close = 0\<rparr>"

theorem data_source_contract_witness:
  "\<exists>r fd es. data_source_init working_serial = (r, fd, es) \<and> r = 0 \<and> fd = 3"
proof -
  obtain r fd es where res: "data_source_init working_serial = (r, fd, es)" by (metis prod_cases3)
  then have "r = 0"
    by (simp add: data_source_init_def serial_configure_def working_serial_def Let_def)
  moreover have "ser_open working_serial = 3" by (simp add: working_serial_def)
  ultimately show ?thesis using res data_source_contract [OF res] by auto
qed

text \<open>The mock source delivers its five lines in a circle; the index never leaves the list.\<close>

lemma mock_data_source_circle:
  assumes "index < 5"
  shows "mock_data_source_read True 128 index = (0, mock_data_list ! index, Suc index mod 5)"
proof -
  from assms consider "index = 0" | "index = 1" | "index = 2" | "index = 3" | "index = 4" by linarith
  then show ?thesis by cases (simp only:, code_simp)+
qed

end
