(* ===== verification/Sensor_Parser.thy ===== *)
theory Sensor_Parser
  imports C_Text
begin

text \<open>
  \<^verbatim>\<open>sensor_parser.h\<close> and \<^verbatim>\<open>sensor_parser.c\<close> of the C gateway: a line of a sensor is read into a structure
  with \<^verbatim>\<open>sscanf\<close>, and the structure is written as JSON with \<^verbatim>\<open>snprintf\<close>. A pointer argument that may be
  \<^verbatim>\<open>NULL\<close> is an option.
\<close>

section \<open>Definitions\<close>

record SensorData =
  temp :: int
  humi :: int
  device_id :: string

definition zero_SensorData :: SensorData where
  "zero_SensorData = \<lparr>temp = 0, humi = 0, device_id = []\<rparr>"

text \<open>
  The conversions of \<^verbatim>\<open>sscanf\<close> one after another: the number of those assigned, and the structure,
  which keeps what was assigned before a failure.
\<close>

definition scan_sensor :: "(int \<Rightarrow> int) \<Rightarrow> string \<Rightarrow> SensorData \<Rightarrow> nat \<times> SensorData" where
  "scan_sensor out_of_range raw data =
     (case Option.bind (scan_literal ''temp='' raw) (scan_int out_of_range) of
        None \<Rightarrow> (0, data)
      | Some (t, rest) \<Rightarrow>
          let data = data\<lparr>temp := t\<rparr> in
          (case Option.bind (scan_literal '',humi='' rest) (scan_int out_of_range) of
             None \<Rightarrow> (1, data)
           | Some (h, rest) \<Rightarrow>
               let data = data\<lparr>humi := h\<rparr> in
               (case Option.bind (scan_literal '',device_id='' rest) (scan_word 31) of
                  None \<Rightarrow> (2, data)
                | Some (w, rest) \<Rightarrow> (3, data\<lparr>device_id := w\<rparr>))))"

definition parse_sensor_data :: "(int \<Rightarrow> int) \<Rightarrow> string option \<Rightarrow> SensorData option \<Rightarrow> int \<times> SensorData option" where
  "parse_sensor_data out_of_range raw data =
     (case (raw, data) of
        (Some raw, Some data) \<Rightarrow>
          (case scan_sensor out_of_range raw zero_SensorData of
             (ret, data) \<Rightarrow> (if ret \<noteq> 3 then -1 else 0, Some data))
      | _ \<Rightarrow> (-1, data))"

definition json_text :: "SensorData \<Rightarrow> string" where
  "json_text data =
     ''{\"temp\":'' @ int_to_string (temp data) @ '',\"humi\":'' @ int_to_string (humi data) @
     '',\"device_id\":\"'' @ device_id data @ ''\"}''"

text \<open>The value returned and the string in the buffer afterwards; \<open>buf_size\<close> is the size of the buffer.\<close>

definition build_json :: "SensorData option \<Rightarrow> string option \<Rightarrow> nat \<Rightarrow> int \<times> string option" where
  "build_json data json_buf buf_size =
     (if data = None \<or> json_buf = None \<or> buf_size = 0 then (-1, json_buf)
      else case snprintf buf_size (json_text (the data)) of (written, buf) \<Rightarrow>
        if written < 0 \<or> int buf_size \<le> written then (-1, Some []) else (0, Some buf))"

section \<open>The language of the parser\<close>

text \<open>The lines that are accepted: white space is allowed before each value.\<close>

definition sensor_line :: "string \<Rightarrow> string \<Rightarrow> string \<Rightarrow> string \<Rightarrow> string \<Rightarrow> string \<Rightarrow> string \<Rightarrow> string" where
  "sensor_line ws1 t ws2 h ws3 w rest =
     ''temp='' @ ws1 @ t @ '',humi='' @ ws2 @ h @ '',device_id='' @ ws3 @ w @ rest"

text \<open>A decimal numeral with an optional sign, and its value.\<close>

definition numeral_value :: "string \<Rightarrow> int option" where
  "numeral_value s =
     (let negative = (s \<noteq> [] \<and> hd s = CHR ''-'');
          ds = (if s \<noteq> [] \<and> (hd s = CHR ''-'' \<or> hd s = CHR ''+'') then tl s else s)
      in if ds \<noteq> [] \<and> list_all is_digit ds
         then Some (if negative then - int (digits_value ds) else int (digits_value ds)) else None)"

lemma isspace_takeWhile: "list_all isspace (takeWhile isspace s)"
  by (induction s) simp_all

lemma scan_int_sound:
  assumes "scan_int out_of_range input = Some (i, rest)"
  shows "\<exists>ws t n. input = ws @ t @ rest \<and> list_all isspace ws \<and> numeral_value t = Some n \<and>
    i = (if is_int n then n else out_of_range n)"
proof -
  define s where "s = dropWhile isspace input"
  define signed where "signed \<longleftrightarrow> s \<noteq> [] \<and> (hd s = CHR ''-'' \<or> hd s = CHR ''+'')"
  define sign where "sign = (if signed then [hd s] else [])"
  define body where "body = (if signed then tl s else s)"
  define ds where "ds = takeWhile is_digit body"
  define n where "n = (if s \<noteq> [] \<and> hd s = CHR ''-'' then - int (digits_value ds) else int (digits_value ds))"
  have split: "s = sign @ body" by (auto simp: sign_def body_def signed_def)
  have "ds \<noteq> []" and rest: "rest = dropWhile is_digit body" and i: "i = (if is_int n then n else out_of_range n)"
    using assms unfolding scan_int_def Let_def s_def [symmetric] signed_def [symmetric] body_def [symmetric]
      ds_def [symmetric] n_def [symmetric] by (simp_all split: if_splits)
  moreover have digits: "list_all is_digit ds" by (auto simp: ds_def list_all_iff dest: set_takeWhileD)
  ultimately obtain d ds' where d: "ds = d # ds'" "is_digit d" by (cases ds) auto
  then have first: "d \<noteq> CHR ''-''" "d \<noteq> CHR ''+''" using sign_chars by auto
  have val: "numeral_value (sign @ ds) = Some n"
  proof (cases signed)
    case True
    then show ?thesis using digits d by (auto simp: numeral_value_def sign_def signed_def n_def)
  next
    case False
    then have "\<not> (s \<noteq> [] \<and> hd s = CHR ''-'')" by (auto simp: signed_def)
    with False digits d first show ?thesis by (auto simp: numeral_value_def sign_def n_def)
  qed
  have "input = takeWhile isspace input @ s" by (simp add: s_def)
  also have "s = (sign @ ds) @ rest" using split rest by (simp add: ds_def)
  finally show ?thesis using val i isspace_takeWhile by blast
qed

lemma dropWhile_spaces: "list_all isspace ws \<Longrightarrow> s = [] \<or> \<not> isspace (hd s) \<Longrightarrow> dropWhile isspace (ws @ s) = s"
  by (induction ws; cases s) auto

lemma numeral_cases:
  assumes "numeral_value t = Some n"
  obtains sign ds where "t = sign @ ds" "ds \<noteq> []" "list_all is_digit ds" "sign \<in> {[], ''-'', ''+''}"
    "n = (if sign = ''-'' then - int (digits_value ds) else int (digits_value ds))"
proof (cases "t \<noteq> [] \<and> (hd t = CHR ''-'' \<or> hd t = CHR ''+'')")
  case True
  then have "t = [hd t] @ tl t" by simp
  with True assms show thesis by (intro that [of "[hd t]" "tl t"]) (auto simp: numeral_value_def Let_def split: if_splits)
next
  case False
  with assms show thesis by (intro that [of "[]" t]) (auto simp: numeral_value_def Let_def split: if_splits)
qed

lemma scan_int_complete:
  assumes "list_all isspace ws" and "numeral_value t = Some n" and "rest = [] \<or> \<not> is_digit (hd rest)"
  shows "scan_int out_of_range (ws @ t @ rest) = Some (if is_int n then n else out_of_range n, rest)"
  using assms(2)
proof (rule numeral_cases)
  fix sign ds
  assume t: "t = sign @ ds" "ds \<noteq> []" "list_all is_digit ds" "sign \<in> {[], ''-'', ''+''}"
    and n: "n = (if sign = ''-'' then - int (digits_value ds) else int (digits_value ds))"
  obtain d ds' where d: "ds = d # ds'" using t(2) by (cases ds) auto
  with t(3) have "is_digit d" by simp
  then have first: "\<not> isspace d" "d \<noteq> CHR ''-''" "d \<noteq> CHR ''+''" using is_digit_not_space sign_chars by auto
  have drop: "dropWhile isspace (ws @ t @ rest) = t @ rest"
    using dropWhile_spaces [OF assms(1), of "t @ rest"] t d first sign_chars by auto
  note digits = takeWhile_digits [OF t(3) assms(3)]
  from t(4) consider "sign = []" | "sign = ''-''" | "sign = ''+''" by blast
  then show ?thesis
  proof cases
    case 1
    with d first have "t @ rest = d # ds' @ rest" using t by simp
    with 1 t n digits d first show ?thesis unfolding scan_int_def drop Let_def by simp
  next
    case 2
    with t n digits show ?thesis unfolding scan_int_def drop Let_def by simp
  next
    case 3
    with t n digits show ?thesis unfolding scan_int_def drop Let_def by simp
  qed
qed

lemma scan_word_sound:
  assumes "scan_word width input = Some (w, rest)"
  shows "\<exists>ws. input = ws @ w @ rest \<and> list_all isspace ws \<and> w \<noteq> [] \<and> length w \<le> width \<and>
    list_all (\<lambda>c. \<not> isspace c) w \<and> (length w = width \<or> rest = [] \<or> isspace (hd rest))"
proof -
  let ?s = "dropWhile isspace input"
  let ?v = "takeWhile (\<lambda>c. \<not> isspace c) ?s"
  from assms have w: "w = take width ?v" "w \<noteq> []" and rest: "rest = drop (length w) ?s"
    by (auto simp: scan_word_def Let_def split: if_splits)
  have split: "?s = ?v @ dropWhile (\<lambda>c. \<not> isspace c) ?s" by simp
  have "?s = w @ rest"
    using w(1) rest by (metis append_take_drop_id length_take min.cobounded1 min_def split take_all take_append take_take takeWhile_dropWhile_id append_eq_conv_conj)
  moreover have "list_all (\<lambda>c. \<not> isspace c) w"
    using w(1) by (auto simp: list_all_iff dest!: in_set_takeD set_takeWhileD)
  moreover have "length w = width \<or> rest = [] \<or> isspace (hd rest)"
  proof (cases "length ?v \<le> width")
    case True
    with w rest split have "rest = dropWhile (\<lambda>c. \<not> isspace c) ?s" by (metis append_eq_conv_conj take_all)
    then show ?thesis using hd_dropWhile [of "\<lambda>c. \<not> isspace c" ?s] by auto
  next
    case False
    with w show ?thesis by simp
  qed
  ultimately show ?thesis using w(1,2) isspace_takeWhile [of input]
    by (intro exI [of _ "takeWhile isspace input"]) (auto simp: takeWhile_dropWhile_id [symmetric])
qed

lemma scan_word_complete:
  assumes "list_all isspace ws" "w \<noteq> []" "length w \<le> width" "list_all (\<lambda>c. \<not> isspace c) w"
    and "length w = width \<or> rest = [] \<or> isspace (hd rest)"
  shows "scan_word width (ws @ w @ rest) = Some (w, rest)"
proof -
  have "\<not> isspace (hd w)" using assms(2,4) by (cases w) simp_all
  then have drop: "dropWhile isspace (ws @ w @ rest) = w @ rest"
    using dropWhile_spaces [OF assms(1), of "w @ rest"] assms(2) by simp
  have "takeWhile (\<lambda>c. \<not> isspace c) (w @ rest) = w @ takeWhile (\<lambda>c. \<not> isspace c) rest"
    using assms(4) by (simp add: list_all_iff)
  moreover have "take width (w @ takeWhile (\<lambda>c. \<not> isspace c) rest) = w"
  proof (cases "length w = width")
    case False
    with assms(5) have "takeWhile (\<lambda>c. \<not> isspace c) rest = []" by (cases rest) auto
    with assms(3) show ?thesis by simp
  qed simp
  ultimately show ?thesis using assms(2) unfolding scan_word_def drop Let_def by simp
qed

text \<open>What the parser makes of a line: the line is of the accepted form and the structure holds its values.\<close>

definition sensor_values :: "(int \<Rightarrow> int) \<Rightarrow> string \<Rightarrow> SensorData \<Rightarrow> bool" where
  "sensor_values out_of_range raw data \<longleftrightarrow>
     (\<exists>ws1 t n ws2 h m ws3 w rest.
        raw = sensor_line ws1 t ws2 h ws3 w rest \<and>
        list_all isspace ws1 \<and> list_all isspace ws2 \<and> list_all isspace ws3 \<and>
        numeral_value t = Some n \<and> numeral_value h = Some m \<and>
        w \<noteq> [] \<and> length w \<le> 31 \<and> list_all (\<lambda>c. \<not> isspace c) w \<and>
        (length w = 31 \<or> rest = [] \<or> isspace (hd rest)) \<and>
        data = \<lparr>temp = if is_int n then n else out_of_range n, humi = if is_int m then m else out_of_range m, device_id = w\<rparr>)"

lemma scan_sensor_accepts:
  "scan_sensor out_of_range raw zero_SensorData = (3, data) \<longleftrightarrow> sensor_values out_of_range raw data"
proof
  assume "scan_sensor out_of_range raw zero_SensorData = (3, data)"
  then obtain r1 i r2 r3 j r4 r5 w r6 where
    steps: "scan_literal ''temp='' raw = Some r1" "scan_int out_of_range r1 = Some (i, r2)"
      "scan_literal '',humi='' r2 = Some r3" "scan_int out_of_range r3 = Some (j, r4)"
      "scan_literal '',device_id='' r4 = Some r5" "scan_word 31 r5 = Some (w, r6)"
    and data: "data = \<lparr>temp = i, humi = j, device_id = w\<rparr>"
    unfolding scan_sensor_def zero_SensorData_def
    by (simp add: Let_def split: option.splits prod.splits bind_splits)
  from scan_int_sound [OF steps(2)] obtain ws1 t n where 1: "r1 = ws1 @ t @ r2" "list_all isspace ws1"
    "numeral_value t = Some n" "i = (if is_int n then n else out_of_range n)" by blast
  from scan_int_sound [OF steps(4)] obtain ws2 h m where 2: "r3 = ws2 @ h @ r4" "list_all isspace ws2"
    "numeral_value h = Some m" "j = (if is_int m then m else out_of_range m)" by blast
  from scan_word_sound [OF steps(6)] obtain ws3 where 3: "r5 = ws3 @ w @ r6" "list_all isspace ws3" "w \<noteq> []" "length w \<le> 31"
    "list_all (\<lambda>c. \<not> isspace c) w" "length w = 31 \<or> r6 = [] \<or> isspace (hd r6)" by blast
  have "raw = sensor_line ws1 t ws2 h ws3 w r6"
    using steps(1,3,5) 1(1) 2(1) 3(1) unfolding scan_literal_Some sensor_line_def by (simp only: append.assoc)
  then show "sensor_values out_of_range raw data"
    unfolding sensor_values_def using 1(2-4) 2(2-4) 3(2-6) data by blast
next
  assume "sensor_values out_of_range raw data"
  then obtain ws1 t n ws2 h m ws3 w rest where
    raw: "raw = sensor_line ws1 t ws2 h ws3 w rest"
    and v: "list_all isspace ws1" "list_all isspace ws2" "list_all isspace ws3"
      "numeral_value t = Some n" "numeral_value h = Some m"
      "w \<noteq> []" "length w \<le> 31" "list_all (\<lambda>c. \<not> isspace c) w" "length w = 31 \<or> rest = [] \<or> isspace (hd rest)"
    and data: "data = \<lparr>temp = if is_int n then n else out_of_range n, humi = if is_int m then m else out_of_range m, device_id = w\<rparr>"
    unfolding sensor_values_def by blast
  let ?r4 = "'',device_id='' @ ws3 @ w @ rest"
  let ?r2 = "'',humi='' @ ws2 @ h @ ?r4"
  have comma: "\<not> is_digit (CHR '','')" by (simp add: is_digit_def)
  have "scan_literal ''temp='' raw = Some (ws1 @ t @ ?r2)" unfolding raw sensor_line_def by (rule scan_literal_append)
  moreover have "scan_int out_of_range (ws1 @ t @ ?r2) = Some (if is_int n then n else out_of_range n, ?r2)"
    by (rule scan_int_complete [OF v(1,4)]) (simp add: comma)
  moreover have "scan_literal '',humi='' ?r2 = Some (ws2 @ h @ ?r4)" by (rule scan_literal_append)
  moreover have "scan_int out_of_range (ws2 @ h @ ?r4) = Some (if is_int m then m else out_of_range m, ?r4)"
    by (rule scan_int_complete [OF v(2,5)]) (simp add: comma)
  moreover have "scan_literal '',device_id='' ?r4 = Some (ws3 @ w @ rest)" by (rule scan_literal_append)
  moreover note scan_word_complete [OF v(3,6-9)]
  ultimately show "scan_sensor out_of_range raw zero_SensorData = (3, data)"
    unfolding scan_sensor_def zero_SensorData_def by (simp only: bind.simps option.case prod.case Let_def) (simp add: data)
qed

lemma parse_zero_iff:
  "parse_sensor_data out_of_range (Some raw) (Some d) = (0, Some data) \<longleftrightarrow> sensor_values out_of_range raw data"
  unfolding scan_sensor_accepts [symmetric]
  by (auto simp: parse_sensor_data_def split: prod.splits if_splits)

text \<open>What a successful parse delivers.\<close>

lemma parse_success:
  assumes "parse_sensor_data out_of_range (Some raw) (Some d) = (0, sensor)"
  obtains data where "sensor = Some data" "sensor_values out_of_range raw data"
proof -
  from assms obtain data where "sensor = Some data" by (auto simp: parse_sensor_data_def split: prod.splits)
  with assms that parse_zero_iff show thesis by blast
qed

section \<open>Properties\<close>

lemma numeral_value_printed: "numeral_value (int_to_string i) = Some i"
proof -
  note props = digits_of_int_props [of "\<bar>i\<bar>", simplified]
  obtain d ds where d: "digits_of_int \<bar>i\<bar> = d # ds" using props(2) by (cases "digits_of_int \<bar>i\<bar>") auto
  with props(1) have "is_digit d" "list_all is_digit ds" by simp_all
  moreover from this have "d \<noteq> CHR ''-''" "d \<noteq> CHR ''+''" using sign_chars by auto
  moreover have "digits_of_int (- i) = d # ds" if "i < 0" using that d by simp
  moreover have "digits_of_int i = d # ds" if "\<not> i < 0" using that d by simp
  moreover have "int (digits_value (d # ds)) = \<bar>i\<bar>" using props(3) d by simp
  ultimately show ?thesis by (cases "i < 0") (simp_all add: numeral_value_def int_to_string_def)
qed

text \<open>
  Claim C29. The sensor line parser accepts an exact language: it returns 0 with a structure if and
  only if the line is \<^verbatim>\<open>temp=\<close>, \<^verbatim>\<open>,humi=\<close> and \<^verbatim>\<open>,device_id=\<close> with a decimal numeral after each of the first
  two and a word of at most 31 characters after the third, each possibly after white space, and the
  structure holds these values; otherwise, and for a null pointer, it returns -1.
\<close>

theorem parse_sensor_exact:
  "(parse_sensor_data out_of_range (Some raw) (Some d) = (0, Some data) \<longleftrightarrow> sensor_values out_of_range raw data) \<and>
   (fst (parse_sensor_data out_of_range (Some raw) (Some d)) = 0 \<longleftrightarrow> (\<exists>data. sensor_values out_of_range raw data)) \<and>
   fst (parse_sensor_data out_of_range raw' d') \<in> {0, -1} \<and>
   parse_sensor_data out_of_range None d' = (-1, d') \<and> parse_sensor_data out_of_range raw' None = (-1, None)"
proof (intro conjI)
  show "parse_sensor_data out_of_range (Some raw) (Some d) = (0, Some data) \<longleftrightarrow> sensor_values out_of_range raw data"
    by (rule parse_zero_iff)
  have "\<exists>data. snd (parse_sensor_data out_of_range (Some raw) (Some d)) = Some data"
    by (auto simp: parse_sensor_data_def split: prod.splits)
  then show "fst (parse_sensor_data out_of_range (Some raw) (Some d)) = 0 \<longleftrightarrow> (\<exists>data. sensor_values out_of_range raw data)"
    unfolding parse_zero_iff [of _ _ d, symmetric] by (metis fst_conv prod.collapse)
  show "fst (parse_sensor_data out_of_range raw' d') \<in> {0, -1}"
    by (auto simp: parse_sensor_data_def split: option.splits prod.splits)
  show "parse_sensor_data out_of_range None d' = (-1, d')" "parse_sensor_data out_of_range raw' None = (-1, None)"
    by (auto simp: parse_sensor_data_def split: option.splits)
qed

text \<open>
  Claim C30. A reading survives the text line: the line printed from any two integers and an
  identifier without white space of 1 to 31 characters is parsed back to exactly these values.
\<close>

theorem sensor_line_roundtrip:
  assumes "is_int t" and "is_int h" and "w \<noteq> []" and "length w \<le> 31" and "list_all (\<lambda>c. \<not> isspace c) w"
  shows "parse_sensor_data out_of_range
      (Some (''temp='' @ int_to_string t @ '',humi='' @ int_to_string h @ '',device_id='' @ w)) (Some d) =
    (0, Some \<lparr>temp = t, humi = h, device_id = w\<rparr>)"
  unfolding parse_zero_iff sensor_values_def
  by (rule exI [of _ "[]"], rule exI [of _ "int_to_string t"], rule exI [of _ t], rule exI [of _ "[]"],
      rule exI [of _ "int_to_string h"], rule exI [of _ h], rule exI [of _ "[]"], rule exI [of _ w], rule exI [of _ "[]"])
    (use assms in \<open>simp add: sensor_line_def numeral_value_printed\<close>)

theorem sensor_line_roundtrip_witness:
  "is_int (-5) \<and> list_all (\<lambda>c. \<not> isspace c) ''stm32_01'' \<and>
   parse_sensor_data id (Some (''temp='' @ int_to_string (-5) @ '',humi='' @ int_to_string 60 @ '',device_id='' @ ''stm32_01''))
     (Some zero_SensorData) = (0, Some \<lparr>temp = -5, humi = 60, device_id = ''stm32_01''\<rparr>)"
proof -
  have "is_int (-5)" "is_int 60" "list_all (\<lambda>c. \<not> isspace c) ''stm32_01''" by code_simp+
  with sensor_line_roundtrip [of "-5" 60 "''stm32_01''" id zero_SensorData] show ?thesis by simp
qed

text \<open>The text of a structure that a parse can give has at most 85 characters.\<close>

lemma json_length:
  assumes "is_int (temp data)" and "is_int (humi data)" and "length (device_id data) \<le> 31"
  shows "length (json_text data) \<le> 85"
  using assms int_to_string_length [of "temp data"] int_to_string_length [of "humi data"]
  by (simp add: json_text_def)

lemma build_json_result:
  assumes "0 < n"
  shows "build_json (Some data) (Some buf) n =
    (if length (json_text data) < n then (0, Some (json_text data)) else (-1, Some []))"
  using assms by (auto simp: build_json_def snprintf_def)

lemma printed_prefix_unique:
  assumes "int_to_string i @ r = int_to_string j @ r'" and "is_int i" and "is_int j"
    and "\<not> is_digit (hd r)" and "\<not> is_digit (hd r')"
  shows "i = j \<and> r = r'"
  using arg_cong [OF assms(1), of "scan_int id"] scan_int_printed [OF assms(2), of r id]
    scan_int_printed [OF assms(3), of r' id] assms(4,5) by simp

lemma build_json_fits:
  assumes "\<And>n. is_int (out_of_range n)" and "sensor_values out_of_range raw data"
  shows "build_json (Some data) (Some buf) 128 = (0, Some (json_text data))"
proof -
  have "is_int (temp data)" "is_int (humi data)" "length (device_id data) \<le> 31"
    using assms by (auto simp: sensor_values_def)
  from json_length [OF this] show ?thesis by (simp add: build_json_result)
qed

text \<open>
  Claim C31. The JSON text is complete or absent: with a buffer of any size the function writes the
  whole text and returns 0, or leaves an empty string and returns -1, and never overruns the buffer;
  the buffer of 128 characters of the gateway is always enough for what the parser gives; and
  different readings have different texts.
\<close>

theorem build_json_complete:
  assumes "\<And>n. is_int (out_of_range n)"
    and "sensor_values out_of_range raw a" and "sensor_values out_of_range raw' b" and "0 < n"
  shows "(\<exists>out. build_json (Some a) (Some buf) n = (0, Some out) \<and> out = json_text a \<and> length out < n \<or>
      build_json (Some a) (Some buf) n = (-1, Some out) \<and> out = [] \<and> n \<le> length (json_text a)) \<and>
    build_json (Some a) (Some buf) 128 = (0, Some (json_text a)) \<and>
    (json_text a = json_text b \<longrightarrow> a = b)"
proof (intro conjI impI)
  have ints: "is_int (temp x)" "is_int (humi x)" "length (device_id x) \<le> 31" if "sensor_values out_of_range r x" for r x
    using that assms(1) by (auto simp: sensor_values_def)
  show "\<exists>out. build_json (Some a) (Some buf) n = (0, Some out) \<and> out = json_text a \<and> length out < n \<or>
      build_json (Some a) (Some buf) n = (-1, Some out) \<and> out = [] \<and> n \<le> length (json_text a)"
    using build_json_result [OF assms(4), of a buf] by auto
  show "build_json (Some a) (Some buf) 128 = (0, Some (json_text a))"
    by (rule build_json_fits [OF assms(1,2)])
  assume eq: "json_text a = json_text b"
  let ?tail = "\<lambda>x. '',\"device_id\":\"'' @ device_id x @ ''\"}''"
  let ?rest = "\<lambda>x. '',\"humi\":'' @ int_to_string (humi x) @ ?tail x"
  have comma: "\<not> is_digit (hd (CHR '','' # r))" for r by (simp add: is_digit_def)
  from eq have "int_to_string (temp a) @ ?rest a = int_to_string (temp b) @ ?rest b" by (simp add: json_text_def)
  from printed_prefix_unique [OF this ints(1) [OF assms(2)] ints(1) [OF assms(3)]] comma
  have 1: "temp a = temp b" "?rest a = ?rest b" by auto
  from 1(2) have "int_to_string (humi a) @ ?tail a = int_to_string (humi b) @ ?tail b" by (rule same_append_eq [THEN iffD1])
  from printed_prefix_unique [OF this ints(2) [OF assms(2)] ints(2) [OF assms(3)]] comma
  have 2: "humi a = humi b" "?tail a = ?tail b" by auto
  then have "device_id a = device_id b" by simp
  with 1(1) 2(1) show "a = b" by (cases a; cases b) simp
qed

theorem build_json_complete_witness:
  "build_json (Some \<lparr>temp = 25, humi = 60, device_id = ''stm32_01''\<rparr>) (Some []) 128 =
     (0, Some ''{\"temp\":25,\"humi\":60,\"device_id\":\"stm32_01\"}'')"
proof -
  let ?a = "\<lparr>temp = 25, humi = 60, device_id = ''stm32_01''\<rparr>"
  let ?raw = "''temp=25,humi=60,device_id=stm32_01''"
  have "parse_sensor_data (\<lambda>n. 0) (Some ?raw) (Some zero_SensorData) = (0, Some ?a)" by code_simp
  then have "sensor_values (\<lambda>n. 0) ?raw ?a" by (simp only: parse_zero_iff)
  from build_json_complete [of "\<lambda>n. 0", OF _ this this, of 128 "[]"]
  have "build_json (Some ?a) (Some []) 128 = (0, Some (json_text ?a))" by (simp add: is_int_def INT_MIN_def INT_MAX_def)
  moreover have "json_text ?a = ''{\"temp\":25,\"humi\":60,\"device_id\":\"stm32_01\"}''" by code_simp
  ultimately show ?thesis by (simp only:)
qed

text \<open>
  The identifier goes into the text as it is: one that contains a quotation mark is accepted by the
  parser and gives a text in which the string ends early, which is not JSON.
\<close>

lemma json_quote_not_escaped:
  "\<exists>data. parse_sensor_data id (Some ''temp=1,humi=2,device_id=a\"b'') (Some zero_SensorData) = (0, Some data) \<and>
     json_text data = ''{\"temp\":1,\"humi\":2,\"device_id\":\"a\"b\"}''"
  by (rule exI [of _ "\<lparr>temp = 1, humi = 2, device_id = ''a\"b''\<rparr>"]) code_simp

end
