(* ===== verification/Sensor_Gateway.thy ===== *)
theory Sensor_Gateway
  imports Data_Source Sensor_Parser "HOL-Library.Sublist"
begin

text \<open>
  The C gateway itself: \<^verbatim>\<open>main.c\<close> with \<^verbatim>\<open>app_log.c\<close>, \<^verbatim>\<open>log_writer.c\<close> and \<^verbatim>\<open>mqtt_client.c\<close>. The program is a
  function of its environment, which may answer every call according to all that happened before:
  the fields of the environment are functions of the events so far. That covers the clock, the files
  that open or not, the MQTT library (a parameter, since it is not part of the repository) and the
  flag that the signal handler clears. What the calls of \<^verbatim>\<open>read\<close> return is given turn by turn; \<open>None\<close>
  is a run that is not over when the turns are.
\<close>

section \<open>The environment\<close>

type_synonym history = "gw_event list"

record gateway_env =
  env_serial :: serial_os
  env_out_of_range :: "int \<Rightarrow> int"
  env_time :: "history \<Rightarrow> string"
  env_app_log_opens :: "history \<Rightarrow> bool"
  env_sensor_log_opens :: "history \<Rightarrow> bool"
  env_mosquitto_new :: bool
  env_mosquitto_connect :: int
  env_mosquitto_publish :: "history \<Rightarrow> int"
  env_mosquitto_strerror :: "int \<Rightarrow> string"
  env_g_running :: "history \<Rightarrow> bool"

section \<open>app log and log writer\<close>

text \<open>A string argument is \<open>None\<close> for a null pointer.\<close>

definition app_log_write :: "gateway_env \<Rightarrow> string option \<Rightarrow> string option \<Rightarrow> history \<Rightarrow> history" where
  "app_log_write env level msg tr =
     (case (level, msg) of
        (Some level, Some msg) \<Rightarrow>
          if \<not> env_app_log_opens env tr then tr @ [Perror ''fopen app_log.txt failed'']
          else tr @ [AppLog (''['' @ env_time env tr @ '']['' @ level @ '']'' @ msg)]
      | _ \<Rightarrow> tr)"

definition app_log_info :: "gateway_env \<Rightarrow> string option \<Rightarrow> history \<Rightarrow> history" where
  "app_log_info env msg tr = app_log_write env (Some ''INFO'') msg tr"

definition app_log_warn :: "gateway_env \<Rightarrow> string option \<Rightarrow> history \<Rightarrow> history" where
  "app_log_warn env msg tr = app_log_write env (Some ''WARN'') msg tr"

definition app_log_error :: "gateway_env \<Rightarrow> string option \<Rightarrow> history \<Rightarrow> history" where
  "app_log_error env msg tr = app_log_write env (Some ''ERROR'') msg tr"

definition write_log :: "gateway_env \<Rightarrow> string option \<Rightarrow> history \<Rightarrow> int \<times> history" where
  "write_log env json_data tr =
     (case json_data of
        None \<Rightarrow> (-1, tr)
      | Some json_data \<Rightarrow>
          if \<not> env_sensor_log_opens env tr then (-1, tr @ [Perror ''fopen sensor_log.txt failed''])
          else (0, tr @ [SensorLog (''['' @ env_time env tr @ '']'' @ json_data)]))"

section \<open>The MQTT client\<close>

text \<open>The argument \<open>mosq\<close> says that the pointer of that name is not null.\<close>

definition MQTT_TOPIC :: string where "MQTT_TOPIC = ''gateway/stm32_01/sensor''"

definition mqtt_client_init :: "gateway_env \<Rightarrow> bool \<Rightarrow> history \<Rightarrow> int \<times> history" where
  "mqtt_client_init env mosq tr =
     (if \<not> mosq then (-1, tr)
      else
        let tr = tr @ [MosqLibInit, MosqNew (env_mosquitto_new env)] in
        if \<not> env_mosquitto_new env then (-1, tr @ [Printf ''mosquitto_new failed'', MosqLibCleanup])
        else
          let ret = env_mosquitto_connect env; tr = tr @ [MosqConnect ret] in
          if ret \<noteq> 0
          then (-1, tr @ [Printf (''mqtt connect failed:'' @ env_mosquitto_strerror env ret), MosqDestroy, MosqLibCleanup])
          else (0, tr @ [Printf ''mqtt connect success'', Printf (''publish topic:'' @ MQTT_TOPIC)]))"

definition mqtt_publish_json :: "gateway_env \<Rightarrow> bool \<Rightarrow> string option \<Rightarrow> history \<Rightarrow> int \<times> history" where
  "mqtt_publish_json env mosq json_data tr =
     (case json_data of
        None \<Rightarrow> (-1, tr)
      | Some json_data \<Rightarrow>
          if \<not> mosq then (-1, tr)
          else
            let ret = env_mosquitto_publish env tr; tr = tr @ [MosqPublish json_data ret] in
            if ret \<noteq> 0 then (-1, tr @ [Printf (''mqtt publish failed:'' @ env_mosquitto_strerror env ret)])
            else (0, tr @ [MosqLoop]))"

definition mqtt_client_cleanup :: "bool \<Rightarrow> history \<Rightarrow> history" where
  "mqtt_client_cleanup mosq tr = tr @ (if mosq then [MosqDisconnect, MosqDestroy] else []) @ [MosqLibCleanup]"

section \<open>The loop\<close>

text \<open>What a turn does with a line it has read.\<close>

definition gateway_line :: "gateway_env \<Rightarrow> string \<Rightarrow> history \<Rightarrow> history" where
  "gateway_line env raw_buf tr =
     (let tr = tr @ [Printf (''raw data: '' @ c_str raw_buf)] in
      case parse_sensor_data (env_out_of_range env) (Some (c_str raw_buf)) (Some zero_SensorData) of (ret, sensor) \<Rightarrow>
      if ret \<noteq> 0 then app_log_warn env (Some ''parse sensor data failed'') (tr @ [Printf ''parse sensor data failed''])
      else
        let tr = app_log_info env (Some ''parse sensor data success'') (tr @ [Printf ''parse success'']) in
        case build_json sensor (Some []) 128 of (ret, json_buf) \<Rightarrow>
        if ret \<noteq> 0 then app_log_error env (Some ''build json failed'') (tr @ [Printf ''build json failed''])
        else
          let json = the json_buf in
          case write_log env json_buf (tr @ [Printf (''json: '' @ json)]) of (ret, tr) \<Rightarrow>
          if ret \<noteq> 0 then app_log_error env (Some ''write sensor log failed'') (tr @ [Printf ''write log failed''])
          else
            case mqtt_publish_json env True json_buf (app_log_info env (Some ''write sensor log success'') tr) of (ret, tr) \<Rightarrow>
            if ret \<noteq> 0 then app_log_error env (Some ''mqtt publish failed'') (tr @ [Printf ''mqtt publish failed''])
            else app_log_info env (Some ''mqtt publish success'') (tr @ [Printf ''mqtt publish success'']))"

text \<open>One turn of the loop; the first result says that it leaves the loop.\<close>

definition gateway_turn :: "gateway_env \<Rightarrow> int \<Rightarrow> read_result list \<Rightarrow> history \<Rightarrow> (bool \<times> history) option" where
  "gateway_turn env serial_fd reads tr =
     (let tr = tr @ [Printf ''-----------------''] in
      case data_source_read True serial_fd 128 reads of
        None \<Rightarrow> None
      | Some (ret, raw_buf, rest, es) \<Rightarrow>
          let tr = tr @ es in
          if ret \<noteq> 0
          then (if \<not> env_g_running env tr then Some (True, tr)
                else Some (False, app_log_warn env (Some ''read data source failed'') (tr @ [Printf ''read data source failed''])))
          else Some (False, gateway_line env raw_buf tr))"

fun gateway_loop :: "gateway_env \<Rightarrow> int \<Rightarrow> read_result list list \<Rightarrow> history \<Rightarrow> history option" where
  "gateway_loop env serial_fd turns tr =
     (if \<not> env_g_running env tr then Some tr
      else case turns of
        [] \<Rightarrow> None
      | reads # rest \<Rightarrow>
          (case gateway_turn env serial_fd reads tr of
             None \<Rightarrow> None
           | Some (leaves, tr) \<Rightarrow> if leaves then Some tr else gateway_loop env serial_fd rest tr))"

declare gateway_loop.simps [simp del]

definition gateway_main :: "gateway_env \<Rightarrow> read_result list list \<Rightarrow> (int \<times> history) option" where
  "gateway_main env turns =
     (let tr = app_log_info env (Some ''gateway start'') [Printf ''gateway start''] in
      case data_source_init (env_serial env) of (ret, serial_fd, es) \<Rightarrow>
      let tr = tr @ es in
      if ret \<noteq> 0 then Some (1, app_log_error env (Some ''data source init failed'') (tr @ [Printf ''data source init failed'']))
      else
        let tr = app_log_info env (Some ''data source init success'') tr in
        case mqtt_client_init env True tr of (ret, tr) \<Rightarrow>
        if ret \<noteq> 0
        then let tr = app_log_error env (Some ''mqtt client init failed'') (tr @ [Printf ''mqtt client init failed''])
             in Some (1, tr @ snd (data_source_cleanup (env_serial env) serial_fd))
        else
          let tr = app_log_info env (Some ''mqtt client init success'') tr in
          case gateway_loop env serial_fd turns tr of
            None \<Rightarrow> None
          | Some tr \<Rightarrow>
              let tr = app_log_info env (Some ''gateway stopping'') (tr @ [Printf [], Printf ''gateway stopping...'']);
                  tr = mqtt_client_cleanup True tr @ snd (data_source_cleanup (env_serial env) serial_fd)
              in Some (0, app_log_info env (Some ''gateway stopped'') tr @ [Printf ''gateway stopped'']))"

section \<open>What is published\<close>

text \<open>The texts given to the MQTT library, in order.\<close>

fun publish_text :: "gw_event \<Rightarrow> string list" where
  "publish_text (MosqPublish json ret) = [json]"
| "publish_text _ = []"

definition published :: "history \<Rightarrow> string list" where
  "published tr = concat (map publish_text tr)"

text \<open>A text may be published when a line that gives it was read and the text is in the sensor log.\<close>

definition justified :: "gateway_env \<Rightarrow> history \<Rightarrow> string \<Rightarrow> bool" where
  "justified env before json \<longleftrightarrow>
     (\<exists>raw data time. Printf (''raw data: '' @ raw) \<in> set before \<and> sensor_values (env_out_of_range env) raw data \<and>
        json = json_text data \<and> SensorLog (''['' @ time @ '']'' @ json) \<in> set before)"

definition publishes_justified :: "gateway_env \<Rightarrow> history \<Rightarrow> bool" where
  "publishes_justified env tr \<longleftrightarrow> (\<forall>before json ret after. tr = before @ MosqPublish json ret # after \<longrightarrow> justified env before json)"

text \<open>The text of a line, if it is accepted, and the text of the line that a turn reads, if it reads one.\<close>

definition line_json :: "gateway_env \<Rightarrow> string \<Rightarrow> string list" where
  "line_json env raw_buf =
     (case parse_sensor_data (env_out_of_range env) (Some (c_str raw_buf)) (Some zero_SensorData) of
        (ret, sensor) \<Rightarrow> if ret \<noteq> 0 then [] else [json_text (the sensor)])"

definition turn_json :: "gateway_env \<Rightarrow> int \<Rightarrow> read_result list \<Rightarrow> string list" where
  "turn_json env serial_fd reads =
     (case data_source_read True serial_fd 128 reads of
        None \<Rightarrow> []
      | Some (ret, raw_buf, rest, es) \<Rightarrow> if ret \<noteq> 0 then [] else line_json env raw_buf)"

lemma published_append [simp]: "published (tr @ es) = published tr @ published es"
  by (simp add: published_def)

lemma published_Cons [simp]: "published (e # es) = publish_text e @ published es" "published [] = []"
  by (simp_all add: published_def)

text \<open>What is said of every event of a history and the events before it, for one event more.\<close>

lemma all_splits_snoc:
  "(\<forall>before x after. xs @ [e] = before @ x # after \<longrightarrow> P before x) \<longleftrightarrow>
     (\<forall>before x after. xs = before @ x # after \<longrightarrow> P before x) \<and> P xs e"
proof (intro iffI conjI allI impI)
  assume all: "\<forall>before x after. xs @ [e] = before @ x # after \<longrightarrow> P before x"
  then show "P xs e" by blast
  show "P before x" if "xs = before @ x # after" for before x after
    using all [rule_format, of before x "after @ [e]"] that by simp
next
  fix before x after
  assume old: "(\<forall>before x after. xs = before @ x # after \<longrightarrow> P before x) \<and> P xs e" and eq: "xs @ [e] = before @ x # after"
  show "P before x"
  proof (cases after rule: rev_cases)
    case Nil
    with eq old show ?thesis by simp
  next
    case (snoc after' y)
    with eq have "xs = before @ x # after'" by simp
    with old show ?thesis by blast
  qed
qed

lemma justified_snoc:
  "publishes_justified env (tr @ [e]) \<longleftrightarrow>
     publishes_justified env tr \<and> (case e of MosqPublish json ret \<Rightarrow> justified env tr json | _ \<Rightarrow> True)"
proof -
  have "publishes_justified env tr \<longleftrightarrow> (\<forall>before x after. tr = before @ x # after \<longrightarrow>
      (case x of MosqPublish json ret \<Rightarrow> justified env before json | _ \<Rightarrow> True))" for tr
    by (auto simp: publishes_justified_def split: gw_event.split)
  then show ?thesis by (simp only: all_splits_snoc)
qed

lemma justified_quiet:
  "published es = [] \<Longrightarrow> publishes_justified env (tr @ es) \<longleftrightarrow> publishes_justified env tr"
proof (induction es arbitrary: tr)
  case (Cons e es)
  then have "publish_text e = []" "published es = []" by simp_all
  moreover have "publishes_justified env ((tr @ [e]) @ es) \<longleftrightarrow> publishes_justified env (tr @ [e])"
    using Cons.IH \<open>published es = []\<close> by blast
  ultimately show ?case by (cases e) (simp_all add: justified_snoc)
qed simp

text \<open>The application log adds one event that is no publication.\<close>

lemma app_log_keeps [simp]:
  "published (app_log_info env msg tr) = published tr" "published (app_log_warn env msg tr) = published tr"
  "published (app_log_error env msg tr) = published tr"
  "publishes_justified env (app_log_info env msg tr) = publishes_justified env tr"
  "publishes_justified env (app_log_warn env msg tr) = publishes_justified env tr"
  "publishes_justified env (app_log_error env msg tr) = publishes_justified env tr"
  "set tr \<subseteq> set (app_log_info env msg tr)"
  by (auto simp: app_log_info_def app_log_warn_def app_log_error_def app_log_write_def justified_snoc split: option.splits)

text \<open>The publication of a text that is in the sensor log.\<close>

lemma mqtt_publish_keeps:
  assumes "mqtt_publish_json env True (Some json) tr = (ret, tr')"
  shows "published tr' = published tr @ [json]"
    "publishes_justified env tr' \<longleftrightarrow> publishes_justified env tr \<and> justified env tr json"
proof -
  define p where "p = tr @ [MosqPublish json (env_mosquitto_publish env tr)]"
  from assms obtain e where "tr' = p @ [e]" "publish_text e = []"
    unfolding mqtt_publish_json_def Let_def p_def by (auto split: if_splits)
  then show "published tr' = published tr @ [json]"
    "publishes_justified env tr' \<longleftrightarrow> publishes_justified env tr \<and> justified env tr json"
    using justified_quiet [of "[e]" env p] by (simp_all add: p_def justified_snoc)
qed

text \<open>A line that is accepted, from the point where its text is shown.\<close>

definition line_shown :: "gateway_env \<Rightarrow> string \<Rightarrow> string \<Rightarrow> history \<Rightarrow> history" where
  "line_shown env raw json tr =
     app_log_info env (Some ''parse sensor data success'')
       ((tr @ [Printf (''raw data: '' @ c_str raw)]) @ [Printf ''parse success'']) @ [Printf (''json: '' @ json)]"

lemma line_shown_keeps:
  "published (line_shown env raw json tr) = published tr"
  "publishes_justified env (line_shown env raw json tr) = publishes_justified env tr"
  "Printf (''raw data: '' @ c_str raw) \<in> set (line_shown env raw json tr)"
  using app_log_keeps(7) [of "(tr @ [Printf (''raw data: '' @ c_str raw)]) @ [Printf ''parse success'']" env
      "Some ''parse sensor data success''"]
  by (simp_all add: line_shown_def justified_quiet)

lemma gateway_line_accepted:
  assumes ints: "\<And>n. is_int (env_out_of_range env n)"
    and parse: "parse_sensor_data (env_out_of_range env) (Some (c_str raw)) (Some zero_SensorData) = (0, Some data)"
    and vals: "sensor_values (env_out_of_range env) (c_str raw) data"
  shows "gateway_line env raw tr =
    (case write_log env (Some (json_text data)) (line_shown env raw (json_text data) tr) of (ret, tr) \<Rightarrow>
      if ret \<noteq> 0 then app_log_error env (Some ''write sensor log failed'') (tr @ [Printf ''write log failed''])
      else
        case mqtt_publish_json env True (Some (json_text data)) (app_log_info env (Some ''write sensor log success'') tr) of (ret, tr) \<Rightarrow>
        if ret \<noteq> 0 then app_log_error env (Some ''mqtt publish failed'') (tr @ [Printf ''mqtt publish failed''])
        else app_log_info env (Some ''mqtt publish success'') (tr @ [Printf ''mqtt publish success'']))"
  unfolding gateway_line_def Let_def parse line_shown_def
  by (simp only: prod.case build_json_fits [OF ints vals] option.sel simp_thms if_False)

text \<open>What it publishes, by whether the sensor log opens.\<close>

lemma accepted_publishes:
  assumes line: "gateway_line env raw tr =
    (case write_log env (Some json) tr2 of (ret, tr) \<Rightarrow>
      if ret \<noteq> 0 then app_log_error env (Some ''write sensor log failed'') (tr @ [Printf ''write log failed''])
      else
        case mqtt_publish_json env True (Some json) (app_log_info env (Some ''write sensor log success'') tr) of (ret, tr) \<Rightarrow>
        if ret \<noteq> 0 then app_log_error env (Some ''mqtt publish failed'') (tr @ [Printf ''mqtt publish failed''])
        else app_log_info env (Some ''mqtt publish success'') (tr @ [Printf ''mqtt publish success'']))"
    and read: "Printf (''raw data: '' @ c_str raw) \<in> set tr2" "sensor_values (env_out_of_range env) (c_str raw) data"
    and json: "json = json_text data"
  shows "published (gateway_line env raw tr) = published tr2 @ (if env_sensor_log_opens env tr2 then [json] else [])"
    "publishes_justified env tr2 \<Longrightarrow> publishes_justified env (gateway_line env raw tr)"
proof (atomize (full), cases "env_sensor_log_opens env tr2")
  case False
  then have "write_log env (Some json) tr2 = (-1, tr2 @ [Perror ''fopen sensor_log.txt failed''])" by (simp add: write_log_def)
  then have "gateway_line env raw tr = app_log_error env (Some ''write sensor log failed'')
      ((tr2 @ [Perror ''fopen sensor_log.txt failed'']) @ [Printf ''write log failed''])"
    unfolding line by (simp only: prod.case) simp
  with False show "published (gateway_line env raw tr) = published tr2 @ (if env_sensor_log_opens env tr2 then [json] else []) \<and>
      (publishes_justified env tr2 \<longrightarrow> publishes_justified env (gateway_line env raw tr))"
    by (simp add: justified_quiet)
next
  case True
  let ?log = "SensorLog (''['' @ env_time env tr2 @ '']'' @ json)"
  let ?tr3 = "app_log_info env (Some ''write sensor log success'') (tr2 @ [?log])"
  obtain ret' tr4 where pub: "mqtt_publish_json env True (Some json) ?tr3 = (ret', tr4)" by fastforce
  have logged: "write_log env (Some json) tr2 = (0, tr2 @ [?log])" using True by (simp add: write_log_def)
  have "set (tr2 @ [?log]) \<subseteq> set ?tr3" by (rule app_log_keeps(7))
  with read json have just: "justified env ?tr3 json" unfolding justified_def by auto
  have "published (gateway_line env raw tr) = published tr4"
    "publishes_justified env (gateway_line env raw tr) = publishes_justified env tr4"
    unfolding line logged prod.case pub by (simp_all add: justified_snoc)
  then show "published (gateway_line env raw tr) = published tr2 @ (if env_sensor_log_opens env tr2 then [json] else []) \<and>
      (publishes_justified env tr2 \<longrightarrow> publishes_justified env (gateway_line env raw tr))"
    using mqtt_publish_keeps [OF pub] just True by (simp add: justified_snoc)
qed

lemma gateway_line_keeps:
  assumes ints: "\<And>n. is_int (env_out_of_range env n)"
  shows "\<exists>ps. published (gateway_line env raw tr) = published tr @ ps \<and> (ps = [] \<or> ps = line_json env raw) \<and>
      ((\<forall>h. env_sensor_log_opens env h) \<longrightarrow> ps = line_json env raw) \<and>
      (publishes_justified env tr \<longrightarrow> publishes_justified env (gateway_line env raw tr))"
proof -
  obtain ret sensor where parse: "parse_sensor_data (env_out_of_range env) (Some (c_str raw)) (Some zero_SensorData) = (ret, sensor)"
    by fastforce
  show ?thesis
  proof (cases "ret = 0")
    case False
    then have line: "gateway_line env raw tr = app_log_warn env (Some ''parse sensor data failed'')
        ((tr @ [Printf (''raw data: '' @ c_str raw)]) @ [Printf ''parse sensor data failed''])"
      unfolding gateway_line_def Let_def parse by (simp only: prod.case if_True simp_thms)
    have "line_json env raw = []" using False by (simp add: line_json_def parse)
    then show ?thesis unfolding line by (intro exI [of _ "[]"]) (simp add: justified_quiet)
  next
    case True
    with parse obtain data where sensor: "sensor = Some data"
      and vals: "sensor_values (env_out_of_range env) (c_str raw) data" by (blast elim: parse_success)
    let ?tr2 = "line_shown env raw (json_text data) tr"
    have js: "line_json env raw = [json_text data]" using True sensor by (simp add: line_json_def parse)
    note line = gateway_line_accepted [OF ints parse [unfolded True sensor] vals, of tr]
    note result = accepted_publishes [OF line line_shown_keeps(3) vals refl, unfolded line_shown_keeps(1,2)]
    show ?thesis
      by (rule exI [of _ "if env_sensor_log_opens env ?tr2 then [json_text data] else []"]) (use result js in auto)
  qed
qed

lemma read_events_quiet:
  assumes "data_source_read True fd n rs = Some (ret, raw, rest, es)"
  shows "published es = []"
  using assms by (auto simp: data_source_read_def split: if_splits option.splits)

lemma gateway_turn_keeps:
  assumes ints: "\<And>n. is_int (env_out_of_range env n)" and turn: "gateway_turn env fd reads tr = Some (leaves, tr')"
  shows "\<exists>ps. published tr' = published tr @ ps \<and> (ps = [] \<or> ps = turn_json env fd reads) \<and>
      ((\<forall>h. env_sensor_log_opens env h) \<longrightarrow> ps = turn_json env fd reads) \<and>
      (publishes_justified env tr \<longrightarrow> publishes_justified env tr')"
proof -
  from turn obtain ret raw rest es where read: "data_source_read True fd 128 reads = Some (ret, raw, rest, es)"
    by (cases "data_source_read True fd 128 reads") (auto simp: gateway_turn_def Let_def)
  let ?tr = "(tr @ [Printf ''-----------------'']) @ es"
  have quiet: "published ?tr = published tr" "publishes_justified env ?tr = publishes_justified env tr"
    using read_events_quiet [OF read] by (simp_all add: justified_quiet)
  show ?thesis
  proof (cases "ret = 0")
    case True
    then have "tr' = gateway_line env raw ?tr" "turn_json env fd reads = line_json env raw"
      using turn read by (simp_all add: gateway_turn_def turn_json_def Let_def)
    with gateway_line_keeps [OF ints, of raw ?tr] quiet show ?thesis by simp
  next
    case False
    then have "turn_json env fd reads = []" using read by (simp add: turn_json_def)
    moreover have "published tr' = published tr \<and> publishes_justified env tr' = publishes_justified env tr"
      using turn read False read_events_quiet [OF read] unfolding gateway_turn_def Let_def
      by (auto simp: justified_quiet split: if_splits)
    ultimately show ?thesis by simp
  qed
qed

text \<open>
  A turn begins with the line that separates it from the one before, which nothing else prints: how often
  that line was printed is the number of turns begun.
\<close>

abbreviation separator :: gw_event where
  "separator \<equiv> Printf ''-----------------''"

definition turns_begun :: "history \<Rightarrow> nat" where
  "turns_begun tr = length (filter (\<lambda>e. e = separator) tr)"

definition adds :: "history \<Rightarrow> history \<Rightarrow> bool" where
  "adds tr tr' \<longleftrightarrow> (\<exists>es. tr' = tr @ es \<and> separator \<notin> set es)"

lemma adds_intros:
  "adds tr tr" "adds tr tr' \<Longrightarrow> separator \<notin> set es \<Longrightarrow> adds tr (tr' @ es)"
  "adds tr tr' \<Longrightarrow> adds tr (app_log_info env msg tr')" "adds tr tr' \<Longrightarrow> adds tr (app_log_warn env msg tr')"
  "adds tr tr' \<Longrightarrow> adds tr (app_log_error env msg tr')"
  by (auto simp: adds_def app_log_info_def app_log_warn_def app_log_error_def app_log_write_def split: option.splits)

lemma adds_calls:
  "write_log env json tr' = (ret, tr'') \<Longrightarrow> adds tr tr' \<Longrightarrow> adds tr tr''"
  "mqtt_publish_json env mosq json tr' = (ret, tr'') \<Longrightarrow> adds tr tr' \<Longrightarrow> adds tr tr''"
  "mqtt_client_init env mosq tr' = (ret, tr'') \<Longrightarrow> adds tr tr' \<Longrightarrow> adds tr tr''"
  by (auto simp: adds_def write_log_def mqtt_publish_json_def mqtt_client_init_def Let_def split: option.splits if_splits)

lemma adds_turns: "adds tr tr' \<Longrightarrow> turns_begun tr' = turns_begun tr"
  by (auto simp: adds_def turns_begun_def filter_empty_conv)

lemma gateway_line_adds: "adds tr (gateway_line env raw tr)"
proof -
  obtain ret sensor where parse: "parse_sensor_data (env_out_of_range env) (Some (c_str raw)) (Some zero_SensorData) = (ret, sensor)"
    by fastforce
  obtain ret' json where build: "build_json sensor (Some []) 128 = (ret', json)" by fastforce
  let ?shown = "app_log_info env (Some ''parse sensor data success'')
    ((tr @ [Printf (''raw data: '' @ c_str raw)]) @ [Printf ''parse success'']) @ [Printf (''json: '' @ the json)]"
  obtain ret2 tr2 where log: "write_log env json ?shown = (ret2, tr2)" by fastforce
  obtain ret3 tr3 where pub: "mqtt_publish_json env True json (app_log_info env (Some ''write sensor log success'') tr2) = (ret3, tr3)"
    by fastforce
  have shown: "adds tr ?shown" by (intro adds_intros) simp_all
  note logged = adds_calls(1) [OF log shown]
  note sent = adds_calls(2) [OF pub adds_intros(3) [OF logged]]
  show ?thesis
    unfolding gateway_line_def Let_def parse prod.case build log pub
    by (auto intro!: adds_intros logged sent)
qed

lemma gateway_turn_adds:
  assumes "gateway_turn env fd reads tr = Some (leaves, tr')"
  shows "adds (tr @ [separator]) tr'" "leaves \<Longrightarrow> \<not> env_g_running env tr'"
proof -
  from assms obtain ret raw rest es where read: "data_source_read True fd 128 reads = Some (ret, raw, rest, es)"
    by (cases "data_source_read True fd 128 reads") (auto simp: gateway_turn_def Let_def)
  have "separator \<notin> set es" using read by (auto simp: data_source_read_def split: if_splits option.splits)
  then have es: "adds (tr @ [separator]) ((tr @ [separator]) @ es)" by (intro adds_intros)
  have line: "adds (tr @ [separator]) (gateway_line env raw ((tr @ [separator]) @ es))"
    using es gateway_line_adds [of "(tr @ [separator]) @ es" env raw] by (auto simp: adds_def)
  show "adds (tr @ [separator]) tr'"
    using assms read line es unfolding gateway_turn_def Let_def
    by (auto simp del: append_assoc intro!: adds_intros split: if_splits)
  show "leaves \<Longrightarrow> \<not> env_g_running env tr'"
    using assms read by (auto simp: gateway_turn_def Let_def split: if_splits)
qed

text \<open>Where a turn begins the flag is set.\<close>

definition turns_flagged :: "gateway_env \<Rightarrow> history \<Rightarrow> bool" where
  "turns_flagged env tr \<longleftrightarrow> (\<forall>before after. tr = before @ separator # after \<longrightarrow> env_g_running env before)"

lemma turns_flagged_snoc:
  "turns_flagged env (tr @ [e]) \<longleftrightarrow> turns_flagged env tr \<and> (e = separator \<longrightarrow> env_g_running env tr)"
proof -
  have "turns_flagged env tr \<longleftrightarrow> (\<forall>before x after. tr = before @ x # after \<longrightarrow> x = separator \<longrightarrow> env_g_running env before)" for tr
    by (auto simp: turns_flagged_def)
  then show ?thesis by (simp only: all_splits_snoc)
qed

lemma adds_flagged: "adds tr tr' \<Longrightarrow> turns_flagged env tr' \<longleftrightarrow> turns_flagged env tr"
proof -
  have "separator \<notin> set es \<Longrightarrow> turns_flagged env (tr @ es) \<longleftrightarrow> turns_flagged env tr" for es
    by (induction es rule: rev_induct) (auto simp: turns_flagged_snoc simp flip: append_assoc)
  then show "adds tr tr' \<Longrightarrow> turns_flagged env tr' \<longleftrightarrow> turns_flagged env tr" by (auto simp: adds_def)
qed

lemma gateway_loop_flagged:
  assumes "gateway_loop env fd turns tr = Some tr'"
  shows "\<not> env_g_running env tr'" "turns_flagged env tr \<Longrightarrow> turns_flagged env tr'"
proof -
  have "\<not> env_g_running env tr' \<and> (turns_flagged env tr \<longrightarrow> turns_flagged env tr')"
    using assms
  proof (induction turns arbitrary: tr)
    case Nil
    then show ?case by (auto simp: gateway_loop.simps split: if_splits)
  next
    case (Cons reads turns)
    show ?case
    proof (cases "env_g_running env tr")
      case True
      with Cons.prems obtain leaves tr1 where turn: "gateway_turn env fd reads tr = Some (leaves, tr1)"
        and after: "(if leaves then Some tr1 else gateway_loop env fd turns tr1) = Some tr'"
        by (subst (asm) gateway_loop.simps) (auto split: option.splits)
      have "turns_flagged env tr1 \<longleftrightarrow> turns_flagged env tr"
        using adds_flagged [OF gateway_turn_adds(1) [OF turn]] True by (simp add: turns_flagged_snoc)
      with after gateway_turn_adds(2) [OF turn] Cons.IH [of tr1] show ?thesis by (auto split: if_splits)
    qed (use Cons.prems in \<open>auto simp: gateway_loop.simps\<close>)
  qed
  then show "\<not> env_g_running env tr'" "turns_flagged env tr \<Longrightarrow> turns_flagged env tr'" by blast+
qed

lemma gateway_loop_keeps:
  assumes ints: "\<And>n. is_int (env_out_of_range env n)" and "gateway_loop env fd turns tr = Some tr'"
  shows "\<exists>k ps. turns_begun tr' = turns_begun tr + k \<and> k \<le> length turns \<and> published tr' = published tr @ ps \<and>
      subseq ps (concat (map (turn_json env fd) (take k turns))) \<and>
      ((\<forall>h. env_sensor_log_opens env h) \<longrightarrow> ps = concat (map (turn_json env fd) (take k turns))) \<and>
      (publishes_justified env tr \<longrightarrow> publishes_justified env tr')"
  using assms(2)
proof (induction turns arbitrary: tr)
  case Nil
  then have "tr' = tr" by (simp add: gateway_loop.simps split: if_splits)
  then show ?case by simp
next
  case (Cons reads turns)
  show ?case
  proof (cases "env_g_running env tr")
    case False
    with Cons.prems have "tr' = tr" by (simp add: gateway_loop.simps)
    then show ?thesis by (intro exI [of _ 0]) simp
  next
    case True
    with Cons.prems obtain leaves tr1 where turn: "gateway_turn env fd reads tr = Some (leaves, tr1)"
      and after: "(if leaves then Some tr1 else gateway_loop env fd turns tr1) = Some tr'"
      by (subst (asm) gateway_loop.simps) (auto split: option.splits)
    from gateway_turn_keeps [OF ints turn] obtain qs where qs: "published tr1 = published tr @ qs"
      "qs = [] \<or> qs = turn_json env fd reads"
      "(\<forall>h. env_sensor_log_opens env h) \<longrightarrow> qs = turn_json env fd reads"
      "publishes_justified env tr \<longrightarrow> publishes_justified env tr1" by blast
    then have sub: "subseq qs (turn_json env fd reads)" by auto
    have begun: "turns_begun tr1 = Suc (turns_begun tr)"
      using adds_turns [OF gateway_turn_adds(1) [OF turn]] by (simp add: turns_begun_def)
    show ?thesis
    proof (cases leaves)
      case True
      with after qs sub begun show ?thesis by (intro exI [of _ 1] exI [of _ qs]) simp
    next
      case False
      with after Cons.IH obtain k ps where ps: "k \<le> length turns" "published tr' = published tr1 @ ps"
        "turns_begun tr' = turns_begun tr1 + k"
        "subseq ps (concat (map (turn_json env fd) (take k turns)))"
        "(\<forall>h. env_sensor_log_opens env h) \<longrightarrow> ps = concat (map (turn_json env fd) (take k turns))"
        "publishes_justified env tr1 \<longrightarrow> publishes_justified env tr'" by (metis (full_types))
      have "subseq (qs @ ps) (turn_json env fd reads @ concat (map (turn_json env fd) (take k turns)))"
        using sub ps(4) by (rule list_emb_append_mono)
      with ps qs begun show ?thesis by (intro exI [of _ "Suc k"] exI [of _ "qs @ ps"]) simp
    qed
  qed
qed

section \<open>What is acquired and released\<close>

text \<open>The events by which a resource is acquired, used for publishing, or released.\<close>

fun resource :: "gw_event \<Rightarrow> bool" where
  "resource (SerialOpen path fd) = True"
| "resource (SerialClose fd) = True"
| "resource MosqLibInit = True"
| "resource (MosqNew ok) = True"
| "resource (MosqConnect ret) = True"
| "resource (MosqPublish json ret) = True"
| "resource MosqDisconnect = True"
| "resource MosqDestroy = True"
| "resource MosqLibCleanup = True"
| "resource _ = False"

definition resources :: "history \<Rightarrow> gw_event list" where
  "resources tr = filter resource tr"

lemma resources_append [simp]:
  "resources (tr @ es) = resources tr @ resources es"
  "resources (e # es) = (if resource e then e # resources es else resources es)" "resources [] = []"
  by (simp_all add: resources_def)

lemma resources_app_log [simp]:
  "resources (app_log_info env msg tr) = resources tr" "resources (app_log_warn env msg tr) = resources tr"
  "resources (app_log_error env msg tr) = resources tr"
  by (simp_all add: app_log_info_def app_log_warn_def app_log_error_def app_log_write_def split: option.split)

definition only_publishes :: "gw_event list \<Rightarrow> bool" where
  "only_publishes es \<longleftrightarrow> (\<forall>e \<in> set es. \<exists>json ret. e = MosqPublish json ret)"

lemma gateway_line_resources: "\<exists>es. resources (gateway_line env raw tr) = resources tr @ es \<and> only_publishes es"
proof -
  have pub: "\<exists>es. resources tr' = resources tr @ es \<and> only_publishes es" if "mqtt_publish_json env True json tr = (ret, tr')" for json tr ret tr'
    using that by (intro exI [of _ "map (\<lambda>j. MosqPublish j (env_mosquitto_publish env tr)) (case json of None \<Rightarrow> [] | Some j \<Rightarrow> [j])"])
      (auto simp: mqtt_publish_json_def Let_def only_publishes_def split: if_splits option.splits)
  have log: "resources tr' = resources tr" if "write_log env json tr = (ret, tr')" for json tr ret tr'
    using that by (auto simp: write_log_def split: if_splits option.splits)
  have none: "only_publishes []" by (simp add: only_publishes_def)
  show ?thesis
    unfolding gateway_line_def Let_def
    by (auto split: prod.split simp: none dest!: pub log)
qed

lemma only_publishes_append: "only_publishes es \<Longrightarrow> only_publishes es' \<Longrightarrow> only_publishes (es @ es')"
  by (auto simp: only_publishes_def)

lemma gateway_turn_resources:
  assumes "gateway_turn env fd reads tr = Some (leaves, tr')"
  shows "\<exists>es. resources tr' = resources tr @ es \<and> only_publishes es"
proof -
  from assms obtain ret raw rest es where read: "data_source_read True fd 128 reads = Some (ret, raw, rest, es)"
    by (cases "data_source_read True fd 128 reads") (auto simp: gateway_turn_def Let_def)
  then have "resources es = []" by (auto simp: data_source_read_def split: if_splits option.splits)
  then have quiet: "resources ((tr @ [Printf ''-----------------'']) @ es) = resources tr" by simp
  show ?thesis
  proof (cases "ret = 0")
    case True
    with assms read have "tr' = gateway_line env raw ((tr @ [Printf ''-----------------'']) @ es)"
      by (simp add: gateway_turn_def Let_def)
    with gateway_line_resources [of env raw "(tr @ [Printf ''-----------------'']) @ es"] quiet show ?thesis by simp
  next
    case False
    with assms read quiet have "resources tr' = resources tr"
      unfolding gateway_turn_def Let_def by (auto split: if_splits)
    then show ?thesis by (intro exI [of _ "[]"]) (simp add: only_publishes_def)
  qed
qed

lemma gateway_loop_resources:
  "gateway_loop env fd turns tr = Some tr' \<Longrightarrow> \<exists>es. resources tr' = resources tr @ es \<and> only_publishes es"
proof (induction turns arbitrary: tr)
  case Nil
  then have "tr' = tr" by (simp add: gateway_loop.simps split: if_splits)
  then show ?case by (simp add: only_publishes_def)
next
  case (Cons reads turns)
  show ?case
  proof (cases "env_g_running env tr")
    case False
    with Cons.prems have "tr' = tr" by (simp add: gateway_loop.simps)
    then show ?thesis by (simp add: only_publishes_def)
  next
    case True
    with Cons.prems obtain leaves tr1 where turn: "gateway_turn env fd reads tr = Some (leaves, tr1)"
      and after: "(if leaves then Some tr1 else gateway_loop env fd turns tr1) = Some tr'"
      by (subst (asm) gateway_loop.simps) (auto split: option.splits)
    from gateway_turn_resources [OF turn] obtain es where es: "resources tr1 = resources tr @ es" "only_publishes es" by blast
    show ?thesis
    proof (cases leaves)
      case True
      with after es show ?thesis by auto
    next
      case False
      with after Cons.IH obtain es' where "resources tr' = resources tr1 @ es'" "only_publishes es'" by (metis (full_types))
      with es show ?thesis by (intro exI [of _ "es @ es'"]) (simp add: only_publishes_append)
    qed
  qed
qed

text \<open>The parts of \<^verbatim>\<open>main\<close> before the loop.\<close>

lemma serial_configure_quiet: "serial_configure os fd = (r, es) \<Longrightarrow> resources es = [] \<and> published es = []"
  unfolding serial_configure_def Let_def by (auto split: prod.splits if_splits)

lemma data_source_init_events:
  assumes "data_source_init os = (r, fd, es)"
  shows "published es = []" "r = 0 \<Longrightarrow> fd = ser_open os \<and> resources es = [SerialOpen SERIAL_DEV fd] \<and> 0 \<le> fd"
    "r \<noteq> 0 \<Longrightarrow> resources es =
       SerialOpen SERIAL_DEV (ser_open os) # (if ser_open os < 0 then [] else [SerialClose (ser_open os)])"
proof -
  obtain r' es' where conf: "serial_configure os (ser_open os) = (r', es')" by fastforce
  note quiet = serial_configure_quiet [OF conf]
  from assms conf quiet show "published es = []" "r = 0 \<Longrightarrow> fd = ser_open os \<and> resources es = [SerialOpen SERIAL_DEV fd] \<and> 0 \<le> fd"
    "r \<noteq> 0 \<Longrightarrow> resources es =
       SerialOpen SERIAL_DEV (ser_open os) # (if ser_open os < 0 then [] else [SerialClose (ser_open os)])"
    by (auto simp: data_source_init_def Let_def split: if_splits)
qed

lemma init_adds:
  assumes "data_source_init os = (r, fd, es)"
  shows "separator \<notin> set es"
proof -
  obtain r' es' where conf: "serial_configure os (ser_open os) = (r', es')" by fastforce
  then have "separator \<notin> set es'" unfolding serial_configure_def Let_def by (auto split: prod.splits if_splits)
  with assms conf show ?thesis by (auto simp: data_source_init_def Let_def split: if_splits)
qed

lemma cleanup_events: "0 \<le> fd \<Longrightarrow>
    published (snd (data_source_cleanup os fd)) = [] \<and> resources (snd (data_source_cleanup os fd)) = [SerialClose fd]"
  by (simp add: data_source_cleanup_def)

lemma mqtt_init_events:
  assumes "mqtt_client_init env True tr = (r, tr')"
  shows "published tr' = published tr"
    "resources tr' = resources tr @ [MosqLibInit, MosqNew (env_mosquitto_new env)] @
       (if \<not> env_mosquitto_new env then [MosqLibCleanup]
        else MosqConnect (env_mosquitto_connect env) #
          (if r \<noteq> 0 then [MosqDestroy, MosqLibCleanup] else []))"
    "r = 0 \<longleftrightarrow> env_mosquitto_new env \<and> env_mosquitto_connect env = 0"
    "publishes_justified env tr' = publishes_justified env tr"
  using assms by (auto simp: mqtt_client_init_def Let_def justified_quiet split: if_splits)

text \<open>The three ways through \<^verbatim>\<open>main\<close>.\<close>

lemma gateway_main_cases:
  assumes "gateway_main env turns = Some (code, tr)"
  obtains (no_source) r fd es tr0 where "code = 1" "data_source_init (env_serial env) = (r, fd, es)" "r \<noteq> 0"
      "published tr0 = []" "resources tr0 = []" "adds [] tr0"
      "tr = app_log_error env (Some ''data source init failed'') ((tr0 @ es) @ [Printf ''data source init failed''])"
  | (no_mqtt) fd es tr0 r tr1 where "code = 1" "data_source_init (env_serial env) = (0, fd, es)"
      "published tr0 = []" "resources tr0 = [SerialOpen SERIAL_DEV fd]" "mqtt_client_init env True tr0 = (r, tr1)" "r \<noteq> 0"
      "adds [] tr0"
      "tr = app_log_error env (Some ''mqtt client init failed'') (tr1 @ [Printf ''mqtt client init failed'']) @
        snd (data_source_cleanup (env_serial env) fd)"
  | (stopped) fd es tr0 tr1 tr2 where "code = 0" "data_source_init (env_serial env) = (0, fd, es)"
      "published tr0 = []" "resources tr0 = [SerialOpen SERIAL_DEV fd]" "mqtt_client_init env True tr0 = (0, tr1)"
      "gateway_loop env fd turns (app_log_info env (Some ''mqtt client init success'') tr1) = Some tr2"
      "tr = app_log_info env (Some ''gateway stopped'')
         (mqtt_client_cleanup True (app_log_info env (Some ''gateway stopping'') (tr2 @ [Printf [], Printf ''gateway stopping...''])) @
          snd (data_source_cleanup (env_serial env) fd)) @ [Printf ''gateway stopped'']" "adds [] tr0"
proof -
  define tr0 where "tr0 = app_log_info env (Some ''gateway start'') [Printf ''gateway start'']"
  have quiet: "published tr0 = []" "resources tr0 = []" by (simp_all add: tr0_def)
  have "adds [] ([] @ [Printf ''gateway start''])" by (intro adds_intros) simp
  then have start: "adds [] tr0" unfolding tr0_def by (intro adds_intros) simp
  obtain r fd es where init: "data_source_init (env_serial env) = (r, fd, es)" by (metis prod_cases3)
  show thesis
  proof (cases "r = 0")
    case False
    with assms have "code = 1" "tr = app_log_error env (Some ''data source init failed'') ((tr0 @ es) @ [Printf ''data source init failed''])"
      unfolding gateway_main_def Let_def init prod.case tr0_def [symmetric] by simp_all
    with no_source init False quiet start show thesis by blast
  next
    case True
    define tr1 where "tr1 = app_log_info env (Some ''data source init success'') (tr0 @ es)"
    have quiet1: "published tr1 = []" "resources tr1 = [SerialOpen SERIAL_DEV fd]"
      using data_source_init_events [OF init] True quiet by (simp_all add: tr1_def)
    have start1: "adds [] tr1" unfolding tr1_def by (intro adds_intros start init_adds [OF init])
    obtain r' tr2 where mqtt: "mqtt_client_init env True tr1 = (r', tr2)" by fastforce
    show thesis
    proof (cases "r' = 0")
      case False
      with assms True have "code = 1" "tr = app_log_error env (Some ''mqtt client init failed'')
          (tr2 @ [Printf ''mqtt client init failed'']) @ snd (data_source_cleanup (env_serial env) fd)"
        unfolding gateway_main_def Let_def init prod.case tr0_def [symmetric] tr1_def [symmetric] mqtt by simp_all
      with no_mqtt init True mqtt False quiet1 start1 show thesis by blast
    next
      case ok: True
      with assms True obtain tr3 where "gateway_loop env fd turns (app_log_info env (Some ''mqtt client init success'') tr2) = Some tr3"
        "code = 0" "tr = app_log_info env (Some ''gateway stopped'')
         (mqtt_client_cleanup True (app_log_info env (Some ''gateway stopping'') (tr3 @ [Printf [], Printf ''gateway stopping...''])) @
          snd (data_source_cleanup (env_serial env) fd)) @ [Printf ''gateway stopped'']"
        unfolding gateway_main_def Let_def init prod.case tr0_def [symmetric] tr1_def [symmetric] mqtt
        by (auto split: option.splits)
      with stopped init True mqtt ok quiet1 start1 show thesis by blast
    qed
  qed
qed

text \<open>A run that fails to start publishes nothing and begins no turn.\<close>

lemma failed_start:
  assumes "published tr = []" and "adds [] tr" and "code = (1 :: int)"
  shows "publishes_justified env tr \<and> turns_begun tr \<le> length turns \<and> turns_flagged env tr \<and>
    (let texts = concat (map f (take (turns_begun tr) turns)) in
     subseq (published tr) texts \<and> (code = 0 \<and> opens \<longrightarrow> published tr = texts)) \<and>
    (if code = 0
     then \<exists>h after. tr = h @ after \<and> \<not> env_g_running env h \<and> turns_begun after = 0 \<and> published after = []
     else turns_begun tr = 0)"
proof -
  have "turns_begun tr = 0" "turns_flagged env tr"
    using adds_turns [OF assms(2)] adds_flagged [OF assms(2), of env] by (simp_all add: turns_begun_def turns_flagged_def)
  moreover have "publishes_justified env tr" using assms(1) justified_quiet [of tr env "[]"] by (simp add: publishes_justified_def)
  ultimately show ?thesis using assms(1,3) by (simp add: Let_def)
qed

section \<open>Properties\<close>

text \<open>An environment in which everything works and a signal arrives after the first publication.\<close>

definition sample_env :: gateway_env where
  "sample_env =
     \<lparr>env_serial = working_serial, env_out_of_range = (\<lambda>n. 0), env_time = (\<lambda>h. ''12:00''), env_app_log_opens = (\<lambda>h. True),
      env_sensor_log_opens = (\<lambda>h. True), env_mosquitto_new = True, env_mosquitto_connect = 0,
      env_mosquitto_publish = (\<lambda>h. 0), env_mosquitto_strerror = (\<lambda>r. ''error''), env_g_running = (\<lambda>h. published h = [])\<rparr>"

definition sample_turns :: "read_result list list" where
  "sample_turns = [[TimedOut], map Received (''bad'' @ [CHR 0x0A]), map Received (''temp=25,humi=60,device_id=a'' @ [CHR 0x0A])]"

lemma sample_gateway_run: "map_option fst (gateway_main sample_env sample_turns) = Some 0"
  by code_simp

text \<open>
  Claim C5. The gateway publishes only what it read and logged: whatever the environment answers,
  every text given to the MQTT library is the JSON text of a line that was read before and accepted
  by the parser, and is in the sensor log before; the texts published are, in order, among the texts
  of the lines of the turns that were begun, at most one for each; and when the sensor log can always
  be opened and the program was not stopped by a failed start, they are exactly the texts of the
  accepted lines of those turns. The turns begun are counted by the separator lines printed; each is
  begun with the flag set, and a run that ends with 0 reached a point where the flag was cleared, after
  which no turn was begun and nothing was published. A run that ends with 1 begins none.
\<close>

theorem gateway_publishes_what_it_read:
  assumes "gateway_main env turns = Some (code, tr)" and "\<And>n. is_int (env_out_of_range env n)"
  shows "publishes_justified env tr \<and> turns_begun tr \<le> length turns \<and> turns_flagged env tr \<and>
    (let texts = concat (map (turn_json env (ser_open (env_serial env))) (take (turns_begun tr) turns)) in
     subseq (published tr) texts \<and>
     (code = 0 \<and> (\<forall>h. env_sensor_log_opens env h) \<longrightarrow> published tr = texts)) \<and>
    (if code = 0
     then \<exists>h after. tr = h @ after \<and> \<not> env_g_running env h \<and> turns_begun after = 0 \<and> published after = []
     else turns_begun tr = 0)"
  using assms(1)
proof (cases rule: gateway_main_cases)
  case (no_source r fd es tr0)
  then have "published tr = []" using data_source_init_events(1) by simp
  moreover have "adds [] tr"
    unfolding no_source(7) by (intro adds_intros no_source(6) init_adds [OF no_source(2)]) simp
  ultimately show ?thesis using no_source(1) by (rule failed_start)
next
  case (no_mqtt fd es tr0 r tr1)
  have "0 \<le> fd" using data_source_init_events(2) [OF no_mqtt(2)] by simp
  with no_mqtt mqtt_init_events(1) [OF no_mqtt(5)] cleanup_events have "published tr = []" by simp
  moreover have "adds [] tr"
    unfolding no_mqtt(8) by (intro adds_intros adds_calls(3) [OF no_mqtt(5)] no_mqtt(7)) (simp_all add: data_source_cleanup_def)
  ultimately show ?thesis using no_mqtt(1) by (rule failed_start)
next
  case (stopped fd es tr0 tr1 tr2)
  have fd: "fd = ser_open (env_serial env)" "0 \<le> fd" using data_source_init_events(2) [OF stopped(2)] by simp_all
  let ?tr1 = "app_log_info env (Some ''mqtt client init success'') tr1"
  have start: "published ?tr1 = []" using mqtt_init_events(1) [OF stopped(5)] stopped(3) by simp
  have "adds [] ?tr1" by (intro adds_intros adds_calls(3) [OF stopped(5) stopped(8)])
  then have begun: "turns_begun ?tr1 = 0" "turns_flagged env ?tr1"
    using adds_turns adds_flagged by (fastforce simp: turns_begun_def turns_flagged_def)+
  have "publishes_justified env ?tr1" using start justified_quiet [of ?tr1 env "[]"] by (simp add: publishes_justified_def)
  with gateway_loop_keeps [OF assms(2) stopped(6)] start begun(1) have loop: "turns_begun tr2 \<le> length turns"
    "subseq (published tr2) (concat (map (turn_json env fd) (take (turns_begun tr2) turns)))"
    "(\<forall>h. env_sensor_log_opens env h) \<longrightarrow> published tr2 = concat (map (turn_json env fd) (take (turns_begun tr2) turns))"
    "publishes_justified env tr2" by auto
  have "adds tr2 tr" unfolding stopped(7) mqtt_client_cleanup_def
    by (intro adds_intros) (simp_all add: data_source_cleanup_def)
  then obtain after where after: "tr = tr2 @ after" "separator \<notin> set after" by (auto simp: adds_def)
  have "published tr = published tr2"
    using cleanup_events [OF fd(2), of "env_serial env"] unfolding stopped(7) mqtt_client_cleanup_def by simp
  then have quiet: "published after = []" "publishes_justified env tr"
    using after(1) loop(4) justified_quiet by (auto simp: justified_quiet)
  note end_flag = gateway_loop_flagged [OF stopped(6)]
  have "turns_begun tr = turns_begun tr2" "turns_flagged env tr" "turns_begun after = 0"
    using \<open>adds tr2 tr\<close> adds_turns adds_flagged end_flag(2) [OF begun(2)] after(2)
    by (auto simp: turns_begun_def filter_empty_conv)
  with loop quiet fd(1) after(1) end_flag(1) stopped(1) show ?thesis by (auto simp: Let_def)
qed

theorem gateway_publishes_what_it_read_witness:
  "\<exists>tr. gateway_main sample_env sample_turns = Some (0, tr) \<and> turns_begun tr = 3 \<and>
     published tr = concat (map (turn_json sample_env 3) sample_turns) \<and> published tr \<noteq> [] \<and> publishes_justified sample_env tr"
proof -
  have "case gateway_main sample_env sample_turns of None \<Rightarrow> False
      | Some (code, tr) \<Rightarrow> code = 0 \<and> published tr \<noteq> [] \<and> turns_begun tr = 3" by code_simp
  then obtain tr where tr: "gateway_main sample_env sample_turns = Some (0, tr)" "published tr \<noteq> []" "turns_begun tr = 3"
    by (auto split: option.splits prod.splits)
  have "is_int (env_out_of_range sample_env n)" for n by (simp add: sample_env_def is_int_def INT_MIN_def INT_MAX_def)
  note run = gateway_publishes_what_it_read [OF tr(1) this]
  have env: "ser_open (env_serial sample_env) = 3" "\<forall>h. env_sensor_log_opens sample_env h" "take 3 sample_turns = sample_turns"
    by (simp_all add: sample_env_def working_serial_def sample_turns_def)
  from run have "published tr = concat (map (turn_json sample_env 3) sample_turns)" "publishes_justified sample_env tr"
    unfolding Let_def env(1) tr(3) env(3) using env(2) by simp_all
  with tr show ?thesis by blast
qed

text \<open>
  Claim C25. The gateway gives back what it takes, on every path: a run that ends with 0 opened the
  device, initialised the library, made and connected a client, published, and then disconnected and
  destroyed the client, cleaned up the library and closed the device, each once and in this order; a
  run that ends with 1 published nothing and gave back exactly what it had acquired until then.
\<close>

theorem gateway_gives_back:
  assumes "gateway_main env turns = Some (code, tr)"
  shows "let fd = ser_open (env_serial env); opened = SerialOpen SERIAL_DEV fd in
    if code = 0
    then \<exists>es. only_publishes es \<and> 0 \<le> fd \<and> resources tr =
        [opened, MosqLibInit, MosqNew True, MosqConnect 0] @ es @ [MosqDisconnect, MosqDestroy, MosqLibCleanup, SerialClose fd]
    else code = 1 \<and> resources tr \<in>
      {opened # (if fd < 0 then [] else [SerialClose fd]),
       [opened, MosqLibInit, MosqNew False, MosqLibCleanup, SerialClose fd],
       [opened, MosqLibInit, MosqNew True, MosqConnect (env_mosquitto_connect env), MosqDestroy, MosqLibCleanup, SerialClose fd]}"
  using assms
proof (cases rule: gateway_main_cases)
  case (no_source r fd es tr0)
  from data_source_init_events(3) [OF no_source(2,3)] no_source show ?thesis by (simp add: Let_def)
next
  case (no_mqtt fd es tr0 r tr1)
  have fd: "fd = ser_open (env_serial env)" "0 \<le> fd" using data_source_init_events(2) [OF no_mqtt(2)] by simp_all
  from no_mqtt mqtt_init_events(2,3) [OF no_mqtt(5)] cleanup_events [OF fd(2)] fd(1) show ?thesis
    by (simp add: Let_def)
next
  case (stopped fd es tr0 tr1 tr2)
  have fd: "fd = ser_open (env_serial env)" "0 \<le> fd" using data_source_init_events(2) [OF stopped(2)] by simp_all
  from gateway_loop_resources [OF stopped(6)] obtain es' where es': "resources tr2 = resources tr1 @ es'" "only_publishes es'" by auto
  have "resources tr1 = [SerialOpen SERIAL_DEV fd, MosqLibInit, MosqNew True, MosqConnect 0]"
    using mqtt_init_events(2,3) [OF stopped(5)] stopped(4) by simp
  with es' cleanup_events [OF fd(2), of "env_serial env"] stopped(1,7) fd show ?thesis
    by (simp add: Let_def mqtt_client_cleanup_def)
qed

theorem gateway_gives_back_witness:
  "\<exists>tr es. gateway_main sample_env sample_turns = Some (0, tr) \<and>
     resources tr = [SerialOpen SERIAL_DEV 3, MosqLibInit, MosqNew True, MosqConnect 0] @ es @
       [MosqDisconnect, MosqDestroy, MosqLibCleanup, SerialClose 3]"
proof -
  from sample_gateway_run obtain tr where tr: "gateway_main sample_env sample_turns = Some (0, tr)" by auto
  have "ser_open (env_serial sample_env) = 3" by (simp add: sample_env_def working_serial_def)
  with gateway_gives_back [OF tr] tr show ?thesis by (auto simp: Let_def)
qed

text \<open>Every turn adds events.\<close>

lemma app_log_length [simp]:
  "length (app_log_info env (Some msg) tr) = Suc (length tr)" "length (app_log_warn env (Some msg) tr) = Suc (length tr)"
  "length (app_log_error env (Some msg) tr) = Suc (length tr)"
  by (simp_all add: app_log_info_def app_log_warn_def app_log_error_def app_log_write_def split: option.split)

lemma gateway_line_grows: "length tr < length (gateway_line env raw tr)"
proof -
  have pub: "length tr \<le> length tr'" if "mqtt_publish_json env True json tr = (ret, tr')" for json ret and tr tr' :: history
    using that by (auto simp: mqtt_publish_json_def Let_def split: if_splits option.splits)
  have log: "length tr \<le> length tr'" if "write_log env json tr = (ret, tr')" for json ret and tr tr' :: history
    using that by (auto simp: write_log_def split: if_splits option.splits)
  show ?thesis unfolding gateway_line_def Let_def by (fastforce split: prod.split dest!: pub log)
qed

lemma gateway_turn_grows:
  assumes "gateway_turn env fd reads tr = Some (leaves, tr')"
  shows "length tr < length tr'"
proof -
  from assms obtain ret raw rest es where "data_source_read True fd 128 reads = Some (ret, raw, rest, es)"
    by (cases "data_source_read True fd 128 reads") (auto simp: gateway_turn_def Let_def)
  with assms gateway_line_grows [of "tr @ Printf ''-----------------'' # es" env raw] show ?thesis
    unfolding gateway_turn_def Let_def by (auto split: if_splits)
qed

lemma gateway_loop_returns:
  assumes "\<And>h. N \<le> length h \<Longrightarrow> \<not> env_g_running env h" and "\<And>reads. reads \<in> set turns \<Longrightarrow> data_source_read True fd 128 reads \<noteq> None"
    and "N \<le> length tr + length turns"
  shows "gateway_loop env fd turns tr \<noteq> None"
  using assms(2,3)
proof (induction turns arbitrary: tr)
  case Nil
  with assms(1) show ?case by (simp add: gateway_loop.simps)
next
  case (Cons reads turns)
  show ?case
  proof (cases "env_g_running env tr")
    case True
    from Cons.prems(1) have "data_source_read True fd 128 reads \<noteq> None" by simp
    then have "gateway_turn env fd reads tr \<noteq> None" by (auto simp: gateway_turn_def Let_def)
    then obtain leaves tr1 where turn: "gateway_turn env fd reads tr = Some (leaves, tr1)" by auto
    from gateway_turn_grows [OF turn] Cons have "gateway_loop env fd turns tr1 \<noteq> None" by simp
    with True turn show ?thesis by (simp add: gateway_loop.simps [of env fd "reads # turns"])
  qed (simp add: gateway_loop.simps)
qed

text \<open>
  Claim C26. The gateway stops when it is told to: if the flag is cleared at the latest after some
  number of events and every attempt to read a line returns, the program returns, after no more
  turns than that number.
\<close>

theorem gateway_stops:
  assumes "\<And>h. N \<le> length h \<Longrightarrow> \<not> env_g_running env h"
    and "\<And>reads. reads \<in> set turns \<Longrightarrow> data_source_read True (ser_open (env_serial env)) 128 reads \<noteq> None"
    and "N \<le> length turns"
  shows "\<exists>code tr. gateway_main env turns = Some (code, tr)"
proof -
  obtain r fd es where init: "data_source_init (env_serial env) = (r, fd, es)" by (metis prod_cases3)
  let ?tr = "app_log_info env (Some ''data source init success'')
    (app_log_info env (Some ''gateway start'') [Printf ''gateway start''] @ es)"
  obtain r' tr' where mqtt: "mqtt_client_init env True ?tr = (r', tr')" by fastforce
  have "gateway_loop env fd turns (app_log_info env (Some ''mqtt client init success'') tr') \<noteq> None" if "r = 0"
    using data_source_init_events(2) [OF init that] assms by (intro gateway_loop_returns [of N]) auto
  then show ?thesis
    unfolding gateway_main_def Let_def init prod.case mqtt by (auto split: option.split)
qed

theorem gateway_stops_witness:
  "\<exists>code tr. gateway_main (sample_env\<lparr>env_g_running := \<lambda>h. length h < 20\<rparr>) (replicate 20 [TimedOut]) = Some (code, tr)"
proof (rule gateway_stops)
  show "\<not> env_g_running (sample_env\<lparr>env_g_running := \<lambda>h. length h < 20\<rparr>) h" if "20 \<le> length h" for h
    using that by simp
  show "data_source_read True (ser_open (env_serial (sample_env\<lparr>env_g_running := \<lambda>h. length h < 20\<rparr>))) 128 reads \<noteq> None"
    if "reads \<in> set (replicate 20 [TimedOut])" for reads
    using that by (simp add: data_source_read_def read_loop_steps)
  show "20 \<le> length (replicate 20 [TimedOut])" by simp
qed

end
