(* ===== verification/Ring_Buffer.thy ===== *)
theory Ring_Buffer
  imports Serial_Frame
begin

text \<open>
  The ring buffer of \<^verbatim>\<open>practice/day02/ring_buffer.c\<close>, and the contract of a bounded queue that it
  keeps. One of the eight places always stays free, so that a full buffer can be told from an empty
  one; the buffer is a queue of capacity seven.
\<close>

section \<open>Bounded queues\<close>

text \<open>A sequence of operations on a queue, with their results.\<close>

datatype 'a queue_op = Enqueue 'a | Dequeue

datatype 'a queue_result = Enqueued bool | Dequeued "'a option"

fun queue_run :: "('a \<Rightarrow> 'q \<Rightarrow> bool \<times> 'q) \<Rightarrow> ('q \<Rightarrow> 'a option \<times> 'q) \<Rightarrow> 'a queue_op list \<Rightarrow> 'q \<Rightarrow> 'a queue_result list \<times> 'q" where
  "queue_run enq deq [] q = ([], q)"
| "queue_run enq deq (Enqueue x # ops) q =
     (case enq x q of (ok, q) \<Rightarrow> case queue_run enq deq ops q of (rs, q) \<Rightarrow> (Enqueued ok # rs, q))"
| "queue_run enq deq (Dequeue # ops) q =
     (case deq q of (r, q) \<Rightarrow> case queue_run enq deq ops q of (rs, q) \<Rightarrow> (Dequeued r # rs, q))"

text \<open>The abstract queue: a list with at most so many elements.\<close>

definition list_enqueue :: "nat \<Rightarrow> 'a \<Rightarrow> 'a list \<Rightarrow> bool \<times> 'a list" where
  "list_enqueue capacity x xs = (if length xs < capacity then (True, xs @ [x]) else (False, xs))"

fun list_dequeue :: "'a list \<Rightarrow> 'a option \<times> 'a list" where
  "list_dequeue [] = (None, [])"
| "list_dequeue (x # xs) = (Some x, xs)"

locale bounded_queue =
  fixes invar :: "'q \<Rightarrow> bool"
    and elements_of :: "'q \<Rightarrow> 'a list"
    and capacity :: nat
    and enq :: "'a \<Rightarrow> 'q \<Rightarrow> bool \<times> 'q"
    and deq :: "'q \<Rightarrow> 'a option \<times> 'q"
  assumes bounded: "invar q \<Longrightarrow> length (elements_of q) \<le> capacity"
    and enq_invar: "invar q \<Longrightarrow> enq x q = (ok, q') \<Longrightarrow> invar q'"
    and deq_invar: "invar q \<Longrightarrow> deq q = (r, q') \<Longrightarrow> invar q'"
    and enq_list: "invar q \<Longrightarrow> enq x q = (ok, q') \<Longrightarrow> list_enqueue capacity x (elements_of q) = (ok, elements_of q')"
    and deq_list: "invar q \<Longrightarrow> deq q = (r, q') \<Longrightarrow> list_dequeue (elements_of q) = (r, elements_of q')"
begin

text \<open>Whatever sequence of operations is run, the results are those of the abstract queue.\<close>

lemma run_refines:
  "invar q \<Longrightarrow> queue_run enq deq ops q = (rs, q') \<Longrightarrow>
     invar q' \<and> queue_run (list_enqueue capacity) list_dequeue ops (elements_of q) = (rs, elements_of q')"
proof (induction ops arbitrary: q rs)
  case (Cons op ops)
  show ?case
  proof (cases op)
    case (Enqueue x)
    obtain ok q1 where enq: "enq x q = (ok, q1)" by fastforce
    obtain rs1 where run: "queue_run enq deq ops q1 = (rs1, q')" "rs = Enqueued ok # rs1"
      using Cons.prems(2) Enqueue enq by (auto split: prod.splits)
    from Cons.IH [OF enq_invar [OF Cons.prems(1) enq] run(1)] enq_list [OF Cons.prems(1) enq] Enqueue run(2)
    show ?thesis by simp
  next
    case Dequeue
    obtain r q1 where deq: "deq q = (r, q1)" by fastforce
    obtain rs1 where run: "queue_run enq deq ops q1 = (rs1, q')" "rs = Dequeued r # rs1"
      using Cons.prems(2) Dequeue deq by (auto split: prod.splits)
    from Cons.IH [OF deq_invar [OF Cons.prems(1) deq] run(1)] deq_list [OF Cons.prems(1) deq] Dequeue run(2)
    show ?thesis by simp
  qed
qed simp

lemma results_refine:
  "invar q \<Longrightarrow> fst (queue_run enq deq ops q) = fst (queue_run (list_enqueue capacity) list_dequeue ops (elements_of q))"
  using run_refines by (metis prod.collapse fst_conv)

end

section \<open>The ring buffer\<close>

definition BUFFER_SIZE :: nat where "BUFFER_SIZE = 8"

record ring =
  rb_buffer :: "u8 list"
  rb_head :: nat
  rb_tail :: nat

definition new_ring :: ring where
  "new_ring = \<lparr>rb_buffer = replicate BUFFER_SIZE 0, rb_head = 0, rb_tail = 0\<rparr>"

definition ring_buffer_empty :: "ring \<Rightarrow> bool" where
  "ring_buffer_empty q = (if rb_head q = rb_tail q then True else False)"

definition ring_buffer_full :: "ring \<Rightarrow> bool" where
  "ring_buffer_full q = (if (rb_head q + 1) mod BUFFER_SIZE = rb_tail q then True else False)"

definition ring_buffer_push :: "u8 \<Rightarrow> ring \<Rightarrow> bool \<times> ring" where
  "ring_buffer_push data q =
     (if ring_buffer_full q then (False, q)
      else (True, q\<lparr>rb_buffer := (rb_buffer q)[rb_head q := data], rb_head := (rb_head q + 1) mod BUFFER_SIZE\<rparr>))"

text \<open>The argument is the variable that the result goes to, \<open>None\<close> for a null pointer.\<close>

definition ring_buffer_pop_into :: "u8 option \<Rightarrow> ring \<Rightarrow> bool \<times> u8 option \<times> ring" where
  "ring_buffer_pop_into data q =
     (if data = None then (False, data, q)
      else if ring_buffer_empty q then (False, data, q)
      else (True, Some (rb_buffer q ! rb_tail q), q\<lparr>rb_tail := (rb_tail q + 1) mod BUFFER_SIZE\<rparr>))"

text \<open>The same with the result as a value.\<close>

definition ring_buffer_pop :: "ring \<Rightarrow> u8 option \<times> ring" where
  "ring_buffer_pop q =
     (case ring_buffer_pop_into (Some 0) q of (ok, data, q) \<Rightarrow> (if ok then data else None, q))"

text \<open>The loop of \<^verbatim>\<open>main\<close> that prints until the buffer is empty; it ends because each turn removes an element.\<close>

definition ring_count :: "ring \<Rightarrow> nat" where
  "ring_count q = (rb_head q + BUFFER_SIZE - rb_tail q) mod BUFFER_SIZE"

fun drain :: "nat \<Rightarrow> u8 \<Rightarrow> ring \<Rightarrow> string list option" where
  "drain 0 data q = None"
| "drain (Suc fuel) data q =
     (case ring_buffer_pop_into (Some data) q of (ok, data', q') \<Rightarrow>
       if ok then map_option (\<lambda>ls. hex_byte (the data') # ls) (drain fuel (the data') q') else Some [])"

definition ring_main :: "string list option" where
  "ring_main =
     (let q = snd (ring_buffer_push 0x33 (snd (ring_buffer_push 0x22 (snd (ring_buffer_push 0x11 new_ring)))))
      in drain (ring_count q + 1) 0 q)"

section \<open>Refinement\<close>

definition ring_ok :: "ring \<Rightarrow> bool" where
  "ring_ok q \<longleftrightarrow> length (rb_buffer q) = BUFFER_SIZE \<and> rb_head q < BUFFER_SIZE \<and> rb_tail q < BUFFER_SIZE"

definition ring_elements :: "ring \<Rightarrow> u8 list" where
  "ring_elements q = map (\<lambda>k. rb_buffer q ! ((rb_tail q + k) mod BUFFER_SIZE)) [0..<ring_count q]"

lemma ring_arith:
  fixes h t k :: nat
  assumes "h < 8" and "t < 8"
  shows "(h + 8 - t) mod 8 \<le> 7" "((h + 8 - t) mod 8 = 7) = ((h + 1) mod 8 = t)" "((h + 8 - t) mod 8 = 0) = (h = t)"
    "(h + 1) mod 8 \<noteq> t \<Longrightarrow> ((h + 1) mod 8 + 8 - t) mod 8 = Suc ((h + 8 - t) mod 8)"
    "h \<noteq> t \<Longrightarrow> Suc ((h + 8 - (t + 1) mod 8) mod 8) = (h + 8 - t) mod 8"
    "k < (h + 8 - t) mod 8 \<Longrightarrow> (t + k) mod 8 \<noteq> h" "(t + (h + 8 - t) mod 8) mod 8 = h"
    "((t + 1) mod 8 + k) mod 8 = (t + Suc k) mod 8"
proof -
  have wrap: "(n :: nat) mod 8 = (if n < 8 then n else n - 8)" if "n < 16" for n
    using that by (simp add: le_mod_geq)
  have count: "(h + 8 - t) mod 8 = (if h < t then h + 8 - t else h - t)" using assms wrap [of "h + 8 - t"] by auto
  have next_h: "(h + 1) mod 8 = (if h = 7 then 0 else h + 1)" and next_t: "(t + 1) mod 8 = (if t = 7 then 0 else t + 1)"
    using assms wrap [of "h + 1"] wrap [of "t + 1"] by auto
  show "(h + 8 - t) mod 8 \<le> 7" "((h + 8 - t) mod 8 = 7) = ((h + 1) mod 8 = t)" "((h + 8 - t) mod 8 = 0) = (h = t)"
    unfolding count next_h using assms by (auto split: if_splits)
  show "((h + 1) mod 8 + 8 - t) mod 8 = Suc ((h + 8 - t) mod 8)" if "(h + 1) mod 8 \<noteq> t"
    using that assms wrap [of "(h + 1) mod 8 + 8 - t"] unfolding count next_h by (auto split: if_splits)
  show "Suc ((h + 8 - (t + 1) mod 8) mod 8) = (h + 8 - t) mod 8" if "h \<noteq> t"
    using that assms wrap [of "h + 8 - (t + 1) mod 8"] unfolding count next_t by (auto split: if_splits)
  show "(t + k) mod 8 \<noteq> h" if "k < (h + 8 - t) mod 8"
    using that assms wrap [of "t + k"] unfolding count by (auto split: if_splits)
  show "(t + (h + 8 - t) mod 8) mod 8 = h"
    using assms wrap [of "t + (h + 8 - t) mod 8"] unfolding count by (auto split: if_splits)
  show "((t + 1) mod 8 + k) mod 8 = (t + Suc k) mod 8" by (simp add: mod_add_left_eq)
qed

lemma ring_push_elements:
  assumes "ring_ok q" and "\<not> ring_buffer_full q"
  shows "ring_elements (snd (ring_buffer_push x q)) = ring_elements q @ [x]"
proof -
  let ?h = "rb_head q" and ?t = "rb_tail q"
  have ok: "?h < 8" "?t < 8" "length (rb_buffer q) = 8" using assms(1) by (simp_all add: ring_ok_def BUFFER_SIZE_def)
  note arith = ring_arith [OF ok(1,2)]
  have count: "ring_count (snd (ring_buffer_push x q)) = Suc (ring_count q)"
    using arith(4) assms(2) by (simp add: ring_count_def ring_buffer_push_def ring_buffer_full_def BUFFER_SIZE_def split: if_splits)
  have old: "map (\<lambda>k. (rb_buffer q)[?h := x] ! ((?t + k) mod 8)) [0..<ring_count q] = ring_elements q"
    using arith(6) unfolding ring_elements_def by (auto simp: ring_count_def BUFFER_SIZE_def nth_list_update_neq [OF not_sym])
  have "(rb_buffer q)[?h := x] ! ((?t + ring_count q) mod 8) = x"
    using arith(7) ok by (simp add: ring_count_def BUFFER_SIZE_def)
  with old count assms(2) show ?thesis
    unfolding ring_elements_def by (simp add: ring_buffer_push_def BUFFER_SIZE_def)
qed

lemma ring_pop_elements:
  assumes "ring_ok q" and "rb_head q \<noteq> rb_tail q"
  shows "ring_elements q =
    rb_buffer q ! rb_tail q # ring_elements (q\<lparr>rb_tail := (rb_tail q + 1) mod BUFFER_SIZE\<rparr>)"
proof -
  let ?q = "q\<lparr>rb_tail := (rb_tail q + 1) mod BUFFER_SIZE\<rparr>"
  have ok: "rb_head q < 8" "rb_tail q < 8" using assms(1) by (simp_all add: ring_ok_def BUFFER_SIZE_def)
  note arith = ring_arith [OF ok]
  have count: "ring_count q = Suc (ring_count ?q)" using arith(5) assms(2) by (simp add: ring_count_def BUFFER_SIZE_def)
  have "ring_elements q = map (\<lambda>k. rb_buffer q ! ((rb_tail q + k) mod 8)) (0 # map Suc [0..<ring_count ?q])"
    unfolding ring_elements_def count by (simp add: BUFFER_SIZE_def map_Suc_upt upt_conv_Cons del: upt_Suc)
  also have "\<dots> = rb_buffer q ! rb_tail q # ring_elements ?q"
    using ok arith(8) by (simp add: ring_elements_def BUFFER_SIZE_def)
  finally show ?thesis .
qed

interpretation ring: bounded_queue ring_ok ring_elements 7 ring_buffer_push ring_buffer_pop
proof unfold_locales
  fix q :: ring and x :: u8 and ok r q'
  assume q: "ring_ok q"
  have range: "rb_head q < 8" "rb_tail q < 8" using q by (simp_all add: ring_ok_def BUFFER_SIZE_def)
  note arith = ring_arith [OF range]
  have len: "length (ring_elements q) = (rb_head q + 8 - rb_tail q) mod 8"
    by (simp add: ring_elements_def ring_count_def BUFFER_SIZE_def)
  show "length (ring_elements q) \<le> 7" using arith(1) len by simp
  show "ring_ok q'" if "ring_buffer_push x q = (ok, q')"
    using that q by (auto simp: ring_buffer_push_def ring_ok_def BUFFER_SIZE_def split: if_splits)
  show "ring_ok q'" if "ring_buffer_pop q = (r, q')"
    using that q by (auto simp: ring_buffer_pop_def ring_buffer_pop_into_def ring_ok_def BUFFER_SIZE_def split: if_splits)
  show "list_enqueue 7 x (ring_elements q) = (ok, ring_elements q')" if push: "ring_buffer_push x q = (ok, q')"
  proof (cases "ring_buffer_full q")
    case True
    with push len arith(2) show ?thesis
      by (auto simp: list_enqueue_def ring_buffer_push_def ring_buffer_full_def BUFFER_SIZE_def split: if_splits)
  next
    case False
    then have "length (ring_elements q) < 7"
      using len arith(1,2) by (auto simp: ring_buffer_full_def BUFFER_SIZE_def split: if_splits)
    moreover have "ok" "q' = snd (ring_buffer_push x q)" using push False by (auto simp: ring_buffer_push_def)
    ultimately show ?thesis using ring_push_elements [OF q False] by (simp add: list_enqueue_def)
  qed
  show "list_dequeue (ring_elements q) = (r, ring_elements q')" if pop: "ring_buffer_pop q = (r, q')"
  proof (cases "rb_head q = rb_tail q")
    case True
    with pop len arith(3) show ?thesis
      by (auto simp: ring_buffer_pop_def ring_buffer_pop_into_def ring_buffer_empty_def)
  next
    case False
    with pop show ?thesis
      using ring_pop_elements [OF q False]
      by (auto simp: ring_buffer_pop_def ring_buffer_pop_into_def ring_buffer_empty_def)
  qed
qed

section \<open>Properties\<close>

text \<open>
  Claim C8. The ring buffer is a queue of capacity seven: started empty, whatever sequence of pushes
  and pops is run, every push reports the success and every pop delivers the byte that a list used as
  a queue, refusing an eighth element, would; and no access leaves the array. A pop through a null
  pointer is refused, and the program prints its three bytes in order.
\<close>

theorem ring_buffer_is_queue:
  "fst (queue_run ring_buffer_push ring_buffer_pop ops new_ring) =
     fst (queue_run (list_enqueue 7) list_dequeue ops []) \<and>
   ring_ok (snd (queue_run ring_buffer_push ring_buffer_pop ops new_ring)) \<and>
   ring_buffer_pop_into None q = (False, None, q) \<and> ring_main = Some [''11'', ''22'', ''33'']"
proof -
  have ok: "ring_ok new_ring" "ring_elements new_ring = []" by (simp_all add: ring_ok_def ring_elements_def ring_count_def new_ring_def BUFFER_SIZE_def)
  obtain rs q' where run: "queue_run ring_buffer_push ring_buffer_pop ops new_ring = (rs, q')" by fastforce
  have "ring_main = Some [''11'', ''22'', ''33'']" by code_simp
  with ring.run_refines [OF ok(1) run] run ok(2) show ?thesis by (simp add: ring_buffer_pop_into_def)
qed

end
