(* ===== verification/Byte_Frame_Parser.thy ===== *)
theory Byte_Frame_Parser
  imports Serial_Frame "HOL-Library.Sublist"
begin

text \<open>
  The byte-wise frame parser of \<^verbatim>\<open>practice/day01/protocol_parser.c\<close>: a state machine fed one byte at a
  time. A frame is a head, a length, that many bytes of payload, their sum modulo 256 and a tail. The
  static variables are the fields of a record; a write outside the payload array is the value
  \<open>None\<close>, and that it never happens is proved.
\<close>

section \<open>The parser\<close>

definition FRAME_HEAD :: u8 where "FRAME_HEAD = 0xAA"
definition FRAME_TAIL :: u8 where "FRAME_TAIL = 0x55"
definition MAX_PAYLOAD :: nat where "MAX_PAYLOAD = 32"

datatype ParserState = WAIT_HEAD | WAIT_LEN | WAIT_PAYLOAD | WAIT_CHECKSUM | WAIT_TAIL

record frame_parser =
  fp_state :: ParserState
  fp_payload :: "u8 list"
  fp_payload_len :: u8
  fp_payload_index :: u8
  fp_checksum :: u8

definition new_frame_parser :: frame_parser where
  "new_frame_parser =
     \<lparr>fp_state = WAIT_HEAD, fp_payload = replicate MAX_PAYLOAD 0, fp_payload_len = 0, fp_payload_index = 0, fp_checksum = 0\<rparr>"

text \<open>The line for a good frame, as the loop over its payload prints it.\<close>

definition frame_ok_line :: "u8 \<Rightarrow> u8 list \<Rightarrow> string" where
  "frame_ok_line len bytes =
     ''Frame OK len='' @ to_string (unat len) @ '',payload:'' @ concat (map hex_byte (take (unat len) bytes))"

text \<open>The lines printed and the variables afterwards.\<close>

definition parser_feed :: "u8 \<Rightarrow> frame_parser \<Rightarrow> (string list \<times> frame_parser) option" where
  "parser_feed byte p =
     (case fp_state p of
        WAIT_HEAD \<Rightarrow> Some ([], if byte = FRAME_HEAD then p\<lparr>fp_state := WAIT_LEN\<rparr> else p)
      | WAIT_LEN \<Rightarrow>
          if unat byte \<le> MAX_PAYLOAD
          then
            let p = p\<lparr>fp_payload_len := byte, fp_payload_index := 0, fp_checksum := 0\<rparr>
            in Some ([], p\<lparr>fp_state := (if fp_payload_len p = 0 then WAIT_CHECKSUM else WAIT_PAYLOAD)\<rparr>)
          else Some ([''Length error''], p\<lparr>fp_state := WAIT_HEAD\<rparr>)
      | WAIT_PAYLOAD \<Rightarrow>
          if unat (fp_payload_index p) < length (fp_payload p)
          then
            let p = p\<lparr>fp_payload := (fp_payload p)[unat (fp_payload_index p) := byte],
                     fp_payload_index := fp_payload_index p + 1, fp_checksum := fp_checksum p + byte\<rparr>
            in Some ([], if fp_payload_index p \<ge> fp_payload_len p then p\<lparr>fp_state := WAIT_CHECKSUM\<rparr> else p)
          else None
      | WAIT_CHECKSUM \<Rightarrow>
          if byte = fp_checksum p then Some ([], p\<lparr>fp_state := WAIT_TAIL\<rparr>)
          else Some ([''Checksum error''], p\<lparr>fp_state := WAIT_HEAD\<rparr>)
      | WAIT_TAIL \<Rightarrow>
          Some ([if byte = FRAME_TAIL then frame_ok_line (fp_payload_len p) (fp_payload p) else ''Tail error''],
                p\<lparr>fp_state := WAIT_HEAD\<rparr>))"

fun parser_feed_all :: "u8 list \<Rightarrow> frame_parser \<Rightarrow> (string list \<times> frame_parser) option" where
  "parser_feed_all [] p = Some ([], p)"
| "parser_feed_all (b # bs) p =
     (case parser_feed b p of
        None \<Rightarrow> None
      | Some (out, p1) \<Rightarrow>
          (case parser_feed_all bs p1 of None \<Rightarrow> None | Some (outs, p2) \<Rightarrow> Some (out @ outs, p2)))"

definition frame_parser_main :: "string list option" where
  "frame_parser_main =
     map_option fst (parser_feed_all [0xAA, 0x03, 0x01, 0x02, 0x03, 0x06, 0x55] new_frame_parser)"

section \<open>The invariant\<close>

text \<open>A frame on the wire.\<close>

definition byte_frame :: "u8 list \<Rightarrow> u8 list" where
  "byte_frame bytes = [FRAME_HEAD, of_nat (length bytes)] @ bytes @ [sum_list bytes, FRAME_TAIL]"

text \<open>
  What the bytes fed so far end with, as the state tells it: since the head was seen, the length and
  the payload bytes read so far are the last bytes fed.
\<close>

definition fed_ends :: "u8 list \<Rightarrow> frame_parser \<Rightarrow> bool" where
  "fed_ends fed p \<longleftrightarrow> length (fp_payload p) = MAX_PAYLOAD \<and>
     (let len = unat (fp_payload_len p); index = unat (fp_payload_index p);
          seen = take index (fp_payload p); start = [FRAME_HEAD, fp_payload_len p] in
      case fp_state p of
        WAIT_HEAD \<Rightarrow> True
      | WAIT_LEN \<Rightarrow> suffix [FRAME_HEAD] fed
      | WAIT_PAYLOAD \<Rightarrow> len \<le> MAX_PAYLOAD \<and> index < len \<and> fp_checksum p = sum_list seen \<and> suffix (start @ seen) fed
      | WAIT_CHECKSUM \<Rightarrow> len \<le> MAX_PAYLOAD \<and> index = len \<and> fp_checksum p = sum_list seen \<and> suffix (start @ seen) fed
      | WAIT_TAIL \<Rightarrow> len \<le> MAX_PAYLOAD \<and> index = len \<and> suffix (start @ seen @ [sum_list seen]) fed)"

lemma suffix_snoc_intro: "suffix xs ys \<Longrightarrow> suffix (xs @ [b]) (ys @ [b])"
  by (auto simp: suffix_def)

lemma u8_small: "unat (b :: u8) \<le> 32 \<Longrightarrow> unat i < unat b \<Longrightarrow> unat ((i :: u8) + 1) = Suc (unat i)"
  by (simp add: unat_word_ariths)

text \<open>The line for a good frame, from the payload.\<close>

definition frame_line :: "u8 list \<Rightarrow> string" where
  "frame_line bytes = ''Frame OK len='' @ to_string (length bytes) @ '',payload:'' @ concat (map hex_byte bytes)"

definition error_lines :: "string list" where
  "error_lines = [''Length error'', ''Checksum error'', ''Tail error'']"

lemma frame_ok_line_eq:
  "unat len \<le> length bytes \<Longrightarrow> frame_ok_line len bytes = frame_line (take (unat len) bytes)"
  by (simp add: frame_ok_line_def frame_line_def)

text \<open>One byte keeps the invariant, and a good frame is only announced where one has just been fed.\<close>

lemma feed_payload:
  assumes "fed_ends fed p" and "fp_state p = WAIT_PAYLOAD"
  shows "\<exists>p'. parser_feed b p = Some ([], p') \<and> fed_ends (fed @ [b]) p'"
proof -
  let ?i = "unat (fp_payload_index p)" and ?len = "unat (fp_payload_len p)"
  from assms have p: "length (fp_payload p) = 32" "?len \<le> 32" "?i < ?len" "fp_checksum p = sum_list (take ?i (fp_payload p))"
    "suffix ([FRAME_HEAD, fp_payload_len p] @ take ?i (fp_payload p)) fed"
    by (simp_all add: fed_ends_def Let_def MAX_PAYLOAD_def)
  note next_index = u8_small [OF p(2,3)]
  have seen: "take (Suc ?i) ((fp_payload p)[?i := b]) = take ?i (fp_payload p) @ [b]"
    using p(1-3) by (simp add: take_Suc_conv_app_nth)
  define p1 where "p1 = p\<lparr>fp_payload := (fp_payload p)[?i := b], fp_payload_index := fp_payload_index p + 1,
    fp_checksum := fp_checksum p + b\<rparr>"
  define p2 where "p2 = (if fp_payload_index p1 \<ge> fp_payload_len p1 then p1\<lparr>fp_state := WAIT_CHECKSUM\<rparr> else p1)"
  have feed: "parser_feed b p = Some ([], p2)"
    using assms(2) p(1-3) by (simp add: parser_feed_def Let_def p1_def p2_def)
  have le: "fp_payload_index p1 \<ge> fp_payload_len p1 \<longleftrightarrow> Suc ?i = ?len"
    using p(3) next_index by (auto simp: p1_def word_le_nat_alt)
  have "suffix ([FRAME_HEAD, fp_payload_len p] @ take ?i (fp_payload p) @ [b]) (fed @ [b])"
    using suffix_snoc_intro [OF p(5)] by simp
  then have "fed_ends (fed @ [b]) p2"
    using p le seen next_index assms(2) by (auto simp: fed_ends_def Let_def p2_def p1_def MAX_PAYLOAD_def)
  with feed show ?thesis by blast
qed

lemma feed_keeps:
  assumes "fed_ends fed p"
  shows "\<exists>out p'. parser_feed b p = Some (out, p') \<and> fed_ends (fed @ [b]) p' \<and>
    (out = [] \<or> (\<exists>l \<in> set error_lines. out = [l]) \<or> (\<exists>bytes. out = [frame_line bytes] \<and> length bytes \<le> MAX_PAYLOAD \<and> suffix (byte_frame bytes) (fed @ [b])))"
proof (cases "fp_state p")
  case WAIT_HEAD
  with assms show ?thesis by (auto simp: parser_feed_def fed_ends_def suffix_def)
next
  case WAIT_LEN
  have "suffix [FRAME_HEAD, b] (fed @ [b])"
    using assms WAIT_LEN suffix_snoc_intro [of "[FRAME_HEAD]" fed b] by (simp add: fed_ends_def)
  with WAIT_LEN assms show ?thesis
    by (cases "unat b \<le> MAX_PAYLOAD") (auto simp: parser_feed_def Let_def fed_ends_def error_lines_def unat_gt_0)
next
  case WAIT_PAYLOAD
  from feed_payload [OF assms this, of b] show ?thesis by blast
next
  case WAIT_CHECKSUM
  with assms suffix_snoc_intro [of "[FRAME_HEAD, fp_payload_len p] @ take (unat (fp_payload_index p)) (fp_payload p)" fed b]
  show ?thesis
    by (cases "b = fp_checksum p") (auto simp: parser_feed_def fed_ends_def Let_def error_lines_def)
next
  case WAIT_TAIL
  let ?bytes = "take (unat (fp_payload_len p)) (fp_payload p)"
  from assms WAIT_TAIL have p: "length (fp_payload p) = MAX_PAYLOAD" "unat (fp_payload_len p) \<le> MAX_PAYLOAD"
    "suffix ([FRAME_HEAD, fp_payload_len p] @ ?bytes @ [sum_list ?bytes]) fed"
    unfolding fed_ends_def Let_def by auto
  have "of_nat (length ?bytes) = fp_payload_len p" using p(1,2) by simp
  then have "suffix (byte_frame ?bytes) (fed @ [b])" if "b = FRAME_TAIL"
    using suffix_snoc_intro [OF p(3), of b] that by (simp add: byte_frame_def)
  moreover have "length ?bytes \<le> MAX_PAYLOAD" using p(1) by simp
  moreover have "fed_ends (fed @ [b]) (p\<lparr>fp_state := WAIT_HEAD\<rparr>)" using p(1) by (simp add: fed_ends_def)
  moreover have "parser_feed b p = Some ([if b = FRAME_TAIL then frame_line ?bytes else ''Tail error''], p\<lparr>fp_state := WAIT_HEAD\<rparr>)"
    using WAIT_TAIL p(1,2) by (simp add: parser_feed_def frame_ok_line_eq)
  ultimately show ?thesis by (cases "b = FRAME_TAIL") (auto simp: error_lines_def)
qed

lemma feed_all_append:
  "parser_feed_all (bs @ cs) p =
     (case parser_feed_all bs p of None \<Rightarrow> None | Some (out, p1) \<Rightarrow>
        (case parser_feed_all cs p1 of None \<Rightarrow> None | Some (outs, p2) \<Rightarrow> Some (out @ outs, p2)))"
  by (induction bs arbitrary: p) (auto split: option.splits)

text \<open>Every line printed is an error or announces a frame that is in the input.\<close>

definition announced_in :: "u8 list \<Rightarrow> string \<Rightarrow> bool" where
  "announced_in input line \<longleftrightarrow> line \<in> set error_lines \<or>
     (\<exists>bytes. line = frame_line bytes \<and> length bytes \<le> MAX_PAYLOAD \<and> sublist (byte_frame bytes) input)"

lemma announced_mono: "announced_in input line \<Longrightarrow> announced_in (input @ later) line"
  unfolding announced_in_def by (metis prefixI prefix_imp_sublist sublist_order.dual_order.trans)

lemma feed_all_keeps:
  "\<exists>out p. parser_feed_all bs new_frame_parser = Some (out, p) \<and> fed_ends bs p \<and> (\<forall>l \<in> set out. announced_in bs l)"
proof (induction bs rule: rev_induct)
  case Nil
  show ?case by (simp add: fed_ends_def new_frame_parser_def)
next
  case (snoc b bs)
  then obtain out p where run: "parser_feed_all bs new_frame_parser = Some (out, p)" "fed_ends bs p" "\<forall>l \<in> set out. announced_in bs l"
    by blast
  from feed_keeps [OF run(2), of b] obtain out' p' where step: "parser_feed b p = Some (out', p')" "fed_ends (bs @ [b]) p'"
    "out' = [] \<or> (\<exists>l \<in> set error_lines. out' = [l]) \<or>
      (\<exists>bytes. out' = [frame_line bytes] \<and> length bytes \<le> MAX_PAYLOAD \<and> suffix (byte_frame bytes) (bs @ [b]))" by blast
  then have "\<forall>l \<in> set out'. announced_in (bs @ [b]) l"
    unfolding announced_in_def using suffix_imp_sublist by fastforce
  with run step announced_mono [of bs _ "[b]"] show ?case by (auto simp: feed_all_append)
qed

section \<open>Recognition\<close>

definition at_rest :: "frame_parser \<Rightarrow> bool" where
  "at_rest p \<longleftrightarrow> fp_state p = WAIT_HEAD \<and> length (fp_payload p) = MAX_PAYLOAD"

lemma feed_noise: "at_rest p \<Longrightarrow> FRAME_HEAD \<notin> set noise \<Longrightarrow> parser_feed_all noise p = Some ([], p)"
  by (induction noise) (auto simp: at_rest_def parser_feed_def)

text \<open>The payload bytes after the first ones.\<close>

lemma feed_payload_bytes:
  assumes "fp_state p = WAIT_PAYLOAD" and "length (fp_payload p) = MAX_PAYLOAD" and "unat (fp_payload_len p) \<le> MAX_PAYLOAD"
    and "unat (fp_payload_index p) + length bytes = unat (fp_payload_len p)" and "bytes \<noteq> []"
  shows "\<exists>p'. parser_feed_all bytes p = Some ([], p') \<and> fp_state p' = WAIT_CHECKSUM \<and> length (fp_payload p') = MAX_PAYLOAD \<and>
    fp_payload_len p' = fp_payload_len p \<and> fp_checksum p' = fp_checksum p + sum_list bytes \<and>
    take (unat (fp_payload_len p)) (fp_payload p') = take (unat (fp_payload_index p)) (fp_payload p) @ bytes"
  using assms
proof (induction bytes arbitrary: p)
  case (Cons b bytes)
  let ?i = "unat (fp_payload_index p)" and ?len = "unat (fp_payload_len p)"
  have i: "?i < ?len" "?i < length (fp_payload p)" "?i < 32" "?len \<le> 32" using Cons.prems by (auto simp: MAX_PAYLOAD_def)
  note next_index = u8_small [OF i(4,1)]
  let ?p1 = "p\<lparr>fp_payload := (fp_payload p)[?i := b], fp_payload_index := fp_payload_index p + 1, fp_checksum := fp_checksum p + b\<rparr>"
  have seen: "take (Suc ?i) ((fp_payload p)[?i := b]) = take ?i (fp_payload p) @ [b]"
    using i by (simp add: take_Suc_conv_app_nth)
  show ?case
  proof (cases "bytes = []")
    case True
    with Cons.prems next_index have last: "fp_payload_len p \<le> fp_payload_index p + 1" "?len = Suc ?i"
      by (simp_all add: word_le_nat_alt)
    with Cons.prems(1,2) i have "parser_feed_all (b # bytes) p = Some ([], ?p1\<lparr>fp_state := WAIT_CHECKSUM\<rparr>)"
      using True by (simp add: parser_feed_def Let_def)
    with Cons.prems(2) last(2) seen True show ?thesis by simp
  next
    case False
    then have more: "\<not> fp_payload_len p \<le> fp_payload_index p + 1"
      using Cons.prems(4) next_index by (cases bytes) (auto simp: word_le_nat_alt)
    have feed: "parser_feed b p = Some ([], ?p1)" using Cons.prems(1) i more by (simp add: parser_feed_def Let_def)
    have "\<exists>p'. parser_feed_all bytes ?p1 = Some ([], p') \<and> fp_state p' = WAIT_CHECKSUM \<and> length (fp_payload p') = MAX_PAYLOAD \<and>
      fp_payload_len p' = fp_payload_len ?p1 \<and> fp_checksum p' = fp_checksum ?p1 + sum_list bytes \<and>
      take (unat (fp_payload_len ?p1)) (fp_payload p') = take (unat (fp_payload_index ?p1)) (fp_payload ?p1) @ bytes"
      using Cons.prems next_index False by (intro Cons.IH) simp_all
    with feed seen next_index show ?thesis by (auto simp: add.assoc)
  qed
qed simp

lemma feed_frame:
  assumes "at_rest p" and "length bytes \<le> MAX_PAYLOAD"
  shows "\<exists>p'. parser_feed_all (byte_frame bytes) p = Some ([frame_line bytes], p') \<and> at_rest p'"
proof -
  let ?len = "of_nat (length bytes) :: u8"
  have len: "unat ?len = length bytes" using assms(2) by (simp add: unat_of_nat MAX_PAYLOAD_def)
  define p1 where "p1 = p\<lparr>fp_state := WAIT_PAYLOAD, fp_payload_len := ?len, fp_payload_index := 0, fp_checksum := 0\<rparr>"
  have head: "parser_feed FRAME_HEAD p = Some ([], p\<lparr>fp_state := WAIT_LEN\<rparr>)"
    using assms(1) by (simp add: at_rest_def parser_feed_def)
  have "\<exists>p2. parser_feed_all ([?len] @ bytes) (p\<lparr>fp_state := WAIT_LEN\<rparr>) = Some ([], p2) \<and> fp_state p2 = WAIT_CHECKSUM \<and>
      length (fp_payload p2) = MAX_PAYLOAD \<and> fp_payload_len p2 = ?len \<and> fp_checksum p2 = sum_list bytes \<and>
      take (length bytes) (fp_payload p2) = bytes"
  proof (cases "bytes = []")
    case True
    with assms show ?thesis by (simp add: parser_feed_def at_rest_def Let_def)
  next
    case False
    then have "?len \<noteq> 0" using len by (metis length_0_conv unat_0)
    then have "parser_feed ?len (p\<lparr>fp_state := WAIT_LEN\<rparr>) = Some ([], p1)"
      using len assms(2) by (simp add: parser_feed_def Let_def p1_def)
    moreover have "\<exists>p'. parser_feed_all bytes p1 = Some ([], p') \<and> fp_state p' = WAIT_CHECKSUM \<and> length (fp_payload p') = MAX_PAYLOAD \<and>
        fp_payload_len p' = fp_payload_len p1 \<and> fp_checksum p' = fp_checksum p1 + sum_list bytes \<and>
        take (unat (fp_payload_len p1)) (fp_payload p') = take (unat (fp_payload_index p1)) (fp_payload p1) @ bytes"
      using assms len False by (intro feed_payload_bytes) (simp_all add: p1_def at_rest_def)
    ultimately show ?thesis using len by (auto simp: p1_def)
  qed
  then obtain p2 where p2: "parser_feed_all ([?len] @ bytes) (p\<lparr>fp_state := WAIT_LEN\<rparr>) = Some ([], p2)" "fp_state p2 = WAIT_CHECKSUM"
    "length (fp_payload p2) = MAX_PAYLOAD" "fp_payload_len p2 = ?len" "fp_checksum p2 = sum_list bytes"
    "take (length bytes) (fp_payload p2) = bytes" by blast
  let ?p3 = "p2\<lparr>fp_state := WAIT_TAIL\<rparr>"
  have "parser_feed (sum_list bytes) p2 = Some ([], ?p3)" using p2 by (simp add: parser_feed_def)
  moreover have "parser_feed FRAME_TAIL ?p3 = Some ([frame_line bytes], ?p3\<lparr>fp_state := WAIT_HEAD\<rparr>)"
    using p2 len assms(2) frame_ok_line_eq [of ?len "fp_payload p2"] by (simp add: parser_feed_def)
  ultimately have tail: "parser_feed_all [sum_list bytes, FRAME_TAIL] p2 = Some ([frame_line bytes], ?p3\<lparr>fp_state := WAIT_HEAD\<rparr>)"
    by simp
  have "byte_frame bytes = FRAME_HEAD # (([?len] @ bytes) @ [sum_list bytes, FRAME_TAIL])" by (simp add: byte_frame_def)
  moreover have "parser_feed_all (([?len] @ bytes) @ [sum_list bytes, FRAME_TAIL]) (p\<lparr>fp_state := WAIT_LEN\<rparr>) =
      Some ([frame_line bytes], ?p3\<lparr>fp_state := WAIT_HEAD\<rparr>)"
    by (subst feed_all_append) (simp only: p2(1) option.case prod.case tail append_Nil)
  ultimately have "parser_feed_all (byte_frame bytes) p = Some ([frame_line bytes], ?p3\<lparr>fp_state := WAIT_HEAD\<rparr>)"
    by (simp only: parser_feed_all.simps head option.case prod.case append_Nil)
  with p2(3) show ?thesis by (auto simp: at_rest_def)
qed

section \<open>Properties\<close>

text \<open>
  Claim C34. The parser never writes outside its array and never invents a frame: after any sequence
  of bytes it has not left the payload array, and every line it has printed is one of the three error
  messages or announces a payload of at most 32 bytes whose complete frame, with its length, the sum
  of its bytes and its tail, is in the input.
\<close>

theorem byte_frames_sound:
  "\<exists>out p. parser_feed_all input new_frame_parser = Some (out, p) \<and>
     list_all (announced_in input) out \<and> length (fp_payload p) = MAX_PAYLOAD"
proof -
  obtain out p where "parser_feed_all input new_frame_parser = Some (out, p)" "fed_ends input p" "\<forall>l \<in> set out. announced_in input l"
    using feed_all_keeps by blast
  then show ?thesis by (auto simp: fed_ends_def list_all_iff)
qed

text \<open>
  The parser finds every frame: fed any number of frames with payloads of up to 32 bytes,
  each after any bytes that are not a head, it prints the line of each frame, in order, and nothing
  else, and is ready for the next one.
\<close>

theorem byte_frames_found:
  assumes "list_all (\<lambda>(noise, bytes). FRAME_HEAD \<notin> set noise \<and> length bytes \<le> MAX_PAYLOAD) frames" and "at_rest p"
  shows "\<exists>p'. parser_feed_all (concat (map (\<lambda>(noise, bytes). noise @ byte_frame bytes) frames)) p =
    Some (map (\<lambda>(noise, bytes). frame_line bytes) frames, p') \<and> at_rest p'"
  using assms
proof (induction frames arbitrary: p)
  case (Cons f frames)
  obtain noise bytes where f: "f = (noise, bytes)" by fastforce
  with Cons.prems have ok: "FRAME_HEAD \<notin> set noise" "length bytes \<le> MAX_PAYLOAD" by simp_all
  from feed_frame [OF Cons.prems(2) ok(2)] obtain p1 where p1: "parser_feed_all (byte_frame bytes) p = Some ([frame_line bytes], p1)" "at_rest p1"
    by blast
  from Cons.IH [OF _ p1(2)] Cons.prems(1) obtain p2 where
    "parser_feed_all (concat (map (\<lambda>(noise, bytes). noise @ byte_frame bytes) frames)) p1 =
      Some (map (\<lambda>(noise, bytes). frame_line bytes) frames, p2)" "at_rest p2" by auto
  with f p1 feed_noise [OF Cons.prems(2) ok(1)] show ?case by (simp add: feed_all_append)
qed simp

theorem byte_frames_found_witness:
  "frame_parser_main = Some [''Frame OK len=3,payload:010203'']"
proof -
  have "at_rest new_frame_parser" by (simp add: at_rest_def new_frame_parser_def)
  from byte_frames_found [OF _ this, of "[([], [1, 2, 3])]"]
  have "map_option fst (parser_feed_all (byte_frame [1, 2, 3]) new_frame_parser) = Some [frame_line [1, 2, 3]]"
    by (auto simp: MAX_PAYLOAD_def)
  moreover have "byte_frame [1, 2, 3] = [0xAA, 0x03, 0x01, 0x02, 0x03, 0x06, 0x55]"
    by (simp add: byte_frame_def FRAME_HEAD_def FRAME_TAIL_def)
  moreover have "frame_line [1, 2, 3] = ''Frame OK len=3,payload:010203''" by code_simp
  ultimately show ?thesis by (simp only: frame_parser_main_def)
qed

end
