(* ===== verification/Echo_Server.thy ===== *)
theory Echo_Server
  imports Uart_Io C_Text
begin

text \<open>
  The TCP echo server of \<^verbatim>\<open>examples/day04_tcp_echo_server.c\<close>: it accepts one client and sends back what
  it receives. The answers of the socket calls are arguments; the results of \<^verbatim>\<open>recv\<close> and \<^verbatim>\<open>send\<close> are
  given turn by turn, and \<open>None\<close> is a run that waits for a call that has not returned.
\<close>

section \<open>The server\<close>

definition ECHO_BUFFER_SIZE :: nat where "ECHO_BUFFER_SIZE = 256"

text \<open>
  The loop of \<^verbatim>\<open>send_all\<close>: the value returned and the calls of \<^verbatim>\<open>send\<close>, each with where its pointer points
  to in the buffer and the length it is asked for. Each result of \<^verbatim>\<open>send\<close> is its value with \<^verbatim>\<open>errno\<close>. What
  \<^verbatim>\<open>send_all\<close> sends are the bytes of the buffer those calls took.
\<close>

fun send_loop :: "nat \<Rightarrow> nat \<Rightarrow> io_result list \<Rightarrow> (int \<times> write_call list) option" where
  "send_loop len sent results =
     (if sent < len
      then (case results of
              [] \<Rightarrow> None
            | (n, err) # rest \<Rightarrow>
                let call = \<lparr>call_offset = sent, call_count = len - sent, call_result = n\<rparr> in
                if n > 0 then map_option (\<lambda>(ret, calls). (ret, call # calls)) (send_loop len (sent + nat n) rest)
                else if n < 0 \<and> err = EINTR then map_option (\<lambda>(ret, calls). (ret, call # calls)) (send_loop len sent rest)
                else Some (-1, [call]))
      else Some (0, []))"

declare send_loop.simps [simp del]

definition send_all :: "string \<Rightarrow> nat \<Rightarrow> io_result list \<Rightarrow> (int \<times> string) option" where
  "send_all buffer len results = map_option (\<lambda>(ret, calls). (ret, wire_bytes buffer calls)) (send_loop len 0 results)"

text \<open>
  A result of \<^verbatim>\<open>recv\<close>: the bytes it stored in the buffer, none when the client closed the connection,
  or -1 with \<^verbatim>\<open>errno\<close>. The second definition is \<^verbatim>\<open>buffer\<close> after the call and after the terminator was
  stored behind the bytes.
\<close>

datatype recv_result =
  RecvBytes string
  | RecvError errno

definition recv_into :: "string \<Rightarrow> string \<Rightarrow> string" where
  "recv_into buffer s = (s @ drop (length s) buffer)[length s := CHR 0x00]"

text \<open>What the server shows and does, in order; \<open>Sent\<close> is what one \<^verbatim>\<open>send_all\<close> sent.\<close>

datatype echo_event =
  Shown string
  | ErrorShown string
  | Sent string
  | ClosedFd int

text \<open>
  The loop over \<^verbatim>\<open>recv\<close>: the exit status and the events. Each turn is a result of \<^verbatim>\<open>recv\<close> with the results
  of the calls of \<^verbatim>\<open>send\<close> that follow it.
\<close>

fun echo_loop :: "string \<Rightarrow> (recv_result \<times> io_result list) list \<Rightarrow> (int \<times> echo_event list) option" where
  "echo_loop buffer [] = None"
| "echo_loop buffer ((RecvBytes s, sends) # turns) =
     (if length s > 0
      then
        let buffer' = recv_into buffer s;
            shown = Shown (''received '' @ to_string (length s) @ '' bytes: '' @ c_str buffer') in
        (case send_all buffer' (length s) sends of
           None \<Rightarrow> None
         | Some (ret, sent) \<Rightarrow>
             if ret < 0 then Some (1, [shown, Sent sent, ErrorShown ''send''])
             else (case echo_loop buffer' turns of
                     None \<Rightarrow> None
                   | Some (status, es) \<Rightarrow> Some (status, [shown, Sent sent] @ es)))
      else Some (0, [Shown ''client closed the connection'']))"
| "echo_loop buffer ((RecvError err, sends) # turns) =
     (if err = EINTR then echo_loop buffer turns else Some (1, [ErrorShown ''recv'']))"

record socket_answers =
  ans_socket :: int
  ans_setsockopt :: int
  ans_bind :: int
  ans_listen :: int
  ans_accept :: int

text \<open>The code after the label \<^verbatim>\<open>cleanup\<close>.\<close>

definition echo_cleanup :: "int \<Rightarrow> int \<Rightarrow> echo_event list" where
  "echo_cleanup client_fd server_fd =
     (if client_fd \<ge> 0 then [ClosedFd client_fd] else []) @ (if server_fd \<ge> 0 then [ClosedFd server_fd] else [])"

definition echo_main :: "socket_answers \<Rightarrow> (recv_result \<times> io_result list) list \<Rightarrow> (int \<times> echo_event list) option" where
  "echo_main ans turns =
     (let server_fd = ans_socket ans in
      if server_fd < 0 then Some (1, [ErrorShown ''socket''] @ echo_cleanup (-1) server_fd)
      else if ans_setsockopt ans < 0 then Some (1, [ErrorShown ''setsockopt''] @ echo_cleanup (-1) server_fd)
      else if ans_bind ans < 0 then Some (1, [ErrorShown ''bind''] @ echo_cleanup (-1) server_fd)
      else if ans_listen ans < 0 then Some (1, [ErrorShown ''listen''] @ echo_cleanup (-1) server_fd)
      else
        let listening = Shown ''server listening on 0.0.0.0:8888''; client_fd = ans_accept ans in
        if client_fd < 0 then Some (1, [listening, ErrorShown ''accept''] @ echo_cleanup client_fd server_fd)
        else
          (case echo_loop (replicate ECHO_BUFFER_SIZE (CHR 0x00)) turns of
             None \<Rightarrow> None
           | Some (status, es) \<Rightarrow>
               Some (status, [listening, Shown ''client connected''] @ es @ echo_cleanup client_fd server_fd)))"

section \<open>Lemmas\<close>

text \<open>
  What was received before the end, what was sent, and what the server reports of each \<^verbatim>\<open>recv\<close>.
\<close>

fun received :: "(recv_result \<times> io_result list) list \<Rightarrow> string" where
  "received [] = []"
| "received ((RecvBytes s, sends) # turns) = (if s = [] then [] else s @ received turns)"
| "received ((RecvError err, sends) # turns) = (if err = EINTR then received turns else [])"

text \<open>\<^verbatim>\<open>recv\<close> stores at most as many bytes as it is asked for.\<close>

definition recv_fits :: "(recv_result \<times> io_result list) list \<Rightarrow> bool" where
  "recv_fits turns \<longleftrightarrow>
     list_all (\<lambda>(r, sends). case r of RecvBytes s \<Rightarrow> length s \<le> ECHO_BUFFER_SIZE - 1 | RecvError err \<Rightarrow> True) turns"

fun sent_text :: "echo_event \<Rightarrow> string" where
  "sent_text (Sent s) = s"
| "sent_text _ = []"

definition sent_bytes :: "echo_event list \<Rightarrow> string" where
  "sent_bytes es = concat (map sent_text es)"

lemma sent_bytes_simps [simp]:
  "sent_bytes [] = []" "sent_bytes (e # es) = sent_text e @ sent_bytes es" "sent_bytes (es @ es') = sent_bytes es @ sent_bytes es'"
  by (simp_all add: sent_bytes_def)

lemma take_recv_into [simp]: "take (length s) (recv_into buffer s) = s"
  by (simp add: recv_into_def)

text \<open>
  The loop is that of \<^verbatim>\<open>write_uart\<close> on the first \<^verbatim>\<open>length\<close> bytes of the buffer, so the bytes it sends are
  theirs, from the first on.
\<close>

lemma send_loop_write:
  "send_loop (length data) t rs = map_option (\<lambda>(ok, calls). (if ok then 0 else -1, calls)) (write_loop data t rs)"
proof (induction rs arbitrary: t)
  case Nil
  then show ?case by (simp add: send_loop.simps [of _ _ "[]"] write_loop.simps [of _ _ "[]"])
next
  case (Cons r rs)
  obtain n err where r: "r = (n, err)" by fastforce
  show ?case
    unfolding r by (simp add: send_loop.simps [of _ _ "(n, err) # rs"] write_loop.simps [of _ _ "(n, err) # rs"] Cons.IH
        Let_def option.map_comp comp_def case_prod_unfold)
qed

lemma wire_bytes_take:
  assumes "calls_to_end (take len buffer) calls" and "len \<le> length buffer"
  shows "wire_bytes (take len buffer) calls = wire_bytes buffer calls"
proof -
  have "call_bytes (take len buffer) c = call_bytes buffer c" if "c \<in> set calls" for c
  proof -
    have "call_count c = len - call_offset c" using that assms by (auto simp: calls_to_end_def list_all_iff)
    then show ?thesis by (simp add: call_bytes_def drop_take)
  qed
  then show ?thesis unfolding wire_bytes_def by (metis map_eq_conv)
qed

lemma send_all_wire:
  assumes "send_all buffer len rs = Some (ret, sent)" and "len \<le> length buffer"
  shows "\<exists>n. sent = take n (take len buffer)" and "\<not> ret < 0 \<Longrightarrow> sent = take len buffer"
proof -
  let ?data = "take len buffer"
  have "send_loop len 0 rs = map_option (\<lambda>(ok, calls). (if ok then 0 else -1, calls)) (write_loop ?data 0 rs)"
    using send_loop_write [of ?data 0 rs] assms(2) by (simp add: min_absorb2)
  with assms(1) obtain ok calls where loop: "write_loop ?data 0 rs = Some (ok, calls)"
    and ret: "ret = (if ok then 0 else -1)" "sent = wire_bytes buffer calls"
    by (auto simp: send_all_def)
  from write_loop_wire [OF loop] obtain n where n: "calls_to_end ?data calls" "wire_bytes ?data calls = take n ?data"
    "ok \<longleftrightarrow> n = length ?data" by auto
  then have sent: "sent = take n ?data" using wire_bytes_take [OF _ assms(2)] ret(2) by simp
  then show "\<exists>n. sent = take n ?data" by blast
  show "sent = ?data" if "\<not> ret < 0" using that ret(1) n(3) sent assms(2) by (simp add: min_absorb2 split: if_splits)
qed

text \<open>The terminator is stored inside the buffer, and \<^verbatim>\<open>%s\<close> shows the bytes received and nothing older.\<close>

lemma recv_into_terminated:
  assumes "length s < length buffer"
  shows "length (recv_into buffer s) = length buffer" "recv_into buffer s ! length s = CHR 0x00"
    "c_str (recv_into buffer s) = c_str s"
proof -
  obtain x rest where rest: "drop (length s) buffer = x # rest" using assms by (cases "drop (length s) buffer") auto
  have into: "recv_into buffer s = s @ CHR 0x00 # rest" by (simp add: recv_into_def rest)
  have "length buffer = length s + Suc (length rest)" using arg_cong [OF rest, of length] assms by simp
  then show "length (recv_into buffer s) = length buffer" by (simp add: into)
  show "recv_into buffer s ! length s = CHR 0x00" by (simp add: into)
  show "c_str (recv_into buffer s) = c_str s" by (simp add: into c_str_def takeWhile_tail)
qed

text \<open>The turn that received data, by what \<^verbatim>\<open>send_all\<close> returned.\<close>

lemma echo_loop_data:
  assumes "echo_loop buffer ((RecvBytes s, sends) # turns) = Some (status, es)" and "s \<noteq> []"
  defines "shown \<equiv> Shown (''received '' @ to_string (length s) @ '' bytes: '' @ c_str (recv_into buffer s))"
  obtains (failed) n where "status = 1" "es = [shown, Sent (take n s), ErrorShown ''send'']"
  | (echoed) es' where "echo_loop (recv_into buffer s) turns = Some (status, es')" "es = [shown, Sent s] @ es'"
proof -
  from assms obtain ret sent where send: "send_all (recv_into buffer s) (length s) sends = Some (ret, sent)"
    by (auto simp: Let_def split: option.splits)
  have "length s \<le> length (recv_into buffer s)" by (simp add: recv_into_def)
  note wire = send_all_wire [OF send this]
  show thesis
  proof (cases "ret < 0")
    case True
    from wire(1) obtain n where "sent = take n s" by auto
    with True assms send show thesis by (intro failed [of n]) (auto simp: Let_def)
  next
    case False
    have "sent = s" using wire(2) [OF False] by simp
    with assms send False show thesis by (auto simp: Let_def intro: echoed split: option.splits)
  qed
qed

text \<open>An induction over the turns: each one fails, ends the loop or hands over to the next.\<close>

lemma echo_loop_induct [consumes 1, case_names over failed echoed again]:
  assumes "echo_loop buffer turns = Some (status, es)"
    and "\<And>buffer sends turns. P buffer ((RecvBytes [], sends) # turns) 0 [Shown ''client closed the connection'']"
    and "\<And>buffer s sends turns sent. s \<noteq> [] \<Longrightarrow> P buffer ((RecvBytes s, sends) # turns) 1
      [Shown (''received '' @ to_string (length s) @ '' bytes: '' @ c_str (recv_into buffer s)), Sent (take sent s), ErrorShown ''send'']"
    and "\<And>buffer s sends turns status es. s \<noteq> [] \<Longrightarrow> P (recv_into buffer s) turns status es \<Longrightarrow>
      P buffer ((RecvBytes s, sends) # turns) status
        ([Shown (''received '' @ to_string (length s) @ '' bytes: '' @ c_str (recv_into buffer s)), Sent s] @ es)"
    and "\<And>buffer err sends turns status es. if err = EINTR then P buffer turns status es else status = 1 \<and> es = [ErrorShown ''recv''] \<Longrightarrow>
      P buffer ((RecvError err, sends) # turns) status es"
  shows "P buffer turns status es"
  using assms(1)
proof (induction turns arbitrary: buffer es)
  case (Cons turn turns)
  obtain r sends where turn: "turn = (r, sends)" by fastforce
  show ?case
  proof (cases r)
    case (RecvError err)
    with Cons turn have "if err = EINTR then P buffer turns status es else status = 1 \<and> es = [ErrorShown ''recv'']"
      by (auto split: if_splits)
    with turn RecvError show ?thesis by (simp only: assms(5))
  next
    case (RecvBytes s)
    show ?thesis
    proof (cases "s = []")
      case True
      with Cons.prems turn RecvBytes assms(2) show ?thesis by auto
    next
      case False
      from Cons.prems [unfolded turn RecvBytes] False show ?thesis
        by (cases rule: echo_loop_data) (simp_all only: turn RecvBytes assms(3,4) False Cons.IH not_False_eq_True)
    qed
  qed
qed simp

lemma echo_loop_sends:
  "echo_loop buffer turns = Some (status, es) \<Longrightarrow>
     status \<in> {0, 1} \<and> (\<exists>rest. received turns = sent_bytes es @ rest) \<and> (status = 0 \<longrightarrow> sent_bytes es = received turns) \<and>
     (\<forall>fd. ClosedFd fd \<notin> set es)"
proof (induction rule: echo_loop_induct)
  case (failed buffer s sends turns sent)
  have "s @ received turns = take sent s @ (drop sent s @ received turns)" by simp
  then have "\<exists>rest. s @ received turns = take sent s @ rest" by (rule exI)
  with failed show ?case by simp
qed (auto split: if_splits)

text \<open>What is shown of each \<^verbatim>\<open>recv\<close>: the bytes before the first null character among them.\<close>

lemma echo_loop_shows:
  "echo_loop buffer turns = Some (status, es) \<Longrightarrow> recv_fits turns \<Longrightarrow> length buffer = ECHO_BUFFER_SIZE \<Longrightarrow> Shown t \<in> set es \<Longrightarrow>
     t = ''client closed the connection'' \<or>
     (\<exists>s sends. (RecvBytes s, sends) \<in> set turns \<and> t = ''received '' @ to_string (length s) @ '' bytes: '' @ c_str s)"
proof (induction rule: echo_loop_induct)
  case (over buffer sends turns)
  then have "t = ''client closed the connection''" by simp
  then show ?case by (rule disjI1)
next
  case (failed buffer s sends turns sent)
  then have "length s < length buffer" by (simp add: recv_fits_def ECHO_BUFFER_SIZE_def)
  with failed have "t = ''received '' @ to_string (length s) @ '' bytes: '' @ c_str s" by (simp add: recv_into_terminated)
  then show ?case by (metis list.set_intros(1))
next
  case (echoed buffer s sends turns status es)
  then have short: "length s < length buffer" "recv_fits turns" by (simp_all add: recv_fits_def ECHO_BUFFER_SIZE_def)
  with echoed consider "t = ''received '' @ to_string (length s) @ '' bytes: '' @ c_str s" | "Shown t \<in> set es"
    by (auto simp: recv_into_terminated)
  then show ?case using echoed short recv_into_terminated(1) [OF short(1)] by cases (metis list.set_intros)+
next
  case (again buffer err sends turns status es)
  then show ?case by (auto simp: recv_fits_def split: if_splits)
qed

section \<open>Properties\<close>

text \<open>
  Claim C35. The server sends back what it receives: whatever the calls return, short sends and
  interrupted calls included, the bytes the calls of \<^verbatim>\<open>send\<close> took from the buffer are, one after another, an
  initial part of what was received; when the server ends with status 0, after the
  client closed the connection, everything received was sent back; on every path, failures included,
  each descriptor that was opened is closed exactly once, the client's first, and nothing happens
  after that. When each \<^verbatim>\<open>recv\<close> stores at most the 255 bytes it is asked for, a report of received bytes
  shows those bytes of one \<^verbatim>\<open>recv\<close> and nothing that an earlier one left in the buffer.
\<close>

theorem echo_server_echoes:
  assumes "echo_main ans turns = Some (status, es)"
  shows "status \<in> {0, 1} \<and> (\<exists>rest. received turns = sent_bytes es @ rest) \<and>
    (status = 0 \<longrightarrow> sent_bytes es = received turns) \<and>
    (let server = ans_socket ans;
         accepted = (0 \<le> server \<and> 0 \<le> ans_setsockopt ans \<and> 0 \<le> ans_bind ans \<and> 0 \<le> ans_listen ans \<and> 0 \<le> ans_accept ans);
         closes = (if accepted then [ClosedFd (ans_accept ans)] else []) @ (if 0 \<le> server then [ClosedFd server] else [])
     in filter (\<lambda>e. \<exists>fd. e = ClosedFd fd) es = closes \<and> (\<exists>es'. es = es' @ closes)) \<and>
    (recv_fits turns \<longrightarrow> (\<forall>t. Shown (''received '' @ t) \<in> set es \<longrightarrow>
       (\<exists>s sends. (RecvBytes s, sends) \<in> set turns \<and> t = to_string (length s) @ '' bytes: '' @ c_str s)))"
proof (cases "0 \<le> ans_socket ans \<and> 0 \<le> ans_setsockopt ans \<and> 0 \<le> ans_bind ans \<and> 0 \<le> ans_listen ans \<and> 0 \<le> ans_accept ans")
  case True
  with assms obtain es' where loop: "echo_loop (replicate ECHO_BUFFER_SIZE (CHR 0x00)) turns = Some (status, es')"
    and es: "es = ([Shown ''server listening on 0.0.0.0:8888'', Shown ''client connected''] @ es') @
      [ClosedFd (ans_accept ans), ClosedFd (ans_socket ans)]"
    by (auto simp: echo_main_def Let_def echo_cleanup_def split: option.splits if_splits)
  from echo_loop_sends [OF loop] have "filter (\<lambda>e. \<exists>fd. e = ClosedFd fd) es' = []" by (auto simp: filter_empty_conv)
  moreover have "\<exists>s sends. (RecvBytes s, sends) \<in> set turns \<and> t = to_string (length s) @ '' bytes: '' @ c_str s"
    if "recv_fits turns" "Shown (''received '' @ t) \<in> set es" for t
    using echo_loop_shows [OF loop that(1), of "''received '' @ t"] that(2) es by auto
  ultimately show ?thesis using echo_loop_sends [OF loop] True es by (auto simp: Let_def)
next
  case False
  with assms obtain pre where "status = 1" "es = pre @ (if 0 \<le> ans_socket ans then [ClosedFd (ans_socket ans)] else [])"
    "sent_bytes pre = []" "filter (\<lambda>e. \<exists>fd. e = ClosedFd fd) pre = []" "\<forall>t. Shown (''received '' @ t) \<notin> set pre"
    by (auto simp: echo_main_def Let_def echo_cleanup_def split: if_splits)
  with False show ?thesis by (auto simp: Let_def)
qed

theorem echo_server_echoes_witness:
  "\<exists>es. echo_main \<lparr>ans_socket = 3, ans_setsockopt = 0, ans_bind = 0, ans_listen = 0, ans_accept = 4\<rparr>
       [(RecvBytes ''hello'', [(2, EINTR), (-1, EINTR), (3, EINTR)]), (RecvError EINTR, []), (RecvBytes [], [])] = Some (0, es) \<and>
     sent_bytes es = ''hello''"
proof -
  let ?ans = "\<lparr>ans_socket = 3, ans_setsockopt = 0, ans_bind = 0, ans_listen = 0, ans_accept = 4\<rparr>"
  let ?turns = "[(RecvBytes ''hello'', [(2, EINTR), (-1, EINTR), (3, EINTR)]), (RecvError EINTR, []), (RecvBytes [], [])]"
  have "map_option fst (echo_main ?ans ?turns) = Some 0" by code_simp
  then obtain es where es: "echo_main ?ans ?turns = Some (0, es)" by auto
  with echo_server_echoes [OF es] have "sent_bytes es = received ?turns" by simp
  with es show ?thesis by simp
qed

end
