(* ===== verification/Small_Demos.thy ===== *)
theory Small_Demos
  imports Serial_Frame Protocol_Parser Log_Manager C_Text
begin

text \<open>
  Three programs that join the components: \<^verbatim>\<open>serial_frame_demo/demo/main.cpp\<close> (text commands to frames
  and back, a corrupted frame, a stream in two chunks), \<^verbatim>\<open>integration_demo/main.cpp\<close> (the parser and the
  logger) and \<^verbatim>\<open>lambda_algorithm_demo/main.cpp\<close> (the algorithms of the library over a vector of records).
  The vector each of them starts with is an argument, so that what is proved holds for every vector;
  the output is the list of lines printed.
\<close>

text \<open>\<^verbatim>\<open>boolalpha\<close>.\<close>

definition bool_text :: "bool \<Rightarrow> string" where
  "bool_text b = (if b then ''true'' else ''false'')"

section \<open>The frame demonstration\<close>

text \<open>\<^verbatim>\<open>toWireCommand\<close>: the flag returned and the output argument after the call.\<close>

fun toWireCommand :: "Command \<Rightarrow> WireCommand \<Rightarrow> bool \<times> WireCommand" where
  "toWireCommand Open wireCommand = (True, WireCommand_Open)"
| "toWireCommand Grab wireCommand = (True, WireCommand_Grab)"
| "toWireCommand Release wireCommand = (True, WireCommand_Release)"
| "toWireCommand Stop wireCommand = (True, WireCommand_Stop)"
| "toWireCommand Unknown wireCommand = (False, wireCommand)"

definition frame_text :: "Frame \<Rightarrow> string" where
  "frame_text frame = to_string (unat (frame_sequence frame)) @ '' command='' @ commandToString (frame_command frame)"

text \<open>
  The loop over the inputs: the encoded frames and the lines. The value of \<^verbatim>\<open>wireCommand\<close> before the call
  is never used, and is the byte zero here.
\<close>

fun encode_inputs :: "string list \<Rightarrow> u16 \<Rightarrow> u8 list list \<times> string list" where
  "encode_inputs [] sequence = ([], [])"
| "encode_inputs (input # inputs) sequence =
     (let sequence = sequence + 1;
          command = parse new_ProtocolParser input in
      case toWireCommand command 0 of (ok, wireCommand) \<Rightarrow>
        if \<not> ok then encode_inputs inputs sequence
        else
          let frame = \<lparr>frame_sequence = sequence, frame_command = wireCommand\<rparr>;
              bytes = encode frame;
              encoded = ''[ENCODE] seq='' @ to_string (unat sequence) @ '' command='' @ input @ '' bytes='' @ toHex bytes
          in case decode bytes default_Frame of (success, decodedFrame, err) \<Rightarrow>
            let decoded = (if success then [''[DECODE] seq='' @ frame_text decodedFrame] else []);
                (frames, out) = encode_inputs inputs sequence
            in (bytes # frames, [encoded] @ decoded @ out))"

definition checksum_test :: "u8 list list \<Rightarrow> string list" where
  "checksum_test encodedFrames =
     (if encodedFrames \<noteq> []
      then let front = encodedFrames ! 0;
               corrupted = front[5 := (front ! 5) XOR 0x01];
               (success, frame, err) = decode corrupted default_Frame
           in [''[CHECKSUM_TEST] success='' @ bool_text success @ '' error='' @ errorToString err]
      else [])"

definition stream_test :: "u8 list list \<Rightarrow> string list" where
  "stream_test encodedFrames =
     (if length encodedFrames \<ge> 2
      then let stream = [0x00, 0x7E] @ encodedFrames ! 0 @ encodedFrames ! 1;
               splitPosition = 6;
               chunk1 = take splitPosition stream;
               chunk2 = drop splitPosition stream;
               (firstBatch, streamParser) = extractFrames (append_bytes chunk1 new_StreamParser);
               (secondBatch, streamParser) = extractFrames (append_bytes chunk2 streamParser)
           in [''[STREAM] first_chunk_frames='' @ to_string (length firstBatch),
               ''[STREAM] second_chunk_frames='' @ to_string (length secondBatch)] @
              map (\<lambda>frame. ''[STREAM_FRAME] seq='' @ frame_text frame) secondBatch
      else [])"

definition serial_frame_main :: "string list \<Rightarrow> int \<times> string list" where
  "serial_frame_main inputs =
     (let (encodedFrames, out) = encode_inputs inputs 0
      in (0, out @ checksum_test encodedFrames @ stream_test encodedFrames))"

definition sfd_inputs :: "string list" where
  "sfd_inputs = [''OPEN'', ''GRAB'', ''STOP'', ''RELEASE'']"

section \<open>The integration demonstration\<close>

text \<open>One turn of the loop over the inputs.\<close>

definition integration_turn :: "ProtocolParser \<Rightarrow> string \<Rightarrow> LogManager \<Rightarrow> LogManager" where
  "integration_turn parser rawInput logger =
     (let command = parse parser rawInput in
      if \<not> isValid command then log Warning ''Rejected invalid command'' logger
      else let commandName = parserCommandToString command;
               executorCommand = toExecutorCommand command
           in log Info (''Accepted command '' @ commandName @ ''->'' @ executorCommand) logger)"

definition integration_main :: "bool \<Rightarrow> string list \<Rightarrow> int \<times> string list" where
  "integration_main opens testInputs =
     (let logger = setMaxCachedLogs 5 (setAutoFlush True (setConsoleEnabled True
            (new_LogManager ''gateway_cpp_demo.log'' opens []))) in
      if \<not> isFileOpen logger
      then (1, console (delete_LogManager (print ''[ERROR]Logger initialization failed'' logger)))
      else
        let logger = fold (integration_turn new_ProtocolParser) testInputs logger;
            counts = [''[INFO]Log statistics:'',
              ''INFO:'' @ to_string (unat (getLogCount Info logger)),
              ''WARNING:'' @ to_string (unat (getLogCount Warning logger)),
              ''ERROR:'' @ to_string (unat (getLogCount Error logger))];
            recent = [''[INFO]Recent cached logs:''] @ map (\<lambda>line. '' '' @ line) (getRecentLogs logger)
        in (0, console (delete_LogManager (fold print (counts @ recent) logger))))"

definition integration_inputs :: "string list" where
  "integration_inputs =
     [''OPEN'', ''grab'' @ [CHR 0x0D, CHR 0x0A], ''JUMP'', [CHR 0x09] @ ''STOP'' @ [CHR 0x09]]"

section \<open>The algorithms demonstration\<close>

record CommandRecord =
  rec_sequence :: int
  rec_command :: string
  accepted :: bool

definition normalizeCommand :: "string \<Rightarrow> string" where
  "normalizeCommand command = map toupper command"

text \<open>Both \<^verbatim>\<open>for_each\<close> calls; the second one adds to the counter it captures by reference.\<close>

definition normalize_records :: "CommandRecord list \<Rightarrow> CommandRecord list" where
  "normalize_records records = map (\<lambda>r. r\<lparr>rec_command := normalizeCommand (rec_command r)\<rparr>) records"

definition count_accepted :: "CommandRecord list \<Rightarrow> nat" where
  "count_accepted records = fold (\<lambda>r acceptedCount. if accepted r then acceptedCount + 1 else acceptedCount) records 0"

definition record_line :: "CommandRecord \<Rightarrow> string" where
  "record_line r =
     ''seq='' @ int_to_string (rec_sequence r) @ '' command='' @ rec_command r @ '' accepted='' @ bool_text (accepted r)"

definition lambda_main :: "CommandRecord list \<Rightarrow> string list" where
  "lambda_main records =
     (let records = normalize_records records;
          stopIterator = find (\<lambda>r. rec_command r = ''STOP'') records;
          rejectedCount = length (filter (\<lambda>r. \<not> accepted r) records);
          minimumSequence = 4;
          laterCommandCount = length (filter (\<lambda>r. rec_sequence r \<ge> minimumSequence) records);
          acceptedCount = count_accepted records
      in [''===== NORMALIZE =====''] @ map record_line records @
         ['''', ''===== FIND STOP =====''] @
         (case stopIterator of None \<Rightarrow> [] | Some r \<Rightarrow> [''found STOP, seq='' @ int_to_string (rec_sequence r)]) @
         ['''', ''===== COUNT REJECTED ====='', ''rejected='' @ to_string rejectedCount,
          '''', ''===== THRESHOLD CAPTURE ====='',
          ''sequence >= '' @ int_to_string minimumSequence @ '': '' @ to_string laterCommandCount,
          '''', ''===== REFERENCE CAPTURE ====='', ''accepted='' @ to_string acceptedCount])"

definition lambda_records :: "CommandRecord list" where
  "lambda_records =
     [\<lparr>rec_sequence = 1, rec_command = ''open'', accepted = True\<rparr>,
      \<lparr>rec_sequence = 2, rec_command = ''Grab'', accepted = True\<rparr>,
      \<lparr>rec_sequence = 3, rec_command = ''jump'', accepted = False\<rparr>,
      \<lparr>rec_sequence = 4, rec_command = ''stop'', accepted = True\<rparr>,
      \<lparr>rec_sequence = 5, rec_command = ''release'', accepted = True\<rparr>,
      \<lparr>rec_sequence = 6, rec_command = ''JUMP'', accepted = False\<rparr>]"

section \<open>Lemmas\<close>

subsection \<open>Frames\<close>

text \<open>The inputs that name a command, with their numbers and their wire commands.\<close>

definition wire_of :: "string \<Rightarrow> WireCommand option" where
  "wire_of input = (case toWireCommand (parse new_ProtocolParser input) 0 of (ok, w) \<Rightarrow> if ok then Some w else None)"

fun named_frames :: "string list \<Rightarrow> u16 \<Rightarrow> (string \<times> Frame) list" where
  "named_frames [] sequence = []"
| "named_frames (input # inputs) sequence =
     (case wire_of input of None \<Rightarrow> [] | Some w \<Rightarrow> [(input, \<lparr>frame_sequence = sequence + 1, frame_command = w\<rparr>)]) @
     named_frames inputs (sequence + 1)"

lemma wire_of_known: "wire_of input = Some w \<Longrightarrow> isKnownCommand w"
  by (cases "parse new_ProtocolParser input") (auto simp: wire_of_def isKnownCommand_def)

lemma named_frames_known: "(input, f) \<in> set (named_frames inputs sequence) \<Longrightarrow> known_frame f"
  by (induction inputs sequence rule: named_frames.induct)
    (auto simp: wire_of_known split: option.splits)

definition frame_lines :: "string \<times> Frame \<Rightarrow> string list" where
  "frame_lines = (\<lambda>(input, f).
     [''[ENCODE] seq='' @ to_string (unat (frame_sequence f)) @ '' command='' @ input @ '' bytes='' @ toHex (encode f),
      ''[DECODE] seq='' @ frame_text f])"

lemma encode_inputs_named:
  "encode_inputs inputs sequence =
     (map (encode \<circ> snd) (named_frames inputs sequence), concat (map frame_lines (named_frames inputs sequence)))"
proof (induction inputs arbitrary: sequence)
  case (Cons input inputs)
  show ?case
  proof (cases "wire_of input")
    case None
    then show ?thesis by (auto simp: Cons.IH wire_of_def Let_def split: prod.splits if_splits)
  next
    case (Some w)
    then have "toWireCommand (parse new_ProtocolParser input) 0 = (True, w)"
      by (auto simp: wire_of_def split: prod.splits if_splits)
    moreover have "known_frame \<lparr>frame_sequence = sequence + 1, frame_command = w\<rparr>"
      using wire_of_known [OF Some] by simp
    ultimately show ?thesis using Some
      by (simp add: Cons.IH Let_def decode_encode frame_lines_def)
  qed
qed simp


lemma checksum_test_known:
  assumes "known_frame f"
  shows "checksum_test (encode f # frames) = [''[CHECKSUM_TEST] success=false error=CHECKSUM_MISMATCH'']"
proof -
  have "decode ((encode f)[5 := (encode f ! 5) XOR 0x01]) default_Frame = (False, default_Frame, ChecksumMismatch)"
    by (simp add: encode_bytes decode_9 frame_checksum_def xor_left_cancel xor_right_cancel xor.assoc)
      (metis xor_left_cancel xor.right_neutral zero_neq_one)
  then show ?thesis by (simp add: checksum_test_def Let_def bool_text_def)
qed

text \<open>The first chunk ends inside the first frame; the second one completes both.\<close>

lemma scan_start: "scan [0x00, 0x7E, 0xAA, 0x55, 3, b] = ([], [0xAA, 0x55, 3, b])"
proof -
  have none: "decode_frame bs = None" if "length bs < 9" for bs
    using that by (cases "decode_frame bs") (auto simp: decode_frame_Some)
  show ?thesis
    by (simp add: scan_drop starts_like_frame_nth serial_consts)
      (simp add: scan.simps(2) none starts_like_frame_nth serial_consts)
qed

lemma stream_test_known:
  assumes "known_frame f1" and "known_frame f2"
  shows "stream_test (encode f1 # encode f2 # frames) =
    [''[STREAM] first_chunk_frames=0'', ''[STREAM] second_chunk_frames=2'',
     ''[STREAM_FRAME] seq='' @ frame_text f1, ''[STREAM_FRAME] seq='' @ frame_text f2]"
proof -
  define stream where "stream = [0x00, 0x7E] @ encode f1 @ encode f2"
  obtain fs p where one: "extractFrames (append_bytes (take 6 stream) new_StreamParser) = (fs, p)" by fastforce
  obtain gs p' where two: "extractFrames (append_bytes (drop 6 stream) p) = (gs, p')" by fastforce
  have "fs = fst (scan (take 6 stream))" using extractFrames_new [of "take 6 stream"] one by simp
  also have "\<dots> = []" by (simp add: stream_def encode_bytes scan_start)
  finally have fs: "fs = []" .
  have "fst (feed_chunks new_StreamParser [take 6 stream, drop 6 stream]) = fst (scan stream)"
    by (simp only: feed_chunks_new concat.simps append_take_drop_id append_Nil2)
  also have "fst (scan stream) = [f1, f2]"
    using assms scan_noisy_stream [of "[([0x00, 0x7E], f1), ([], f2)]" "[]"]
    by (simp add: stream_def noisy_stream_def kHeader1_def)
  finally have "gs = [f1, f2]" using one two fs by simp
  moreover have "to_string 0 = ''0''" "to_string 2 = ''2''" by code_simp+
  ultimately have "(case extractFrames (append_bytes (take 6 stream) new_StreamParser) of (fs, p) \<Rightarrow>
      case extractFrames (append_bytes (drop 6 stream) p) of (gs, q) \<Rightarrow>
        [''[STREAM] first_chunk_frames='' @ to_string (length fs), ''[STREAM] second_chunk_frames='' @ to_string (length gs)] @
        map (\<lambda>frame. ''[STREAM_FRAME] seq='' @ frame_text frame) gs) =
    [''[STREAM] first_chunk_frames=0'', ''[STREAM] second_chunk_frames=2'',
     ''[STREAM_FRAME] seq='' @ frame_text f1, ''[STREAM_FRAME] seq='' @ frame_text f2]"
    using one two fs by (simp add: numeral_2_eq_2 del: append_take_drop_id)
  then show ?thesis unfolding stream_test_def Let_def stream_def by simp
qed

subsection \<open>Parser and logger\<close>

text \<open>The level and the message that an input gives.\<close>

definition integration_log :: "string \<Rightarrow> LogLevel \<times> string" where
  "integration_log rawInput =
     (let command = parse new_ProtocolParser rawInput in
      if isValid command then (Info, ''Accepted command '' @ parserCommandToString command @ ''->'' @ toExecutorCommand command)
      else (Warning, ''Rejected invalid command''))"

lemma integration_turns:
  "fold (integration_turn new_ProtocolParser) inputs logger =
     log_run (map (\<lambda>(level, msg). Log level msg) (map integration_log inputs)) logger"
  by (induction inputs arbitrary: logger) (simp_all add: integration_turn_def integration_log_def Let_def)

definition valid_input :: "string \<Rightarrow> bool" where
  "valid_input rawInput = isValid (parse new_ProtocolParser rawInput)"

lemma integration_level: "fst (integration_log input) = (if valid_input input then Info else Warning)"
  by (simp add: integration_log_def valid_input_def Let_def)

lemma integration_counts:
  "logged_since_reset level (map (\<lambda>(level, msg). Log level msg) (map integration_log inputs)) =
     length (filter (\<lambda>input. fst (integration_log input) = level) inputs)"
proof -
  let ?ops = "map (\<lambda>(level, msg). Log level msg) (map integration_log inputs)"
  have "takeWhile (\<lambda>op. op \<noteq> ResetLogCounts) (rev ?ops) = rev ?ops" by (auto simp: takeWhile_eq_all_conv split: prod.splits)
  then have "logged_since_reset level ?ops = length (filter (is_log level) ?ops)"
    unfolding logged_since_reset_def by (simp only: rev_filter [symmetric] length_rev)
  also have "\<dots> = length (filter (\<lambda>input. fst (integration_log input) = level) inputs)"
    by (auto simp: filter_map comp_def case_prod_unfold intro!: arg_cong [where f = length] filter_cong)
  finally show ?thesis .
qed

text \<open>The logger after the loop, member by member.\<close>

abbreviation integration_logger :: "string list \<Rightarrow> LogManager" where
  "integration_logger inputs \<equiv> fold (integration_turn new_ProtocolParser) inputs
     (setMaxCachedLogs 5 (setAutoFlush True (setConsoleEnabled True (new_LogManager ''gateway_cpp_demo.log'' True []))))"

definition integration_lines :: "string list \<Rightarrow> string list" where
  "integration_lines inputs = map (\<lambda>(level, msg). log_line level msg) (map integration_log inputs)"

lemma integration_logger_members:
  "consoleEnabled (integration_logger inputs)" "filePath (integration_logger inputs) = ''gateway_cpp_demo.log''"
  "console (integration_logger inputs) = [''[INFO] Log file opened: gateway_cpp_demo.log''] @ integration_lines inputs"
  "recentLogs (integration_logger inputs) = drop (length (integration_lines inputs) - 5) (integration_lines inputs)"
  "getLogCount level (integration_logger inputs) =
     of_nat (length (filter (\<lambda>input. fst (integration_log input) = level) inputs))"
proof -
  let ?fresh = "setMaxCachedLogs 5 (setAutoFlush True (setConsoleEnabled True
      (new_LogManager ''gateway_cpp_demo.log'' True [])))"
  have fresh: "consoleEnabled ?fresh" "maxCachedLogs ?fresh = 5" "recentLogs ?fresh = []"
    "filePath ?fresh = ''gateway_cpp_demo.log''"
    "console ?fresh = [''[INFO] Log file opened: gateway_cpp_demo.log'']"
    by (simp_all add: other_ops new_LogManager_def)
  show "consoleEnabled (integration_logger inputs)" "filePath (integration_logger inputs) = ''gateway_cpp_demo.log''"
    "console (integration_logger inputs) = [''[INFO] Log file opened: gateway_cpp_demo.log''] @ integration_lines inputs"
    using console_logs [of ?fresh "map integration_log inputs"] fresh
    unfolding integration_turns integration_lines_def by simp_all
  show "recentLogs (integration_logger inputs) = drop (length (integration_lines inputs) - 5) (integration_lines inputs)"
    using window_run [of ?fresh 5 "map integration_log inputs"] fresh
    unfolding integration_turns integration_lines_def by (simp add: Let_def)
  have "logCounts ?fresh = logCounts (new_LogManager [] True [])" by (simp add: other_ops new_LogManager_def)
  then show "getLogCount level (integration_logger inputs) =
     of_nat (length (filter (\<lambda>input. fst (integration_log input) = level) inputs))"
    unfolding integration_turns integration_counts [symmetric]
    using new_LogManager_counts [where path = "[]" and opens = True and disk = "[]"]
    by (intro count_run) (simp_all add: getLogCount_def)
qed

lemma console_prints: "console (fold print ls m) = console m @ ls" "consoleEnabled (fold print ls m) = consoleEnabled m"
  "filePath (fold print ls m) = filePath m"
  by (induction ls arbitrary: m) simp_all

subsection \<open>Records\<close>

lemma count_accepted_filter: "count_accepted records = length (filter accepted records)"
proof -
  have "fold (\<lambda>r acceptedCount. if accepted r then acceptedCount + 1 else acceptedCount) records n =
      n + length (filter accepted records)" for n
    by (induction records arbitrary: n) auto
  then show ?thesis by (simp add: count_accepted_def)
qed

lemma toupper_idem: "toupper (toupper c) = toupper c"
  by (auto simp: toupper_def)

text \<open>\<^verbatim>\<open>find_if\<close> gives the first element that satisfies the predicate.\<close>

lemma find_first:
  assumes "find P xs = Some x"
  obtains before after where "xs = before @ x # after" "P x" "\<nexists>y. y \<in> set before \<and> P y"
proof -
  from assms obtain i where i: "i < length xs" "P (xs ! i)" "x = xs ! i" "\<forall>j<i. \<not> P (xs ! j)"
    by (auto simp: find_Some_iff)
  then have "xs = take i xs @ x # drop (Suc i) xs" by (simp add: id_take_nth_drop [symmetric])
  moreover have "\<nexists>y. y \<in> set (take i xs) \<and> P y" using i by (auto simp: in_set_conv_nth)
  ultimately show thesis using that i(2,3) by simp
qed

section \<open>Properties\<close>

text \<open>
  The frame demonstration, for every vector of inputs: each input that names a command is
  encoded under its number, the count of all inputs so far modulo \<open>2 ^ 16\<close>, and the frame decoded from
  the bytes is the frame encoded; the corrupted copy of the first frame is rejected with a checksum
  error; of the stream of noise and two frames the first chunk gives no frame and the second gives
  both, in order. The program returns 0.
\<close>

theorem serial_frame_demo_result:
  "serial_frame_main inputs =
    (let named = named_frames inputs 0 in
     (0, concat (map frame_lines named) @
         (if named = [] then [] else [''[CHECKSUM_TEST] success=false error=CHECKSUM_MISMATCH'']) @
         (if length named < 2 then []
          else [''[STREAM] first_chunk_frames=0'', ''[STREAM] second_chunk_frames=2''] @
               map (\<lambda>(input, f). ''[STREAM_FRAME] seq='' @ frame_text f) (take 2 named))))"
proof -
  let ?named = "named_frames inputs 0"
  have known: "known_frame (snd it)" if "it \<in> set ?named" for it
    using that named_frames_known [of "fst it" "snd it"] by simp
  consider "?named = []" | a where "?named = [a]" | a b rest where "?named = a # b # rest"
    by (metis list.exhaust)
  then show ?thesis
  proof cases
    case 1
    then show ?thesis by (simp add: serial_frame_main_def encode_inputs_named checksum_test_def stream_test_def)
  next
    case (2 a)
    with known [of a] show ?thesis
      by (simp add: serial_frame_main_def encode_inputs_named checksum_test_known stream_test_def)
  next
    case (3 a b rest)
    with known [of a] known [of b] show ?thesis
      by (simp add: serial_frame_main_def encode_inputs_named checksum_test_known stream_test_known case_prod_unfold)
  qed
qed

text \<open>
  Claim C39. The integration demonstration, for every vector of inputs: one line is logged per input, in
  order, at the level INFO where the input names a command and WARNING where it does not; the counts
  reported are the numbers of the two kinds of inputs (of \<open>2 ^ 64\<close> at most), the recent lines reported are
  the last five lines logged, and the program returns 0. Where the file cannot be opened it logs
  nothing and returns 1.
\<close>

theorem integration_demo_result:
  "integration_main True inputs =
    (let lines = integration_lines inputs;
         valid = length (filter valid_input inputs)
     in (0, [''[INFO] Log file opened: gateway_cpp_demo.log''] @ lines @
            [''[INFO]Log statistics:'', ''INFO:'' @ to_string (valid mod 2 ^ 64),
             ''WARNING:'' @ to_string ((length inputs - valid) mod 2 ^ 64), ''ERROR:0'',
             ''[INFO]Recent cached logs:''] @
            map (\<lambda>line. '' '' @ line) (drop (length lines - 5) lines) @
            [''[INFO] Log file closed: gateway_cpp_demo.log''])) \<and>
   integration_main False inputs =
     (1, [''[ERROR] Failed to open log file: gateway_cpp_demo.log'', ''[ERROR]Logger initialization failed'',
          ''[INFO] Log file closed: gateway_cpp_demo.log''])"
proof -
  have rejected: "length (filter (\<lambda>x. \<not> valid_input x) inputs) = length inputs - length (filter valid_input inputs)"
    using sum_length_filter_compl [of valid_input inputs] by simp
  have "isFileOpen (setMaxCachedLogs 5 (setAutoFlush True (setConsoleEnabled True
      (new_LogManager ''gateway_cpp_demo.log'' True []))))" by (simp add: isFileOpen_def other_ops new_LogManager_def)
  then have "integration_main True inputs =
    (0, [''[INFO] Log file opened: gateway_cpp_demo.log''] @ integration_lines inputs @
        [''[INFO]Log statistics:'', ''INFO:'' @ to_string (length (filter valid_input inputs) mod 2 ^ 64),
         ''WARNING:'' @ to_string ((length inputs - length (filter valid_input inputs)) mod 2 ^ 64), ''ERROR:0'',
         ''[INFO]Recent cached logs:''] @
        map (\<lambda>line. '' '' @ line) (drop (length (integration_lines inputs) - 5) (integration_lines inputs)) @
        [''[INFO] Log file closed: gateway_cpp_demo.log''])"
    unfolding integration_main_def Let_def
    by (simp add: console_prints integration_logger_members getRecentLogs_def integration_level rejected
        unat_of_nat to_string_demo)
  moreover have "integration_main False inputs =
     (1, [''[ERROR] Failed to open log file: gateway_cpp_demo.log'', ''[ERROR]Logger initialization failed'',
          ''[INFO] Log file closed: gateway_cpp_demo.log''])"
    by (simp add: integration_main_def isFileOpen_def other_ops new_LogManager_def Let_def)
  ultimately show ?thesis by (simp add: Let_def)
qed

text \<open>
  The algorithms demonstration, for every vector of records: the commands printed are the
  given ones in capitals, with the numbers and the flags as they were; the record found is the first
  one whose command is STOP in any mixture of cases; and the rejected and the accepted records counted
  are all the records.
\<close>

theorem lambda_demo_result:
  "\<exists>stop rejected later acc.
     lambda_main records =
       [''===== NORMALIZE =====''] @
       map (\<lambda>r. ''seq='' @ int_to_string (rec_sequence r) @ '' command='' @ map toupper (rec_command r) @
              '' accepted='' @ bool_text (accepted r)) records @
       ['''', ''===== FIND STOP =====''] @ stop @
       ['''', ''===== COUNT REJECTED ====='', ''rejected='' @ to_string rejected,
        '''', ''===== THRESHOLD CAPTURE ====='', ''sequence >= 4: '' @ to_string later,
        '''', ''===== REFERENCE CAPTURE ====='', ''accepted='' @ to_string acc] \<and>
     acc = length (filter accepted records) \<and> rejected + acc = length records \<and>
     later = length (filter (\<lambda>r. 4 \<le> rec_sequence r) records) \<and>
     (stop = [] \<and> (\<nexists>r. r \<in> set records \<and> map toupper (rec_command r) = ''STOP'') \<or>
      (\<exists>before r after. records = before @ r # after \<and> map toupper (rec_command r) = ''STOP'' \<and>
         (\<nexists>r'. r' \<in> set before \<and> map toupper (rec_command r') = ''STOP'') \<and>
         stop = [''found STOP, seq='' @ int_to_string (rec_sequence r)]))"
proof -
  let ?stop = "\<lambda>r. map toupper (rec_command r) = ''STOP''"
  have found: "find (\<lambda>r. rec_command r = ''STOP'') (normalize_records records) =
      map_option (\<lambda>r. r\<lparr>rec_command := normalizeCommand (rec_command r)\<rparr>) (find ?stop records)"
    by (induction records) (auto simp: normalize_records_def normalizeCommand_def)
  have four: "int_to_string 4 = ''4''" by code_simp
  have lengths: "length (filter (\<lambda>r. \<not> accepted r) records) + length (filter accepted records) = length records"
    using sum_length_filter_compl [of accepted records] by simp
  define stop where "stop = (case find ?stop records of None \<Rightarrow> [] | Some r \<Rightarrow> [''found STOP, seq='' @ int_to_string (rec_sequence r)])"
  have main: "lambda_main records =
       [''===== NORMALIZE =====''] @
       map (\<lambda>r. ''seq='' @ int_to_string (rec_sequence r) @ '' command='' @ map toupper (rec_command r) @
              '' accepted='' @ bool_text (accepted r)) records @
       ['''', ''===== FIND STOP =====''] @ stop @
       ['''', ''===== COUNT REJECTED ====='', ''rejected='' @ to_string (length (filter (\<lambda>r. \<not> accepted r) records)),
        '''', ''===== THRESHOLD CAPTURE ====='', ''sequence >= 4: '' @ to_string (length (filter (\<lambda>r. 4 \<le> rec_sequence r) records)),
        '''', ''===== REFERENCE CAPTURE ====='', ''accepted='' @ to_string (length (filter accepted records))]"
    unfolding lambda_main_def Let_def found stop_def
    by (simp add: normalize_records_def normalizeCommand_def record_line_def count_accepted_filter filter_map
        comp_def four split: option.split)
  have "stop = [] \<and> (\<nexists>r. r \<in> set records \<and> ?stop r) \<or>
      (\<exists>before r after. records = before @ r # after \<and> ?stop r \<and> (\<nexists>r'. r' \<in> set before \<and> ?stop r') \<and>
         stop = [''found STOP, seq='' @ int_to_string (rec_sequence r)])"
  proof (cases "find ?stop records")
    case None
    then have "stop = []" by (simp add: stop_def)
    moreover have "\<nexists>r. r \<in> set records \<and> ?stop r" using None by (auto simp: find_None_iff)
    ultimately show ?thesis by blast
  next
    case (Some r)
    then obtain before after where "records = before @ r # after" "?stop r" "\<nexists>r'. r' \<in> set before \<and> ?stop r'"
      by (rule find_first)
    moreover have "stop = [''found STOP, seq='' @ int_to_string (rec_sequence r)]" by (simp only: stop_def Some option.case)
    ultimately show ?thesis by (intro disjI2 exI [of _ before] exI [of _ r] exI [of _ after] conjI)
  qed
  note found_stop = this
  show ?thesis
    by (rule exI [of _ stop], rule exI [of _ "length (filter (\<lambda>r. \<not> accepted r) records)"],
        rule exI [of _ "length (filter (\<lambda>r. 4 \<le> rec_sequence r) records)"],
        rule exI [of _ "length (filter accepted records)"])
      (use main lengths found_stop in \<open>intro conjI refl\<close>)
qed

text \<open>The demonstrations as they are.\<close>

lemma small_demo_outputs:
  "snd (serial_frame_main sfd_inputs) =
     [''[ENCODE] seq=1 command=OPEN bytes=AA 55 03 00 01 01 03 0D 0A'', ''[DECODE] seq=1 command=OPEN'',
      ''[ENCODE] seq=2 command=GRAB bytes=AA 55 03 00 02 02 03 0D 0A'', ''[DECODE] seq=2 command=GRAB'',
      ''[ENCODE] seq=3 command=STOP bytes=AA 55 03 00 03 04 04 0D 0A'', ''[DECODE] seq=3 command=STOP'',
      ''[ENCODE] seq=4 command=RELEASE bytes=AA 55 03 00 04 03 04 0D 0A'', ''[DECODE] seq=4 command=RELEASE'',
      ''[CHECKSUM_TEST] success=false error=CHECKSUM_MISMATCH'', ''[STREAM] first_chunk_frames=0'',
      ''[STREAM] second_chunk_frames=2'', ''[STREAM_FRAME] seq=1 command=OPEN'', ''[STREAM_FRAME] seq=2 command=GRAB'']"
  "drop 5 (lambda_main lambda_records) =
     [''seq=5 command=RELEASE accepted=true'', ''seq=6 command=JUMP accepted=false'', '''',
      ''===== FIND STOP ====='', ''found STOP, seq=4'', '''', ''===== COUNT REJECTED ====='', ''rejected=2'', '''',
      ''===== THRESHOLD CAPTURE ====='', ''sequence >= 4: 3'', '''', ''===== REFERENCE CAPTURE ====='', ''accepted=4'']"
  "integration_lines integration_inputs =
     [''[INFO] Accepted command OPEN->HAND_OPEN'', ''[INFO] Accepted command GRAB->HAND_GRAB'',
      ''[WARNING] Rejected invalid command'', ''[INFO] Accepted command STOP->HAND_STOP'']"
  by code_simp+

end
