(* ===== verification/Spec2Isabelle.thy ===== *)
theory Spec2Isabelle
  imports Serial_Frame Reliable_Protocol Hand_Bridge_Properties Gateway_Demos Timeout_Demo
    Thread_Handshake Smart_Pointers Sensor_Gateway Ring_Buffer Byte_Frame_Parser Echo_Server Small_Demos
begin

text \<open>
  \<^bold>\<open>The IoT gateway, verified.\<close>

  The repository is a gateway between text commands, sensors and a robotic hand behind a serial line.
  Its C++ has three layers: the ROS 2 node that drives the hand (\<^verbatim>\<open>ros2_ws/src/hand_bridge\<close>), the serial
  protocols (\<^verbatim>\<open>cpp_modules/serial_frame_demo\<close>, \<^verbatim>\<open>cpp_modules/reliable_serial_demo\<close>), and the gateway
  modules with their programs (\<^verbatim>\<open>cpp_modules/protocol_parser\<close>, \<^verbatim>\<open>log_manager\<close> and the demos built on
  them). Its C is the sensor gateway (\<^verbatim>\<open>main.c\<close> and the files beside it), which reads lines from a serial
  line and publishes them, and three small programs (\<^verbatim>\<open>practice\<close>, \<^verbatim>\<open>examples\<close>). The development models
  each as HOL functions that can be evaluated and proves what makes it correct.

  \<^bold>\<open>How the parts work together.\<close> The hand bridge node receives commands, registers each as a request in
  its retry policy under a fresh sequence number and queues the frame. A transmit worker writes
  queued frames to the UART if the policy still wants them sent; a receive worker assembles lines,
  parses acknowledgements and reports them to the policy; a retry worker polls the policy and queues
  the frames that are due again; a service reports the state of the latest command; the destructor
  stops the workers. The serial protocols are independent of the node: a frame codec with a
  resynchronising stream parser, and a request protocol with a device that recognises
  retransmissions. The gateway programs run a producer and a consumer of commands over a shared queue,
  with the text parser and the logger as services; one of them waits for acknowledgements with a time
  limit. The sensor gateway is a single thread: it opens the serial device and the MQTT client, and
  until a signal clears its flag reads a line, parses it, builds JSON text, appends it to a log file
  and publishes it.

  \<^bold>\<open>Theories and sources.\<close>
  \<^item> \<open>Prelude\<close>: word types, decimal text, and the contracts \<open>invariant_system\<close> and \<open>terminating_system\<close> of
    transition systems, interpreted by the node, by every pipeline, by the timed demo and by the
    handshake of two threads.
  \<^item> \<open>Std_Map\<close>: \<^verbatim>\<open>std::map\<close> as an ordered association list, behind the contract \<open>key_map\<close>.
  \<^item> \<open>Byte_Codec\<close>: the two bytes of a sequence number, XOR checksums, and the contracts \<open>fixed_codec\<close>
    and \<open>exact_codec\<close> of an encoder and a decoder, interpreted by the three codecs.
  \<^item> \<open>Serial_Frame\<close>: \<^verbatim>\<open>serial_frame.h\<close> and \<^verbatim>\<open>serial_frame.cpp\<close>. The codec accepts exactly the
    encodings; every corruption of one byte is detected; the frames found in a stream do not depend
    on its chunks, are all the valid frames between noise, and are really in the stream.
  \<^item> \<open>Reliable_Protocol\<close>: \<^verbatim>\<open>reliable_protocol.h\<close>, \<^verbatim>\<open>reliable_protocol.cpp\<close> and the demo's device. Round trips;
    a command is executed once per sequence number whatever is retransmitted; what the decoder does
    not check.
  \<^item> \<open>Ack_Parser\<close>: \<^verbatim>\<open>ack_parser.hpp\<close> and \<^verbatim>\<open>ack_parser.cpp\<close>. The exact language of acknowledgement lines,
    with the 32-bit overflow test.
  \<^item> \<open>Retry_Policy\<close>: \<^verbatim>\<open>retry_policy.hpp\<close>. The life cycle of a request as an inductive relation; the
    contract \<open>send_ledger\<close> (an item is sent at most as often as its budget), interpreted by the policy
    and again by the whole node; the exact effect of a poll; giving up after three unanswered
    transmissions.
  \<^item> \<open>Uart_Io\<close>: \<^verbatim>\<open>open_uart\<close>, \<^verbatim>\<open>write_uart\<close> and the line assembly of \<^verbatim>\<open>uart_rx_worker\<close> in
    \<^verbatim>\<open>hand_bridge_node.cpp\<close>. No descriptor is leaked; every call of \<^verbatim>\<open>write\<close> is given the rest of the data, the
    bytes on the wire are an initial part of it and success means all of it; the lines passed on are
    those between line feeds of at most 95 characters.
  \<^item> \<open>Hand_Bridge_Node\<close>, \<open>Hand_Bridge_Schedules\<close> and \<open>Hand_Bridge_Properties\<close>: the rest of
    \<^verbatim>\<open>hand_bridge_node.cpp\<close>. The state is the members of the class and, for each thread, its place between
    two critical sections, with the transmit worker asleep on the condition variable as a place of its
    own; an event is one critical section, one notification or one spurious wake-up, so a list of
    events is an interleaving of the threads. The node refines the sequential policy; at most three
    transmissions per command; STOP silences what came before and, over every interleaving, nothing but
    STOP is written ahead of it; no frame is lost and the queue drains; the wire shows only frames of
    accepted commands; success is reported only on an acknowledgement received; under every fair
    schedule the destructor ends, by the contract \<open>fair_work\<close> of work that rounds of steps reduce,
    interpreted once for each thread and twice for the destructor.
  \<^item> \<open>Protocol_Parser\<close>: \<^verbatim>\<open>protocol_parser.h\<close>, \<^verbatim>\<open>protocol_parser.cpp\<close> and the version of the same parser in
    \<^verbatim>\<open>interview_practice/day28_protocol_parser.cpp\<close>. The exact language of commands; the two agree.
  \<^item> \<open>Log_Manager\<close>: \<^verbatim>\<open>log_manager.h\<close>, \<^verbatim>\<open>log_manager.cpp\<close>, its demo and \<^verbatim>\<open>thread_safe_log_demo\<close>. The cache
    holds the last lines, the counts are exact, no line is lost, and the demo with two threads gives
    one result for every interleaving.
  \<^item> \<open>Pipeline\<close> and \<open>Gateway_Demos\<close>: the producer and consumer machine shared by \<^verbatim>\<open>thread_safe_queue.cpp\<close>,
    \<^verbatim>\<open>producer_consumer_demo\<close>, \<^verbatim>\<open>day28_producer_consumer.cpp\<close>, \<^verbatim>\<open>gateway_pipeline_demo\<close> and
    \<^verbatim>\<open>gateway_ack_demo\<close>, with the contract \<open>pipeline\<close>: no run gets stuck, every run ends, and its effects
    are an interleaving of what the two threads do. Each program interprets it.
  \<^item> \<open>Timeout_Demo\<close>: \<^verbatim>\<open>gateway_timeout_demo\<close>. The sender and the lossy device as critical sections; the end of
    the timed wait is an event of its own. Whatever the timing, no run gets stuck, every run ends and
    the statistics add up; every acknowledgement reported was really sent; and when the time limit
    expires only while no acknowledgement is under way, every run prints the same results.
  \<^item> \<open>Thread_Handshake\<close>: \<^verbatim>\<open>thread_demo\<close>, two threads over three atomic variables, one access per step. Five
    samples are counted in every run; a sample can be lost, as a run shows; and what rules this out.
  \<^item> \<open>Ownership\<close>: \<^verbatim>\<open>move_semantics_demo\<close> over an explicit heap of blocks with limited room, and
    \<^verbatim>\<open>practice/day02/scoped_fd.cpp\<close> over a table of open descriptors. The operations of \<^verbatim>\<open>Buffer\<close>
    implement a specification by values, without a memory error and without a leak, also where an
    allocation fails, and the elements they read that were never initialised are counted; a descriptor
    is closed exactly once.
  \<^item> \<open>Smart_Pointers\<close>: \<^verbatim>\<open>smart_pointer_demo\<close> over control blocks. The counts are exact in every reachable
    state, the monitor is safe, and the program ends with nothing left.
  \<^item> \<open>C_Text\<close>: the parts of \<^verbatim>\<open>snprintf\<close> and \<^verbatim>\<open>sscanf\<close> that the C programs use.
  \<^item> \<open>Sensor_Parser\<close>: \<^verbatim>\<open>sensor_parser.c\<close>. The exact language of sensor lines, the round trip from printed
    values, and the JSON text, which fits its buffer or is refused.
  \<^item> \<open>Data_Source\<close>: \<^verbatim>\<open>data_source.c\<close> in both of its configurations. What a read delivers for every sequence of
    results of the system call; the device is opened, configured and closed in pairs.
  \<^item> \<open>Sensor_Gateway\<close>: \<^verbatim>\<open>main.c\<close>, \<^verbatim>\<open>app_log.c\<close>, \<^verbatim>\<open>log_writer.c\<close> and \<^verbatim>\<open>mqtt_client.c\<close> over an environment that answers
    each call by all that happened before. What is published is exactly what was read, parsed and
    logged in the turns begun, and turns are begun until the flag is cleared; everything acquired is released on every path; the program stops when it is told to.
  \<^item> \<open>Ring_Buffer\<close>: \<^verbatim>\<open>practice/day02/ring_buffer.c\<close>, an interpretation of the contract \<open>bounded_queue\<close>, which
    says that a sequence of operations gives the results of a list of limited length.
  \<^item> \<open>Byte_Frame_Parser\<close>: \<^verbatim>\<open>practice/day01/protocol_parser.c\<close>. No access leaves the payload array, no frame is
    invented, and every frame is found.
  \<^item> \<open>Echo_Server\<close>: \<^verbatim>\<open>examples/day04_tcp_echo_server.c\<close>. The bytes the calls of \<^verbatim>\<open>send\<close> take from the buffer
    are what was received, under short and interrupted sends; descriptors are closed once on every path.
  \<^item> \<open>Small_Demos\<close>: the \<^verbatim>\<open>main\<close> of \<^verbatim>\<open>serial_frame_demo\<close>, \<^verbatim>\<open>integration_demo\<close> and \<^verbatim>\<open>lambda_algorithm_demo\<close>, with the
    vectors they start from as arguments, so that their output is known for every vector.

  \<^bold>\<open>Conventions.\<close> Sized integers are words of that size; a container's size and counters that cannot
  leave the range of their type are natural numbers. Errors and early returns are Boolean or optional
  results, and output parameters are additional results. A clock reading is an integer of nanoseconds
  and an argument of the step that reads it. A pointer that may be null is an optional value or a flag;
  undefined behaviour that breaks the memory (a double free, an access outside an array) is a result of
  its own, which is proved not to occur. Loops are recursive functions with a termination proof; the one that takes fuel,
  the printing loop of the ring buffer, is given more than the buffer can hold. A loop over system
  calls takes the list of their results, and \<open>None\<close> says that it asks for a call that has not returned;
  the theorems on \<^verbatim>\<open>write_uart\<close>, on the draining of the queue and on the destruction say when it does
  return. A call of \<^verbatim>\<open>write\<close> or \<^verbatim>\<open>send\<close> is recorded with the place its pointer points to and the length it
  is asked for, and what leaves are the bytes there. In the node a thread that waits on the condition
  variable sleeps until it is notified or wakes spuriously; in the demo programs a wait that does not
  return is a step that is not enabled, which leaves out a notification that comes too early or not at
  all. The counters of the simulated device are C++ \<^verbatim>\<open>int\<close> and unbounded in the model; the theorem about
  them bounds the number of messages accordingly.

  \<^bold>\<open>What is not modelled.\<close> The registration of the node with ROS and its log output; sleeping, and with it
  any claim that one thread is faster than another; the unit tests of the retry policy, whose
  behaviour is proved for all inputs; the C exercises and tests under \<^verbatim>\<open>test\<close>. libmosquitto, the clock and
  the system calls are arguments. The memory model is sequentially consistent: every shared member is
  accessed under its mutex or is atomic, except \<^verbatim>\<open>uart_fd_\<close>, which changes only before the threads
  start and after they are joined.

  \<^bold>\<open>Plan.\<close> What is left are the exercises under \<^verbatim>\<open>test\<close> (a length-prefixed framer, a bounded queue with
  threads, a retry policy for MQTT), the last being a second client for the contract \<open>send_ledger\<close>, and
  the composition of the sensor gateway with the mock source over several rounds.
\<close>

end
